(* ===== verification/Prelude.thy ===== *)
theory Prelude
  imports Main
begin

text \<open>
  Shared vocabulary of the development: the outcomes of a C statement (a value or a
  fault), the width checks of the C integer types, heaps of linked nodes with the list
  predicate \<open>chain\<close>, and executions of step functions under an arbitrary schedule.
\<close>

named_theorems outcome_simps \<open>rules that evaluate fault-or-value computations\<close>
named_theorems chain_simps \<open>rules for linked lists in a heap\<close>

section \<open>Outcomes\<close>

text \<open>
  What ends a C run early: the undefined behaviours the programs can run into, a failed
  \<open>assert\<close>, a call of \<open>abort\<close> (with the message printed just before it) and a call of
  \<open>exit\<close>.
\<close>

datatype fault =
    NullDeref
  | UseAfterFree
  | OutOfBounds
  | Uninitialised
  | SignedOverflow
  | AssertFail
  | Abort string
  | Exit int

fun bindr :: "fault + 'a \<Rightarrow> ('a \<Rightarrow> fault + 'b) \<Rightarrow> fault + 'b" where
  "bindr (Inl e) f = Inl e"
| "bindr (Inr x) f = f x"

lemma bindr_cong [fundef_cong]:
  "x = x' \<Longrightarrow> (\<And>y. x' = Inr y \<Longrightarrow> f y = f' y) \<Longrightarrow> bindr x f = bindr x' f'"
  by (cases x') auto

text \<open>To evaluate a computation, the continuation is left alone until it has its argument.\<close>

lemma bindr_weak_cong: "x = x' \<Longrightarrow> bindr x f = bindr x' f"
  by simp

lemma bindr_Inr_iff [outcome_simps]:
  "bindr x f = Inr z \<longleftrightarrow> (\<exists>y. x = Inr y \<and> f y = Inr z)"
  by (cases x) auto

lemma bindr_Inl_iff [outcome_simps]:
  "bindr x f = Inl e \<longleftrightarrow> x = Inl e \<or> (\<exists>y. x = Inr y \<and> f y = Inl e)"
  by (cases x) auto

lemma bindr_assoc [simp]: "bindr (bindr x f) g = bindr x (\<lambda>y. bindr (f y) g)"
  by (cases x) auto

lemma bindr_if [simp]:
  "bindr (if b then x else y) f = (if b then bindr x f else bindr y f)"
  by simp

lemma bindr_option [simp]:
  "bindr (case x of None \<Rightarrow> a | Some y \<Rightarrow> f y) g =
   (case x of None \<Rightarrow> bindr a g | Some y \<Rightarrow> bindr (f y) g)"
  by (cases x) auto

section \<open>C integers\<close>

text \<open>
  A C \<open>int\<close> has 32 bits and a \<open>long\<close> 64 bits on the platform of the code (x86-64 Linux);
  they are read as mathematical integers, and every arithmetic result passes a range check
  because signed overflow is undefined behaviour in C.
\<close>

definition INT_MAX :: int where "INT_MAX = 2147483647"
definition INT_MIN :: int where "INT_MIN = -2147483648"
definition LONG_MAX :: int where "LONG_MAX = 9223372036854775807"
definition LONG_MIN :: int where "LONG_MIN = -9223372036854775808"

lemmas c_limits = INT_MAX_def INT_MIN_def LONG_MAX_def LONG_MIN_def

definition c_int :: "int \<Rightarrow> fault + int" where
  "c_int x = (if INT_MIN \<le> x \<and> x \<le> INT_MAX then Inr x else Inl SignedOverflow)"

definition c_long :: "int \<Rightarrow> fault + int" where
  "c_long x = (if LONG_MIN \<le> x \<and> x \<le> LONG_MAX then Inr x else Inl SignedOverflow)"

lemma c_int_Inr [outcome_simps]: "c_int x = Inr y \<longleftrightarrow> y = x \<and> INT_MIN \<le> x \<and> x \<le> INT_MAX"
  by (auto simp: c_int_def)

lemma c_int_Inl [outcome_simps]:
  "c_int x = Inl e \<longleftrightarrow> e = SignedOverflow \<and> (x < INT_MIN \<or> INT_MAX < x)"
  by (auto simp: c_int_def)

lemma c_long_Inr [outcome_simps]: "c_long x = Inr y \<longleftrightarrow> y = x \<and> LONG_MIN \<le> x \<and> x \<le> LONG_MAX"
  by (auto simp: c_long_def)

lemma c_long_Inl [outcome_simps]:
  "c_long x = Inl e \<longleftrightarrow> e = SignedOverflow \<and> (x < LONG_MIN \<or> LONG_MAX < x)"
  by (auto simp: c_long_def)

lemma c_int_ok: "INT_MIN \<le> x \<Longrightarrow> x \<le> INT_MAX \<Longrightarrow> c_int x = Inr x"
  by (simp add: c_int_def)

lemma c_long_ok: "LONG_MIN \<le> x \<Longrightarrow> x \<le> LONG_MAX \<Longrightarrow> c_long x = Inr x"
  by (simp add: c_long_def)

section \<open>Pointers and heaps\<close>

text \<open>
  An address is a natural number, a pointer is \<open>None\<close> (NULL) or an address, and a heap
  maps the allocated addresses to the objects stored there.
\<close>

type_synonym addr = nat
type_synonym ptr = "addr option"
type_synonym 'n heap = "addr \<Rightarrow> 'n option"

fun deref :: "'n heap \<Rightarrow> ptr \<Rightarrow> fault + 'n" where
  "deref h None = Inl NullDeref"
| "deref h (Some a) = (case h a of None \<Rightarrow> Inl UseAfterFree | Some n \<Rightarrow> Inr n)"

fun store :: "'n heap \<Rightarrow> ptr \<Rightarrow> ('n \<Rightarrow> 'n) \<Rightarrow> fault + 'n heap" where
  "store h None f = Inl NullDeref"
| "store h (Some a) f =
     (case h a of None \<Rightarrow> Inl UseAfterFree | Some n \<Rightarrow> Inr (h(a \<mapsto> f n)))"

text \<open>\<open>free(NULL)\<close> does nothing; freeing what is not allocated is undefined.\<close>

fun free :: "'n heap \<Rightarrow> ptr \<Rightarrow> fault + 'n heap" where
  "free h None = Inr h"
| "free h (Some a) = (case h a of None \<Rightarrow> Inl UseAfterFree | Some _ \<Rightarrow> Inr (h(a := None)))"

text \<open>
  \<open>malloc\<close> belongs to the C library. It is a parameter: the number of calls made so far and
  the heap determine whether it fails (\<open>None\<close>) or which block it returns, together with the
  indeterminate contents of the new block. Its documented behaviour is that a block it
  returns was not allocated.
\<close>

type_synonym 'n allocator = "nat \<Rightarrow> 'n heap \<Rightarrow> (addr \<times> 'n) option"

definition alloc_fresh :: "'n allocator \<Rightarrow> bool" where
  "alloc_fresh alloc \<longleftrightarrow> (\<forall>n h a x. alloc n h = Some (a, x) \<longrightarrow> h a = None)"

lemma alloc_freshD: "alloc_fresh alloc \<Longrightarrow> alloc n h = Some (a, x) \<Longrightarrow> h a = None"
  by (auto simp: alloc_fresh_def)

text \<open>
  An allocator that behaves so: the \<open>n\<close>-th call returns the \<open>n\<close>-th address, unless that is in
  use. It shows that the hypotheses on \<open>malloc\<close> can hold, and lets examples be evaluated.
\<close>

definition bump_alloc :: "'n \<Rightarrow> 'n allocator" where
  "bump_alloc junk n h = (if h n = None then Some (n, junk) else None)"

lemma bump_alloc_fresh: "alloc_fresh (bump_alloc junk)"
  by (simp add: alloc_fresh_def bump_alloc_def)

text \<open>
  An allocator that does not fail while fewer than \<open>k\<close> blocks are allocated, and one that
  takes the first of \<open>k\<close> addresses that is free.
\<close>

definition never_null :: "nat \<Rightarrow> 'n allocator \<Rightarrow> bool" where
  "never_null k alloc \<longleftrightarrow> (\<forall>n h. finite (dom h) \<and> card (dom h) < k \<longrightarrow> alloc n h \<noteq> None)"

definition first_fit :: "nat \<Rightarrow> 'n \<Rightarrow> 'n allocator" where
  "first_fit k junk n h = (case filter (\<lambda>a. h a = None) [0..<k] of [] \<Rightarrow> None | a # _ \<Rightarrow> Some (a, junk))"

lemma first_fit_fresh: "alloc_fresh (first_fit k junk)"
  by (auto simp: alloc_fresh_def first_fit_def filter_eq_Cons_iff split: list.splits)

lemma first_fit_never_null: "never_null k (first_fit k junk)"
  unfolding never_null_def
proof (intro allI impI)
  fix n and h :: "addr \<Rightarrow> 'a option"
  assume h: "finite (dom h) \<and> card (dom h) < k"
  show "first_fit k junk n h \<noteq> None"
  proof (cases "filter (\<lambda>a. h a = None) [0..<k]")
    case Nil
    then have "{..<k} \<subseteq> dom h" by (auto simp: filter_empty_conv)
    with h card_mono [of "dom h" "{..<k}"] show ?thesis by simp
  qed (simp add: first_fit_def)
qed

subsection \<open>Linked lists in a heap\<close>

text \<open>
  \<open>chain nxt h p as\<close>: following the \<open>nxt\<close> links from \<open>p\<close> visits exactly the allocated
  addresses \<open>as\<close> and ends at NULL. \<open>seg nxt h p as q\<close> is a chain that ends at \<open>q\<close>.
\<close>

fun seg :: "('n \<Rightarrow> ptr) \<Rightarrow> 'n heap \<Rightarrow> ptr \<Rightarrow> addr list \<Rightarrow> ptr \<Rightarrow> bool" where
  "seg nxt h p [] q = (p = q)"
| "seg nxt h p (a # as) q =
     (p = Some a \<and> (case h a of None \<Rightarrow> False | Some n \<Rightarrow> seg nxt h (nxt n) as q))"

abbreviation chain :: "('n \<Rightarrow> ptr) \<Rightarrow> 'n heap \<Rightarrow> ptr \<Rightarrow> addr list \<Rightarrow> bool" where
  "chain nxt h p as \<equiv> seg nxt h p as None"

lemma seg_Cons_iff [simp]:
  "seg nxt h p (a # as) q \<longleftrightarrow> p = Some a \<and> (\<exists>n. h a = Some n \<and> seg nxt h (nxt n) as q)"
  by (auto split: option.splits)

declare seg.simps(2) [simp del]

lemma chain_None [simp]: "chain nxt h None as \<longleftrightarrow> as = []"
  by (cases as) auto

lemma chain_Some [chain_simps]:
  "chain nxt h (Some a) as \<longleftrightarrow>
     (\<exists>n bs. as = a # bs \<and> h a = Some n \<and> chain nxt h (nxt n) bs)"
  by (cases as) (auto split: option.splits)

lemma seg_append [chain_simps]:
  "seg nxt h p (as @ bs) q \<longleftrightarrow> (\<exists>r. seg nxt h p as r \<and> seg nxt h r bs q)"
  by (induction as arbitrary: p) (auto split: option.splits)

lemma seg_cong:
  "(\<And>a. a \<in> set as \<Longrightarrow> h a = h' a) \<Longrightarrow> seg nxt h p as q = seg nxt h' p as q"
  by (induction as arbitrary: p) (auto split: option.splits)

lemma seg_upd [simp]: "a \<notin> set as \<Longrightarrow> seg nxt (h(a := x)) p as q = seg nxt h p as q"
  by (rule seg_cong) auto

lemma seg_dom: "seg nxt h p as q \<Longrightarrow> set as \<subseteq> dom h"
  by (induction as arbitrary: p) (auto split: option.splits)

lemma chain_unique: "chain nxt h p as \<Longrightarrow> chain nxt h p bs \<Longrightarrow> as = bs"
proof (induction as arbitrary: p bs)
  case Nil
  then show ?case by (cases bs) auto
next
  case (Cons a as)
  then show ?case by (cases bs) (auto simp: chain_simps)
qed

lemma chain_distinct: "chain nxt h p as \<Longrightarrow> distinct as"
proof (induction as arbitrary: p)
  case Nil
  then show ?case by simp
next
  case (Cons a as)
  from Cons.prems obtain n where n: "h a = Some n" and tail: "chain nxt h (nxt n) as"
    by (auto simp: chain_simps)
  have "a \<notin> set as"
  proof
    assume "a \<in> set as"
    then obtain xs ys where as: "as = xs @ a # ys"
      by (auto simp: in_set_conv_decomp)
    with tail have "chain nxt h (Some a) (a # ys)"
      by (auto simp: chain_simps)
    then have "chain nxt h (nxt n) ys"
      using n by (auto simp: chain_simps)
    with tail have "as = ys" by (rule chain_unique)
    with as show False by simp
  qed
  with Cons.IH tail show ?case by auto
qed

lemma seg_snoc:
  "seg nxt h p (as @ [a]) q \<longleftrightarrow> seg nxt h p as (Some a) \<and> (\<exists>n. h a = Some n \<and> nxt n = q)"
  by (auto simp: chain_simps)

section \<open>C11 atomics\<close>

text \<open>
  \<open>atomic_compare_exchange_strong(&obj, &expected, desired)\<close>: the result, and the value of
  the object afterwards. (The write of the old value to \<open>expected\<close> on failure is not observed
  by any caller here: every caller passes a fresh local variable.)
\<close>

definition atomic_cas :: "int \<Rightarrow> int \<Rightarrow> int \<Rightarrow> bool \<times> int" where
  "atomic_cas obj expected desired =
     (if obj = expected then (True, desired) else (False, obj))"

section \<open>Executions\<close>

text \<open>
  A concurrent program is a step function: the event names the thread that moves (and what
  the environment chooses), and the step either faults or gives the next state. An execution
  is any list of events; a property of all executions is a property of all reachable states.
\<close>

fun run :: "('s \<Rightarrow> 'e \<Rightarrow> fault + 's) \<Rightarrow> 's \<Rightarrow> 'e list \<Rightarrow> fault + 's" where
  "run step s [] = Inr s"
| "run step s (e # es) = bindr (step s e) (\<lambda>t. run step t es)"

inductive reach :: "('s \<Rightarrow> 'e \<Rightarrow> fault + 's) \<Rightarrow> 's \<Rightarrow> 's \<Rightarrow> bool"
  for step s0 where
  start: "reach step s0 s0"
| step: "reach step s0 s \<Longrightarrow> step s e = Inr t \<Longrightarrow> reach step s0 t"

lemma reach_trans: "reach step t u \<Longrightarrow> reach step s t \<Longrightarrow> reach step s u"
  by (induction rule: reach.induct) (auto intro: reach.step)

lemma run_reach: "run step s es = Inr t \<Longrightarrow> reach step s t"
proof (induction es arbitrary: s)
  case Nil
  then show ?case by (auto intro: reach.start)
next
  case (Cons e es)
  then obtain u where u: "step s e = Inr u" and "run step u es = Inr t"
    by (auto simp: outcome_simps)
  then have "reach step u t" by (auto intro: Cons.IH)
  moreover have "reach step s u" using u by (auto intro: reach.intros)
  ultimately show ?case by (rule reach_trans)
qed

lemma run_append [simp]: "run step s (es @ fs) = bindr (run step s es) (\<lambda>t. run step t fs)"
  by (induction es arbitrary: s) auto

lemma reach_run: "reach step s t \<Longrightarrow> \<exists>es. run step s es = Inr t"
proof (induction rule: reach.induct)
  case start
  have "run step s [] = Inr s" by simp
  then show ?case by blast
next
  case (step t e u)
  then obtain es where "run step s es = Inr t" by blast
  with step.hyps have "run step s (es @ [e]) = Inr u" by simp
  then show ?case by blast
qed

text \<open>The invariance principle, stated once for every machine of the development.\<close>

locale invariant_of =
  fixes step :: "'s \<Rightarrow> 'e \<Rightarrow> fault + 's"
    and init :: "'s \<Rightarrow> bool"
    and good :: "'s \<Rightarrow> bool"
  assumes good_init: "init s \<Longrightarrow> good s"
    and good_step: "good s \<Longrightarrow> step s e = Inr t \<Longrightarrow> good t"
begin

lemma reach_good: "reach step s t \<Longrightarrow> init s \<Longrightarrow> good t"
  by (induction rule: reach.induct) (auto intro: good_init good_step)

lemma run_good: "run step s es = Inr t \<Longrightarrow> init s \<Longrightarrow> good t"
  by (blast intro: reach_good run_reach)

end

end
