(* ===== verification/QueueCore.thy ===== *)
theory QueueCore
  imports Prelude
begin

text \<open>
  The bounded queue of \<^verbatim>\<open>lab2/1/queue.h\<close> and \<^verbatim>\<open>lab2/1/queue.c\<close>: a singly linked
  list of heap nodes with first and last pointers, a capacity and four statistics counters,
  with the operations run by one thread. The well-formedness predicate \<open>wfq\<close> ties the
  structure to the list of values it holds, and the operations refine the operations
  \<open>spec_add\<close> and \<open>spec_get\<close> on that list.
\<close>

section \<open>Data\<close>

record qnode =
  n_val :: int
  n_next :: ptr

record queue_t =
  q_first :: ptr
  q_last :: ptr
  q_qmonitor_tid :: nat
  q_count :: int
  q_max_count :: int
  q_add_attempts :: int
  q_get_attempts :: int
  q_add_count :: int
  q_get_count :: int

text \<open>What \<open>malloc\<close> leaves in a new node is indeterminate; the examples use this junk.\<close>

definition wit_node :: qnode where
  "wit_node = \<lparr>n_val = 77, n_next = Some 99\<rparr>"

text \<open>
  The memory an operation works on: the structure its argument \<open>q\<close> points to, the heap of
  nodes, and the number of \<open>malloc\<close> calls so far (which the allocator may depend on).
\<close>

record qmem =
  m_q :: queue_t
  m_heap :: "qnode heap"
  m_mallocs :: nat

section \<open>Operations\<close>

definition queue_init :: "bool \<Rightarrow> int \<Rightarrow> nat \<Rightarrow> int \<Rightarrow> fault + queue_t" where
  "queue_init malloc_ok create_err tid max_count =
     (if \<not> malloc_ok then Inl (Abort ''Cannot allocate memory for a queue'')
      else if create_err \<noteq> 0 then Inl (Abort ''queue_init: pthread_create() failed'')
      else Inr \<lparr>q_first = None, q_last = None, q_qmonitor_tid = tid, q_count = 0,
                q_max_count = max_count, q_add_attempts = 0, q_get_attempts = 0,
                q_add_count = 0, q_get_count = 0\<rparr>)"

definition queue_add :: "qnode allocator \<Rightarrow> int \<Rightarrow> qmem \<Rightarrow> fault + (int \<times> qmem)" where
  "queue_add alloc v m =
     bindr (c_long (q_add_attempts (m_q m) + 1)) (\<lambda>att.
     let m = m\<lparr>m_q := (m_q m)\<lparr>q_add_attempts := att\<rparr>\<rparr> in
     if \<not> q_count (m_q m) \<le> q_max_count (m_q m) then Inl AssertFail
     else if q_count (m_q m) = q_max_count (m_q m) then Inr (0, m)
     else
       (case alloc (m_mallocs m) (m_heap m) of
          None \<Rightarrow> Inl (Abort ''Cannot allocate memory for new node'')
        | Some (new, junk) \<Rightarrow>
            let m = m\<lparr>m_heap := (m_heap m)(new \<mapsto> junk), m_mallocs := Suc (m_mallocs m)\<rparr> in
            bindr (store (m_heap m) (Some new) (\<lambda>n. n\<lparr>n_val := v\<rparr>)) (\<lambda>h.
            bindr (store h (Some new) (\<lambda>n. n\<lparr>n_next := None\<rparr>)) (\<lambda>h.
            let m = m\<lparr>m_heap := h\<rparr> in
            bindr
              (if q_first (m_q m) = None
               then Inr (m\<lparr>m_q := (m_q m)\<lparr>q_last := Some new, q_first := Some new\<rparr>\<rparr>)
               else bindr (store (m_heap m) (q_last (m_q m)) (\<lambda>n. n\<lparr>n_next := Some new\<rparr>)) (\<lambda>h.
                    bindr (deref h (q_last (m_q m))) (\<lambda>n.
                    Inr (m\<lparr>m_heap := h, m_q := (m_q m)\<lparr>q_last := n_next n\<rparr>\<rparr>)))) (\<lambda>m.
            bindr (c_int (q_count (m_q m) + 1)) (\<lambda>c.
            bindr (c_long (q_add_count (m_q m) + 1)) (\<lambda>ac.
            Inr (1, m\<lparr>m_q := (m_q m)\<lparr>q_count := c, q_add_count := ac\<rparr>\<rparr>))))))))"

text \<open>
  \<open>queue_get\<close> takes the value \<open>v0\<close> that the caller's \<open>*val\<close> holds, and returns the value it
  holds afterwards beside the C result.
\<close>

definition queue_get :: "int \<Rightarrow> qmem \<Rightarrow> fault + (int \<times> int \<times> qmem)" where
  "queue_get v0 m =
     bindr (c_long (q_get_attempts (m_q m) + 1)) (\<lambda>att.
     let m = m\<lparr>m_q := (m_q m)\<lparr>q_get_attempts := att\<rparr>\<rparr> in
     if \<not> 0 \<le> q_count (m_q m) then Inl AssertFail
     else if q_count (m_q m) = 0 then Inr (0, v0, m)
     else
       (let tmp = q_first (m_q m) in
        bindr (deref (m_heap m) tmp) (\<lambda>n.
        bindr (deref (m_heap m) (q_first (m_q m))) (\<lambda>f.
        let m = m\<lparr>m_q := (m_q m)\<lparr>q_first := n_next f\<rparr>\<rparr> in
        bindr (free (m_heap m) tmp) (\<lambda>h.
        let m = m\<lparr>m_heap := h\<rparr> in
        bindr (c_int (q_count (m_q m) - 1)) (\<lambda>c.
        bindr (c_long (q_get_count (m_q m) + 1)) (\<lambda>gc.
        Inr (1, n_val n, m\<lparr>m_q := (m_q m)\<lparr>q_count := c, q_get_count := gc\<rparr>\<rparr>))))))))"

text \<open>
  The seven numbers \<open>queue_print_stats\<close> prints; the differences are computed in \<open>long\<close>.
\<close>

definition queue_print_stats :: "queue_t \<Rightarrow> fault + int list" where
  "queue_print_stats q =
     bindr (c_long (q_add_attempts q - q_get_attempts q)) (\<lambda>da.
     bindr (c_long (q_add_count q - q_get_count q)) (\<lambda>dc.
     Inr [q_count q, q_add_attempts q, q_get_attempts q, da, q_add_count q, q_get_count q, dc]))"

text \<open>
  \<open>queue_destroy\<close>: the monitor thread is cancelled and joined (\<open>join_err\<close> is what
  \<open>pthread_join\<close> returns), then the nodes are freed from the front, and the structure itself
  is gone. The loop may not end on a broken list, so its result is an option; what is left
  is the heap of nodes that are still allocated.
\<close>

partial_function (option) destroy_loop :: "qmem \<Rightarrow> (fault + qmem) option" where
  "destroy_loop m =
     (if q_first (m_q m) \<noteq> None then
        (let temp = q_first (m_q m) in
         case deref (m_heap m) (q_first (m_q m)) of
           Inl e \<Rightarrow> Some (Inl e)
         | Inr n \<Rightarrow>
             (case free (m_heap m) temp of
                Inl e \<Rightarrow> Some (Inl e)
              | Inr h \<Rightarrow> destroy_loop (m\<lparr>m_q := (m_q m)\<lparr>q_first := n_next n\<rparr>, m_heap := h\<rparr>)))
      else Some (Inr m))"

definition queue_destroy :: "int \<Rightarrow> qmem \<Rightarrow> (fault + qnode heap) option" where
  "queue_destroy join_err m =
     (if join_err \<noteq> 0 then Some (Inl (Exit 1))
      else (case destroy_loop m of
              None \<Rightarrow> None
            | Some (Inl e) \<Rightarrow> Some (Inl e)
            | Some (Inr m') \<Rightarrow> Some (Inr (m_heap m'))))"

text \<open>
  The variants of \<^verbatim>\<open>lab2/2\<close> walk the list with a local pointer \<open>current\<close> instead.
\<close>

partial_function (option) destroy_nodes :: "ptr \<Rightarrow> qnode heap \<Rightarrow> (fault + qnode heap) option" where
  "destroy_nodes current h =
     (if current \<noteq> None then
        (let temp = current in
         case deref h current of
           Inl e \<Rightarrow> Some (Inl e)
         | Inr n \<Rightarrow>
             (case free h temp of
                Inl e \<Rightarrow> Some (Inl e)
              | Inr h' \<Rightarrow> destroy_nodes (n_next n) h'))
      else Some (Inr h))"

section \<open>Abstract queue\<close>

definition spec_add :: "int \<Rightarrow> int list \<Rightarrow> int \<Rightarrow> int \<times> int list" where
  "spec_add cap xs v = (if int (length xs) = cap then (0, xs) else (1, xs @ [v]))"

fun spec_get :: "int \<Rightarrow> int list \<Rightarrow> int \<times> int \<times> int list" where
  "spec_get v0 [] = (0, v0, [])"
| "spec_get v0 (x # xs) = (1, x, xs)"

section \<open>Well-formed queues\<close>

definition vals :: "qnode heap \<Rightarrow> addr list \<Rightarrow> int list" where
  "vals h as = List.map (\<lambda>a. case h a of None \<Rightarrow> 0 | Some n \<Rightarrow> n_val n) as"

text \<open>
  \<open>wf_at m as xs\<close>: the nodes \<open>as\<close> form the list of the values \<open>xs\<close>, the heap holds nothing
  else, the last pointer is right (when there is a last node) and the counters agree.
\<close>

definition wf_counts :: "queue_t \<Rightarrow> nat \<Rightarrow> bool" where
  "wf_counts q k \<longleftrightarrow>
     q_count q = int k \<and> int k \<le> q_max_count q \<and> q_max_count q \<le> INT_MAX \<and>
     0 \<le> q_get_count q \<and> q_add_count q = q_get_count q + int k \<and>
     q_add_count q \<le> q_add_attempts q \<and> q_add_attempts q \<le> LONG_MAX \<and>
     q_get_count q \<le> q_get_attempts q \<and> q_get_attempts q \<le> LONG_MAX"

definition wf_at :: "qmem \<Rightarrow> addr list \<Rightarrow> int list \<Rightarrow> bool" where
  "wf_at m as xs \<longleftrightarrow>
     chain n_next (m_heap m) (q_first (m_q m)) as \<and>
     vals (m_heap m) as = xs \<and>
     dom (m_heap m) = set as \<and>
     (as \<noteq> [] \<longrightarrow> q_last (m_q m) = Some (last as)) \<and>
     wf_counts (m_q m) (length as)"

definition wfq :: "qmem \<Rightarrow> int list \<Rightarrow> bool" where
  "wfq m xs \<longleftrightarrow> (\<exists>as. wf_at m as xs)"

lemma vals_Nil [simp]: "vals h [] = []"
  by (simp add: vals_def)

lemma vals_Cons: "vals h (a # as) = (case h a of None \<Rightarrow> 0 | Some n \<Rightarrow> n_val n) # vals h as"
  by (simp add: vals_def)

lemma vals_append [simp]: "vals h (as @ bs) = vals h as @ vals h bs"
  by (simp add: vals_def)

lemma length_vals [simp]: "length (vals h as) = length as"
  by (simp add: vals_def)

lemma vals_cong: "(\<And>a. a \<in> set as \<Longrightarrow> h a = h' a) \<Longrightarrow> vals h as = vals h' as"
  by (simp add: vals_def)

lemma vals_upd [simp]: "a \<notin> set as \<Longrightarrow> vals (h(a := x)) as = vals h as"
  by (rule vals_cong) auto

lemma wfq_length: "wfq m xs \<Longrightarrow> q_count (m_q m) = int (length xs)"
  by (auto simp: wfq_def wf_at_def wf_counts_def)

lemma wfq_capacity: "wfq m xs \<Longrightarrow> int (length xs) \<le> q_max_count (m_q m)"
  by (auto simp: wfq_def wf_at_def wf_counts_def)

section \<open>queue_add\<close>

definition enqueued :: "int \<Rightarrow> addr \<Rightarrow> qnode \<Rightarrow> qmem \<Rightarrow> qmem" where
  "enqueued v a junk m =
     (let new = junk\<lparr>n_val := v, n_next := None\<rparr>;
          h = (m_heap m)(a \<mapsto> new);
          q = (m_q m)\<lparr>q_add_attempts := q_add_attempts (m_q m) + 1,
                      q_count := q_count (m_q m) + 1,
                      q_add_count := q_add_count (m_q m) + 1, q_last := Some a\<rparr>
      in case (q_first (m_q m), q_last (m_q m)) of
           (Some _, Some l) \<Rightarrow>
             m\<lparr>m_q := q, m_heap := h(l \<mapsto> (the (h l))\<lparr>n_next := Some a\<rparr>),
               m_mallocs := Suc (m_mallocs m)\<rparr>
         | _ \<Rightarrow> m\<lparr>m_q := q\<lparr>q_first := Some a\<rparr>, m_heap := h, m_mallocs := Suc (m_mallocs m)\<rparr>)"

lemma chain_extend:
  assumes c: "chain n_next h p (bs @ [l])" and a: "h a = None" and nl: "h l = Some n"
  shows "chain n_next (h(a \<mapsto> x\<lparr>n_next := None\<rparr>, l \<mapsto> n\<lparr>n_next := Some a\<rparr>)) p (bs @ [l, a])"
proof -
  from chain_distinct [OF c] have l: "l \<notin> set bs" by simp
  from seg_dom [OF c] a have "a \<notin> set (bs @ [l])" by auto
  then have ab: "a \<notin> set bs" and al: "a \<noteq> l" by auto
  from c have "seg n_next h p bs (Some l)" by (simp add: chain_simps)
  with l ab al show ?thesis by (simp add: chain_simps)
qed

lemma wf_at_first: "wf_at m as xs \<Longrightarrow> q_first (m_q m) = (case as of [] \<Rightarrow> None | a # _ \<Rightarrow> Some a)"
  by (cases as) (auto simp: wf_at_def)

lemma wf_at_snocE:
  assumes "wf_at m as xs" and "as \<noteq> []"
  obtains bs l n f where "as = bs @ [l]" "q_last (m_q m) = Some l" "m_heap m l = Some n"
    "n_next n = None" "q_first (m_q m) = Some f"
proof -
  from assms(2) obtain bs l where as: "as = bs @ [l]" by (metis rev_exhaust)
  with assms(1) obtain n where "m_heap m l = Some n" "n_next n = None" "q_last (m_q m) = Some l"
    by (auto simp: wf_at_def seg_snoc)
  moreover obtain f where "q_first (m_q m) = Some f"
    using wf_at_first [OF assms(1)] assms(2) by (cases as) auto
  ultimately show thesis using as that by blast
qed

lemma wf_counts_room:
  "wf_counts q k \<Longrightarrow> q_count q \<noteq> q_max_count q \<Longrightarrow> q_add_attempts q < LONG_MAX \<Longrightarrow>
   wf_counts (q\<lparr>q_add_attempts := q_add_attempts q + 1, q_count := q_count q + 1,
                q_add_count := q_add_count q + 1\<rparr>) (Suc k)"
  by (auto simp: wf_counts_def)

lemma wf_counts_more [simp]:
  "wf_counts (q\<lparr>q_first := x\<rparr>) k = wf_counts q k"
  "wf_counts (q\<lparr>q_last := x\<rparr>) k = wf_counts q k"
  by (auto simp: wf_counts_def)

lemma queue_add_overflow:
  "wfq m xs \<Longrightarrow> q_add_attempts (m_q m) = LONG_MAX \<Longrightarrow> queue_add alloc v m = Inl SignedOverflow"
  by (simp add: queue_add_def c_long_def)

lemma queue_add_full:
  assumes "wfq m xs" and "q_add_attempts (m_q m) < LONG_MAX"
    and "int (length xs) = q_max_count (m_q m)"
  shows "queue_add alloc v m = Inr (0, m\<lparr>m_q := (m_q m)\<lparr>q_add_attempts := q_add_attempts (m_q m) + 1\<rparr>\<rparr>)"
  using assms wfq_length [OF assms(1)]
  by (auto simp: queue_add_def c_long_def c_limits wfq_def wf_at_def wf_counts_def)

lemma queue_add_oom:
  assumes "wfq m xs" and "q_add_attempts (m_q m) < LONG_MAX"
    and "int (length xs) \<noteq> q_max_count (m_q m)" and "alloc (m_mallocs m) (m_heap m) = None"
  shows "queue_add alloc v m = Inl (Abort ''Cannot allocate memory for new node'')"
  using assms wfq_length [OF assms(1)] wfq_capacity [OF assms(1)]
  by (auto simp: queue_add_def c_long_def c_limits wfq_def wf_at_def wf_counts_def)

lemma queue_add_room:
  assumes wf: "wf_at m as xs" and "q_add_attempts (m_q m) < LONG_MAX"
    and "int (length as) \<noteq> q_max_count (m_q m)"
    and al: "alloc (m_mallocs m) (m_heap m) = Some (a, junk)" and fresh: "m_heap m a = None"
  shows "queue_add alloc v m = Inr (1, enqueued v a junk m)"
proof -
  from assms have *: "c_long (q_add_attempts (m_q m) + 1) = Inr (q_add_attempts (m_q m) + 1)"
      "c_long (q_add_count (m_q m) + 1) = Inr (q_add_count (m_q m) + 1)"
      "c_int (q_count (m_q m) + 1) = Inr (q_count (m_q m) + 1)"
      "q_count (m_q m) \<le> q_max_count (m_q m)" "q_count (m_q m) \<noteq> q_max_count (m_q m)"
    by (auto simp: wf_at_def wf_counts_def c_int_def c_long_def c_limits)
  show ?thesis
  proof (cases "as = []")
    case True
    then have "q_first (m_q m) = None" using wf by (simp add: wf_at_def)
    with * al show ?thesis
      by (simp add: queue_add_def enqueued_def Let_def)
  next
    case False
    then obtain bs l n f where l: "q_last (m_q m) = Some l" "m_heap m l = Some n"
        "q_first (m_q m) = Some f" using wf by (elim wf_at_snocE) blast+
    then have "a \<noteq> l" using fresh by auto
    with * al l show ?thesis
      by (simp add: queue_add_def enqueued_def Let_def)
  qed
qed

lemma enqueued_wf:
  assumes wf: "wf_at m as xs" and att: "q_add_attempts (m_q m) < LONG_MAX"
    and room: "int (length as) \<noteq> q_max_count (m_q m)" and fresh: "m_heap m a = None"
  shows "wf_at (enqueued v a junk m) (as @ [a]) (xs @ [v])"
proof -
  have "a \<notin> set as" using wf fresh by (auto simp: wf_at_def)
  have cnt: "wf_counts (m_q m) (length as)" "q_count (m_q m) \<noteq> q_max_count (m_q m)"
    using wf room by (auto simp: wf_at_def wf_counts_def)
  note cnt' = wf_counts_room [OF cnt att]
  show ?thesis
  proof (cases "as = []")
    case True
    with wf have e: "q_first (m_q m) = None" "xs = []" "m_heap m = Map.empty" by (auto simp: wf_at_def)
    with True cnt' show ?thesis
      by (auto simp: wf_at_def enqueued_def Let_def vals_def wf_counts_def)
  next
    case False
    then obtain bs l n f where as: "as = bs @ [l]" and l: "q_last (m_q m) = Some l"
        and n: "m_heap m l = Some n" and f: "q_first (m_q m) = Some f"
      using wf by (elim wf_at_snocE) blast+
    have ch: "chain n_next (m_heap m) (q_first (m_q m)) (bs @ [l])" using wf as by (simp add: wf_at_def)
    have lbs: "l \<notin> set bs" using chain_distinct [OF ch] by simp
    have al: "a \<noteq> l" using n fresh by auto
    have x: "vals (m_heap m) bs @ [n_val n] = xs" using wf as n by (auto simp: wf_at_def vals_Cons)
    have d: "dom (m_heap m) = set bs \<union> {l}" using wf as by (auto simp: wf_at_def)
    show ?thesis
      using chain_extend [OF ch fresh n, of "junk\<lparr>n_val := v\<rparr>"] cnt' as l n f al lbs x d \<open>a \<notin> set as\<close>
      by (auto simp: wf_at_def enqueued_def Let_def vals_Cons wf_counts_def)
  qed
qed

section \<open>queue_get\<close>

lemma queue_get_overflow:
  "wfq m xs \<Longrightarrow> q_get_attempts (m_q m) = LONG_MAX \<Longrightarrow> queue_get v0 m = Inl SignedOverflow"
  by (simp add: queue_get_def c_long_def)

lemma queue_get_empty:
  assumes "wfq m []" and "q_get_attempts (m_q m) < LONG_MAX"
  shows "queue_get v0 m = Inr (0, v0, m\<lparr>m_q := (m_q m)\<lparr>q_get_attempts := q_get_attempts (m_q m) + 1\<rparr>\<rparr>)"
  using assms wfq_length [OF assms(1)]
  by (auto simp: queue_get_def c_long_def c_limits wfq_def wf_at_def wf_counts_def)

definition dequeued :: "addr \<Rightarrow> ptr \<Rightarrow> qmem \<Rightarrow> qmem" where
  "dequeued a p m =
     m\<lparr>m_q := (m_q m)\<lparr>q_first := p, q_count := q_count (m_q m) - 1,
                      q_get_attempts := q_get_attempts (m_q m) + 1,
                      q_get_count := q_get_count (m_q m) + 1\<rparr>,
       m_heap := (m_heap m)(a := None)\<rparr>"

lemma queue_get_some:
  assumes wf: "wf_at m (a # as) xs" and "q_get_attempts (m_q m) < LONG_MAX"
    and n: "m_heap m a = Some n"
  shows "queue_get v0 m = Inr (1, n_val n, dequeued a (n_next n) m)"
proof -
  have f: "q_first (m_q m) = Some a" using wf by (auto simp: wf_at_def)
  have c: "c_long (q_get_attempts (m_q m) + 1) = Inr (q_get_attempts (m_q m) + 1)"
      "c_long (q_get_count (m_q m) + 1) = Inr (q_get_count (m_q m) + 1)"
      "c_int (q_count (m_q m) - 1) = Inr (q_count (m_q m) - 1)" "0 < q_count (m_q m)"
    using assms by (auto simp: wf_at_def wf_counts_def c_int_def c_long_def c_limits)
  from f c n show ?thesis
    by (auto simp: queue_get_def dequeued_def Let_def)
qed

lemma dequeued_wf:
  assumes wf: "wf_at m (a # as) (x # xs)" and att: "q_get_attempts (m_q m) < LONG_MAX"
    and n: "m_heap m a = Some n"
  shows "wf_at (dequeued a (n_next n) m) as xs"
proof -
  have ch: "chain n_next (m_heap m) (n_next n) as" using wf n by (auto simp: wf_at_def)
  have "chain n_next (m_heap m) (q_first (m_q m)) (a # as)" using wf unfolding wf_at_def by blast
  then have "distinct (a # as)" by (rule chain_distinct)
  with wf ch n att show ?thesis
    by (auto simp: wf_at_def dequeued_def wf_counts_def vals_Cons dom_def)
qed

lemma wfq_ConsE:
  assumes "wfq m (x # xs)"
  obtains a as n where "wf_at m (a # as) (x # xs)" "m_heap m a = Some n" "n_val n = x"
proof -
  from assms obtain bs where b: "wf_at m bs (x # xs)" by (auto simp: wfq_def)
  then obtain a as where bs: "bs = a # as" by (cases bs) (auto simp: wf_at_def vals_def)
  with b obtain n where "m_heap m a = Some n" by (auto simp: wf_at_def)
  moreover from this b bs have "n_val n = x" by (auto simp: wf_at_def vals_Cons)
  ultimately show thesis using that b bs by blast
qed

section \<open>Refinement of the abstract queue\<close>

lemma wfq_attempts:
  "wfq m xs \<Longrightarrow> q_add_attempts (m_q m) \<le> LONG_MAX \<and> q_get_attempts (m_q m) \<le> LONG_MAX"
  by (auto simp: wfq_def wf_at_def wf_counts_def)

lemma wfq_bump:
  "wfq m xs \<Longrightarrow> q_add_attempts (m_q m) < LONG_MAX \<Longrightarrow>
   wfq (m\<lparr>m_q := (m_q m)\<lparr>q_add_attempts := q_add_attempts (m_q m) + 1\<rparr>\<rparr>) xs"
  "wfq m xs \<Longrightarrow> q_get_attempts (m_q m) < LONG_MAX \<Longrightarrow>
   wfq (m\<lparr>m_q := (m_q m)\<lparr>q_get_attempts := q_get_attempts (m_q m) + 1\<rparr>\<rparr>) xs"
  by (auto simp: wfq_def wf_at_def wf_counts_def)

text \<open>
  One lemma per operation gathers every branch: what the operation returns, what the queue
  holds afterwards, which fields of the structure never change, and the only faults.
\<close>

definition same_shape :: "qmem \<Rightarrow> qmem \<Rightarrow> bool" where
  "same_shape m m' \<longleftrightarrow>
     q_max_count (m_q m') = q_max_count (m_q m) \<and>
     q_qmonitor_tid (m_q m') = q_qmonitor_tid (m_q m)"

lemma enqueued_frame:
  "same_shape m (enqueued v a junk m)"
  "q_add_attempts (m_q (enqueued v a junk m)) = q_add_attempts (m_q m) + 1"
  "q_get_attempts (m_q (enqueued v a junk m)) = q_get_attempts (m_q m)"
  by (simp_all add: same_shape_def enqueued_def Let_def split: option.splits)

lemma queue_add_refines:
  assumes wf: "wfq m xs" and al: "alloc_fresh alloc" and ret: "queue_add alloc v m = Inr (r, m')"
  shows "(r, ys) = spec_add (q_max_count (m_q m)) xs v \<Longrightarrow> wfq m' ys"
    and "r = fst (spec_add (q_max_count (m_q m)) xs v)"
    and "same_shape m m'"
    and "q_add_attempts (m_q m') = q_add_attempts (m_q m) + 1"
    and "q_get_attempts (m_q m') = q_get_attempts (m_q m)"
proof -
  have att: "q_add_attempts (m_q m) < LONG_MAX"
    using queue_add_overflow [OF wf] ret wfq_attempts [OF wf] by fastforce
  have *: "r = fst (spec_add (q_max_count (m_q m)) xs v) \<and>
    wfq m' (snd (spec_add (q_max_count (m_q m)) xs v)) \<and> same_shape m m' \<and>
    q_add_attempts (m_q m') = q_add_attempts (m_q m) + 1 \<and>
    q_get_attempts (m_q m') = q_get_attempts (m_q m)"
  proof (cases "int (length xs) = q_max_count (m_q m)")
    case True
    with queue_add_full [OF wf att True] ret wfq_bump(1) [OF wf att] show ?thesis
      by (auto simp: spec_add_def same_shape_def)
  next
    case False
    then obtain a junk where a: "alloc (m_mallocs m) (m_heap m) = Some (a, junk)"
      using queue_add_oom [where alloc = alloc and v = v, OF wf att False] ret
      by (cases "alloc (m_mallocs m) (m_heap m)") auto
    then have fr: "m_heap m a = None" by (rule alloc_freshD [OF al])
    from wf obtain as where as: "wf_at m as xs" by (auto simp: wfq_def)
    then have room: "int (length as) \<noteq> q_max_count (m_q m)" using False by (auto simp: wf_at_def)
    have "queue_add alloc v m = Inr (1, enqueued v a junk m)"
      by (rule queue_add_room [where alloc = alloc, OF as att room a fr])
    with ret have eq: "r = 1" "m' = enqueued v a junk m" by simp_all
    have "wfq (enqueued v a junk m) (xs @ [v])"
      using enqueued_wf [OF as att room fr] unfolding wfq_def by blast
    with eq False enqueued_frame show ?thesis by (simp add: spec_add_def)
  qed
  then show "(r, ys) = spec_add (q_max_count (m_q m)) xs v \<Longrightarrow> wfq m' ys"
    by (metis snd_conv)
  from * show "r = fst (spec_add (q_max_count (m_q m)) xs v)" "same_shape m m'"
    "q_add_attempts (m_q m') = q_add_attempts (m_q m) + 1"
    "q_get_attempts (m_q m') = q_get_attempts (m_q m)" by auto
qed

lemma queue_add_faults:
  assumes wf: "wfq m xs" and al: "alloc_fresh alloc" and ret: "queue_add alloc v m = Inl e"
  shows "e = SignedOverflow \<and> q_add_attempts (m_q m) = LONG_MAX \<or>
         e = Abort ''Cannot allocate memory for new node'' \<and>
           int (length xs) < q_max_count (m_q m) \<and> alloc (m_mallocs m) (m_heap m) = None"
proof (cases "q_add_attempts (m_q m) = LONG_MAX")
  case True
  with queue_add_overflow [OF wf] ret show ?thesis by fastforce
next
  case False
  with wfq_attempts [OF wf] have att: "q_add_attempts (m_q m) < LONG_MAX" by auto
  with queue_add_full [OF wf att] ret have room: "int (length xs) \<noteq> q_max_count (m_q m)" by fastforce
  show ?thesis
  proof (cases "alloc (m_mallocs m) (m_heap m)")
    case None
    with queue_add_oom [where alloc = alloc and v = v, OF wf att room] wfq_capacity [OF wf] room ret show ?thesis by fastforce
  next
    case (Some p)
    obtain a junk where a: "alloc (m_mallocs m) (m_heap m) = Some (a, junk)"
      using Some by (cases p) auto
    from wf obtain as where as: "wf_at m as xs" by (auto simp: wfq_def)
    then have "int (length as) \<noteq> q_max_count (m_q m)" using room by (auto simp: wf_at_def)
    from queue_add_room [where alloc = alloc, OF as att this a alloc_freshD [OF al a]] ret show ?thesis by simp
  qed
qed

lemma queue_get_refines:
  assumes wf: "wfq m xs" and ret: "queue_get v0 m = Inr (r, v, m')"
  shows "(r, v, ys) = spec_get v0 xs \<Longrightarrow> wfq m' ys"
    and "(r, v) = (fst (spec_get v0 xs), fst (snd (spec_get v0 xs)))"
    and "same_shape m m'"
    and "q_get_attempts (m_q m') = q_get_attempts (m_q m) + 1"
    and "q_add_attempts (m_q m') = q_add_attempts (m_q m)"
proof -
  have att: "q_get_attempts (m_q m) < LONG_MAX"
    using queue_get_overflow [OF wf] ret wfq_attempts [OF wf] by fastforce
  have *: "(r, v) = (fst (spec_get v0 xs), fst (snd (spec_get v0 xs))) \<and>
    wfq m' (snd (snd (spec_get v0 xs))) \<and> same_shape m m' \<and>
    q_get_attempts (m_q m') = q_get_attempts (m_q m) + 1 \<and>
    q_add_attempts (m_q m') = q_add_attempts (m_q m)"
  proof (cases xs)
    case Nil
    with queue_get_empty wf att ret wfq_bump(2) [OF wf att] show ?thesis
      by (auto simp: same_shape_def)
  next
    case (Cons x rest)
    with wf obtain a as n where n: "wf_at m (a # as) (x # rest)" "m_heap m a = Some n" "n_val n = x"
      by (auto elim: wfq_ConsE)
    with queue_get_some [OF n(1) att n(2)] dequeued_wf [OF n(1) att n(2)] ret Cons show ?thesis
      by (auto simp: wfq_def same_shape_def dequeued_def)
  qed
  then show "(r, v, ys) = spec_get v0 xs \<Longrightarrow> wfq m' ys" by (metis snd_conv)
  from * show "(r, v) = (fst (spec_get v0 xs), fst (snd (spec_get v0 xs)))" "same_shape m m'"
    "q_get_attempts (m_q m') = q_get_attempts (m_q m) + 1"
    "q_add_attempts (m_q m') = q_add_attempts (m_q m)" by auto
qed

lemma queue_get_faults:
  assumes wf: "wfq m xs" and ret: "queue_get v0 m = Inl e"
  shows "e = SignedOverflow \<and> q_get_attempts (m_q m) = LONG_MAX"
proof (cases "q_get_attempts (m_q m) = LONG_MAX")
  case True
  with queue_get_overflow [OF wf] ret show ?thesis by fastforce
next
  case False
  with wfq_attempts [OF wf] have att: "q_get_attempts (m_q m) < LONG_MAX" by auto
  show ?thesis
  proof (cases xs)
    case Nil
    with queue_get_empty wf att ret show ?thesis by fastforce
  next
    case (Cons x rest)
    with wf obtain a as n where "wf_at m (a # as) (x # rest)" "m_heap m a = Some n"
      by (auto elim: wfq_ConsE)
    with queue_get_some att ret show ?thesis by fastforce
  qed
qed

lemma queue_add_spec:
  assumes "wfq m xs" and "alloc_fresh alloc" and "queue_add alloc v m = Inr (r, m')"
  shows "\<exists>ys. (r, ys) = spec_add (q_max_count (m_q m)) xs v \<and> wfq m' ys"
  using queue_add_refines(1,2) [OF assms] by (metis prod.collapse)

lemma queue_get_spec:
  assumes "wfq m xs" and "queue_get v0 m = Inr (r, v, m')"
  shows "\<exists>ys. (r, v, ys) = spec_get v0 xs \<and> wfq m' ys"
  using queue_get_refines(1,2) [OF assms] by (metis prod.collapse Pair_inject)

section \<open>queue_init and queue_destroy\<close>

definition fresh_mem :: "queue_t \<Rightarrow> qmem" where
  "fresh_mem q = \<lparr>m_q = q, m_heap = Map.empty, m_mallocs = 0\<rparr>"

lemma queue_init_wf:
  assumes "0 \<le> cap" and "cap \<le> INT_MAX" and "queue_init ok err tid cap = Inr q"
  shows "wfq (fresh_mem q) []" and "q_max_count q = cap"
    and "q_add_attempts q = 0" and "q_get_attempts q = 0"
  using assms
  by (auto simp: queue_init_def wfq_def wf_at_def wf_counts_def fresh_mem_def c_limits
           split: if_splits)

lemma destroy_loop_chain:
  "chain n_next (m_heap m) (q_first (m_q m)) as \<Longrightarrow>
   \<exists>m'. destroy_loop m = Some (Inr m') \<and> m_heap m' = (\<lambda>a. if a \<in> set as then None else m_heap m a)"
proof (induction as arbitrary: m)
  case Nil
  then show ?case by (simp add: destroy_loop.simps)
next
  case (Cons a as)
  then obtain n where n: "m_heap m a = Some n" and f: "q_first (m_q m) = Some a"
      and tail: "chain n_next (m_heap m) (n_next n) as"
    by auto
  have "a \<notin> set as" using chain_distinct [OF Cons.prems] by simp
  let ?m = "m\<lparr>m_q := (m_q m)\<lparr>q_first := n_next n\<rparr>, m_heap := (m_heap m)(a := None)\<rparr>"
  have "chain n_next (m_heap ?m) (q_first (m_q ?m)) as"
    using tail \<open>a \<notin> set as\<close> by simp
  from Cons.IH [OF this] obtain m' where "destroy_loop ?m = Some (Inr m')"
      and h: "m_heap m' = (\<lambda>b. if b \<in> set as then None else m_heap ?m b)" by blast
  moreover have "destroy_loop m = destroy_loop ?m"
    by (subst destroy_loop.simps) (simp add: f n)
  moreover have "m_heap m' = (\<lambda>b. if b \<in> set (a # as) then None else m_heap m b)"
    using h by (auto simp: fun_eq_iff)
  ultimately show ?case by auto
qed

lemma queue_destroy_frees_all:
  assumes "wfq m xs"
  shows "queue_destroy 0 m = Some (Inr Map.empty)"
proof -
  from assms obtain as where as: "chain n_next (m_heap m) (q_first (m_q m)) as"
      and d: "dom (m_heap m) = set as"
    by (auto simp: wfq_def wf_at_def)
  from destroy_loop_chain [OF as] obtain m' where "destroy_loop m = Some (Inr m')"
      and h: "m_heap m' = (\<lambda>a. if a \<in> set as then None else m_heap m a)" by blast
  moreover have "m_heap m' = Map.empty"
    using h d by (auto simp: fun_eq_iff)
  ultimately show ?thesis by (simp add: queue_destroy_def)
qed

lemma destroy_nodes_chain:
  "chain n_next h p as \<Longrightarrow>
   destroy_nodes p h = Some (Inr (\<lambda>a. if a \<in> set as then None else h a))"
proof (induction as arbitrary: p h)
  case Nil
  then show ?case by (simp add: destroy_nodes.simps)
next
  case (Cons a as)
  then obtain n where n: "h a = Some n" and p: "p = Some a" and tail: "chain n_next h (n_next n) as"
    by auto
  have "a \<notin> set as" using chain_distinct [OF Cons.prems] by simp
  with tail have "chain n_next (h(a := None)) (n_next n) as" by simp
  then have IH: "destroy_nodes (n_next n) (h(a := None)) =
      Some (Inr (\<lambda>b. if b \<in> set as then None else (h(a := None)) b))"
    by (rule Cons.IH)
  have eq: "(\<lambda>b. if b \<in> set as then None else (h(a := None)) b) =
        (\<lambda>b. if b \<in> set (a # as) then None else h b)"
    by (auto simp: fun_eq_iff)
  have "destroy_nodes (n_next n) (h(a := None)) =
      Some (Inr (\<lambda>b. if b \<in> set (a # as) then None else h b))"
    using IH unfolding eq .
  then show ?case
    by (subst destroy_nodes.simps) (simp only: p n deref.simps free.simps option.simps sum.case Let_def simp_thms if_True)
qed

lemma destroy_nodes_all:
  assumes "wfq m xs"
  shows "destroy_nodes (q_first (m_q m)) (m_heap m) = Some (Inr Map.empty)"
proof -
  from assms obtain as where as: "chain n_next (m_heap m) (q_first (m_q m)) as"
      and d: "dom (m_heap m) = set as"
    by (auto simp: wfq_def wf_at_def)
  have "(\<lambda>a. if a \<in> set as then None else m_heap m a) = Map.empty"
    using d by (auto simp: fun_eq_iff)
  with destroy_nodes_chain [OF as] show ?thesis by simp
qed

lemma wfq_stats:
  assumes "wfq m xs"
  shows "queue_print_stats (m_q m) =
    Inr [int (length xs), q_add_attempts (m_q m), q_get_attempts (m_q m),
         q_add_attempts (m_q m) - q_get_attempts (m_q m),
         q_add_count (m_q m), q_get_count (m_q m), int (length xs)]"
  using assms
  by (auto simp: wfq_def wf_at_def wf_counts_def queue_print_stats_def c_long_def c_limits)

text \<open>A queue of capacity 5 that holds 4 and 9, for the examples.\<close>

definition two_values :: qmem where
  "two_values =
     \<lparr>m_q = \<lparr>q_first = Some 0, q_last = Some 1, q_qmonitor_tid = 7, q_count = 2, q_max_count = 5,
             q_add_attempts = 3, q_get_attempts = 4, q_add_count = 2, q_get_count = 0\<rparr>,
      m_heap = [0 \<mapsto> \<lparr>n_val = 4, n_next = Some 1\<rparr>, 1 \<mapsto> \<lparr>n_val = 9, n_next = None\<rparr>],
      m_mallocs = 2\<rparr>"

lemma two_values_wf: "wfq two_values [4, 9]"
  unfolding wfq_def
  by (rule exI [of _ "[0, 1]"])
    (auto simp: two_values_def wf_at_def wf_counts_def vals_def c_limits)

text \<open>The counts of successful operations, on any memory.\<close>

lemma queue_add_counts:
  assumes "queue_add alloc v m = Inr (r, m')"
  shows "q_add_count (m_q m') = q_add_count (m_q m) + r"
    and "q_get_count (m_q m') = q_get_count (m_q m)"
  using assms by (auto simp: queue_add_def outcome_simps Let_def split: if_splits option.splits)

lemma queue_get_counts:
  assumes "queue_get v0 m = Inr (r, v, m')"
  shows "q_get_count (m_q m') = q_get_count (m_q m) + r"
    and "q_add_count (m_q m') = q_add_count (m_q m)"
  using assms by (auto simp: queue_get_def outcome_simps Let_def split: if_splits)

section \<open>What the operations promise\<close>

text \<open>
  Property C2. On a well-formed queue \<open>queue_add\<close> and \<open>queue_get\<close> return what the abstract
  bounded queue returns and leave its new contents; they fault only by overflow of their
  attempts counter or, for an addition that has room, by \<open>malloc\<close> returning NULL.
\<close>

theorem queue_core_refines:
  assumes "wfq m xs" and "alloc_fresh alloc"
  shows "(case queue_add alloc v m of
      Inr (r, m') \<Rightarrow> (\<exists>ys. (r, ys) = spec_add (q_max_count (m_q m)) xs v \<and> wfq m' ys)
    | Inl e \<Rightarrow> e = SignedOverflow \<and> q_add_attempts (m_q m) = LONG_MAX \<or>
               e = Abort ''Cannot allocate memory for new node'' \<and>
                 int (length xs) < q_max_count (m_q m) \<and> alloc (m_mallocs m) (m_heap m) = None) \<and>
    (case queue_get v0 m of
      Inr (r, w, m') \<Rightarrow> (\<exists>ys. (r, w, ys) = spec_get v0 xs \<and> wfq m' ys)
    | Inl e \<Rightarrow> e = SignedOverflow \<and> q_get_attempts (m_q m) = LONG_MAX)"
  using queue_add_spec [OF assms, of v] queue_add_faults [OF assms, of v]
    queue_get_spec [OF assms(1), of v0] queue_get_faults [OF assms(1), of v0]
  by (auto split: sum.splits)

lemma queue_core_refines_witness:
  "\<exists>m'. queue_get (-1) two_values = Inr (1, 4, m') \<and> wfq m' [9]"
proof -
  obtain m' where g: "queue_get (-1) two_values = Inr (1, 4, m')"
    by (simp add: two_values_def queue_get_def c_int_def c_long_def c_limits)
  with queue_core_refines [OF two_values_wf bump_alloc_fresh [of wit_node], of 0 "-1"]
  have "\<exists>ys. (1, 4, ys) = spec_get (-1) [4, 9] \<and> wfq m' ys" by simp
  with g show ?thesis by auto
qed

text \<open>
  Property C34. \<open>queue_destroy\<close> returns, frees every node exactly once and leaves nothing
  allocated; if the monitor thread cannot be joined the program exits with status 1 instead.
\<close>

theorem queue_destroyed:
  assumes "wfq m xs"
  shows "queue_destroy 0 m = Some (Inr Map.empty) \<and>
    (\<forall>e. e \<noteq> 0 \<longrightarrow> queue_destroy e m = Some (Inl (Exit 1)))"
  using queue_destroy_frees_all [OF assms] by (simp add: queue_destroy_def)

lemma queue_destroyed_witness:
  "queue_destroy 0 two_values = Some (Inr Map.empty) \<and> queue_destroy 3 two_values = Some (Inl (Exit 1))"
  using queue_destroyed [OF two_values_wf] by simp

end
