(* ===== verification/QueueCalls.thy ===== *)
theory QueueCalls
  imports QueueCore
begin

text \<open>
  Sequences of calls of \<open>queue_add\<close> and \<open>queue_get\<close> by one thread: the results, the statistics
  counters and the contents are those of the same calls on a list. Adding values and taking as
  many gives them back in order.
\<close>

section \<open>Sequences of calls\<close>

datatype qcall = Add int | Get

text \<open>The result of a call: what it returns, and the caller's variable afterwards.\<close>

fun queue_call :: "qnode allocator \<Rightarrow> qcall \<Rightarrow> int \<Rightarrow> qmem \<Rightarrow> fault + (int \<times> int) \<times> qmem" where
  "queue_call alloc (Add v) x m = bindr (queue_add alloc v m) (\<lambda>(r, m). Inr ((r, x), m))"
| "queue_call alloc Get x m = bindr (queue_get x m) (\<lambda>(r, y, m). Inr ((r, y), m))"

fun queue_calls :: "qnode allocator \<Rightarrow> qcall list \<Rightarrow> int \<Rightarrow> qmem \<Rightarrow> fault + (int \<times> int) list \<times> qmem" where
  "queue_calls alloc [] x m = Inr ([], m)"
| "queue_calls alloc (c # cs) x m =
     bindr (queue_call alloc c x m) (\<lambda>(r, m).
     bindr (queue_calls alloc cs (snd r) m) (\<lambda>(rs, m). Inr (r # rs, m)))"

fun spec_call :: "int \<Rightarrow> qcall \<Rightarrow> int \<Rightarrow> int list \<Rightarrow> (int \<times> int) \<times> int list" where
  "spec_call cap (Add v) x xs = (let (r, ys) = spec_add cap xs v in ((r, x), ys))"
| "spec_call cap Get x xs = (let (r, y, ys) = spec_get x xs in ((r, y), ys))"

fun spec_calls :: "int \<Rightarrow> qcall list \<Rightarrow> int \<Rightarrow> int list \<Rightarrow> (int \<times> int) list \<times> int list" where
  "spec_calls cap [] x xs = ([], xs)"
| "spec_calls cap (c # cs) x xs =
     (let (r, ys) = spec_call cap c x xs; (rs, zs) = spec_calls cap cs (snd r) ys in (r # rs, zs))"

text \<open>How many calls of each kind there are, and how many of them did something.\<close>

definition adds :: "qcall list \<Rightarrow> nat" where
  "adds cs = length (filter (\<lambda>c. c \<noteq> Get) cs)"

definition gets :: "qcall list \<Rightarrow> nat" where
  "gets cs = length (filter (\<lambda>c. c = Get) cs)"

lemma call_counts [simp]:
  "adds [] = 0" "adds (Add v # cs) = Suc (adds cs)" "adds (Get # cs) = adds cs"
  "gets [] = 0" "gets (Add v # cs) = gets cs" "gets (Get # cs) = Suc (gets cs)"
  by (simp_all add: adds_def gets_def)

lemma wfq_room:
  assumes "wfq m xs" and "int (length xs) < q_max_count (m_q m)" and "never_null (nat (q_max_count (m_q m))) alloc"
  shows "alloc (m_mallocs m) (m_heap m) \<noteq> None"
proof -
  from assms(1) obtain as where as: "wf_at m as xs" by (auto simp: wfq_def)
  then have "chain n_next (m_heap m) (q_first (m_q m)) as" "dom (m_heap m) = set as" "length as = length xs"
    by (auto simp: wf_at_def)
  moreover from this(1) have "distinct as" by (rule chain_distinct)
  ultimately have "finite (dom (m_heap m))" "card (dom (m_heap m)) = length xs"
    by (auto simp: distinct_card)
  with assms(2,3) show ?thesis by (simp add: never_null_def)
qed

text \<open>One call with memory and counters to spare: it returns, and what the abstract call returns.\<close>

lemma queue_call_spec:
  assumes wf: "wfq m xs" and al: "alloc_fresh alloc" "never_null (nat (q_max_count (m_q m))) alloc"
    and "q_add_attempts (m_q m) + int (adds [c]) \<le> LONG_MAX" and "q_get_attempts (m_q m) + int (gets [c]) \<le> LONG_MAX"
    and spec: "spec_call (q_max_count (m_q m)) c x xs = (r, ys)"
  shows "\<exists>m'. queue_call alloc c x m = Inr (r, m') \<and> wfq m' ys \<and> same_shape m m' \<and>
    q_add_attempts (m_q m') = q_add_attempts (m_q m) + int (adds [c]) \<and>
    q_get_attempts (m_q m') = q_get_attempts (m_q m) + int (gets [c])"
proof (cases c)
  case (Add v)
  obtain k m' where q: "queue_add alloc v m = Inr (k, m')"
  proof (cases "queue_add alloc v m")
    case (Inl e)
    from queue_add_faults [OF wf al(1) Inl] wfq_room [OF wf _ al(2)] assms(4) Add show thesis by auto
  qed (use that in auto)
  note ref = queue_add_refines [OF wf al(1) q]
  have "(k, ys) = spec_add (q_max_count (m_q m)) xs v" "r = (k, x)"
    using spec Add ref(2) by (auto split: prod.splits)
  with q ref Add show ?thesis by simp
next
  case Get
  obtain k y m' where q: "queue_get x m = Inr (k, y, m')"
  proof (cases "queue_get x m")
    case (Inl e)
    from queue_get_faults [OF wf Inl] assms(5) Get show thesis by auto
  qed (use that in auto)
  note ref = queue_get_refines [OF wf q]
  have "(k, y, ys) = spec_get x xs" "r = (k, y)"
    using spec Get ref(2) by (auto split: prod.splits)
  with q ref Get show ?thesis by simp
qed

lemma queue_calls_spec:
  assumes "wfq m xs" and "alloc_fresh alloc" and "never_null (nat (q_max_count (m_q m))) alloc"
    and "q_add_attempts (m_q m) + int (adds cs) \<le> LONG_MAX" and "q_get_attempts (m_q m) + int (gets cs) \<le> LONG_MAX"
    and "spec_calls (q_max_count (m_q m)) cs x xs = (rs, ys)"
  shows "\<exists>m'. queue_calls alloc cs x m = Inr (rs, m') \<and> wfq m' ys \<and> same_shape m m' \<and>
    q_add_attempts (m_q m') = q_add_attempts (m_q m) + int (adds cs) \<and>
    q_get_attempts (m_q m') = q_get_attempts (m_q m) + int (gets cs)"
  using assms
proof (induction cs arbitrary: m x xs rs)
  case Nil
  then show ?case by (simp add: same_shape_def)
next
  case (Cons c cs)
  let ?cap = "q_max_count (m_q m)"
  obtain r zs where c: "spec_call ?cap c x xs = (r, zs)" by (metis surj_pair)
  obtain qs where cs: "spec_calls ?cap cs (snd r) zs = (qs, ys)" "rs = r # qs"
    using Cons.prems(6) c by (auto split: prod.splits)
  have counts: "adds (c # cs) = adds [c] + adds cs" "gets (c # cs) = gets [c] + gets cs" by (cases c; simp)+
  obtain m1 where m1: "queue_call alloc c x m = Inr (r, m1)" "wfq m1 zs" "same_shape m m1"
      "q_add_attempts (m_q m1) = q_add_attempts (m_q m) + int (adds [c])"
      "q_get_attempts (m_q m1) = q_get_attempts (m_q m) + int (gets [c])"
    using queue_call_spec [OF Cons.prems(1-3) _ _ c] Cons.prems(4,5) counts by auto
  have cap: "q_max_count (m_q m1) = ?cap" using m1(3) by (simp add: same_shape_def)
  have "\<exists>m'. queue_calls alloc cs (snd r) m1 = Inr (qs, m') \<and> wfq m' ys \<and> same_shape m1 m' \<and>
      q_add_attempts (m_q m') = q_add_attempts (m_q m1) + int (adds cs) \<and>
      q_get_attempts (m_q m') = q_get_attempts (m_q m1) + int (gets cs)"
    by (rule Cons.IH [OF m1(2) Cons.prems(2)]) (use Cons.prems(3-5) m1(4,5) counts cs(1) cap in simp_all)
  then obtain m' where "queue_calls alloc cs (snd r) m1 = Inr (qs, m')" "wfq m' ys" "same_shape m1 m'"
      "q_add_attempts (m_q m') = q_add_attempts (m_q m1) + int (adds cs)"
      "q_get_attempts (m_q m') = q_get_attempts (m_q m1) + int (gets cs)" by blast
  with m1 cs(2) counts show ?case by (auto simp: same_shape_def)
qed

section \<open>Adding and taking\<close>

lemma spec_adds:
  "int (length (xs @ vs)) \<le> cap \<Longrightarrow>
     spec_calls cap (map Add vs @ cs) x xs =
       (let (rs, ys) = spec_calls cap cs x (xs @ vs) in (map (\<lambda>_. (1, x)) vs @ rs, ys))"
  by (induction vs arbitrary: xs) (auto simp: spec_add_def split_beta)

lemma spec_gets: "spec_calls cap (replicate (length vs) Get) x (vs @ ys) = (map (Pair 1) vs, ys)"
  by (induction vs arbitrary: x) simp_all

lemma adds_gets [simp]:
  "adds (map Add vs @ replicate k Get) = length vs" "gets (map Add vs @ replicate k Get) = k"
proof -
  have "adds (replicate k Get) = 0" "gets (replicate k Get) = k" by (induction k) simp_all
  then show "adds (map Add vs @ replicate k Get) = length vs" "gets (map Add vs @ replicate k Get) = k"
    by (induction vs) simp_all
qed

text \<open>
  Property C14. Round trip: when the queue has room for the values \<open>vs\<close> and there is memory,
  adding them and then taking as many values as the queue holds succeeds with every call; the
  values come back in order, after those that were in the queue before, the queue is
  empty, and the statistics have counted every call.
\<close>

theorem queue_roundtrip:
  assumes "wfq m xs" and "alloc_fresh alloc" and "never_null (nat (q_max_count (m_q m))) alloc"
    and "int (length (xs @ vs)) \<le> q_max_count (m_q m)"
    and "q_add_attempts (m_q m) + int (length vs) \<le> LONG_MAX"
    and "q_get_attempts (m_q m) + int (length (xs @ vs)) \<le> LONG_MAX"
  shows "\<exists>m'. queue_calls alloc (map Add vs @ replicate (length (xs @ vs)) Get) x m =
      Inr (map (\<lambda>_. (1, x)) vs @ map (Pair 1) (xs @ vs), m') \<and>
    wfq m' [] \<and> m_heap m' = Map.empty \<and>
    queue_print_stats (m_q m') =
      Inr [0, q_add_attempts (m_q m) + int (length vs), q_get_attempts (m_q m) + int (length (xs @ vs)),
        q_add_attempts (m_q m) - q_get_attempts (m_q m) - int (length xs),
        q_add_count (m_q m'), q_get_count (m_q m'), 0]"
proof -
  let ?cs = "map Add vs @ replicate (length (xs @ vs)) Get"
  have "spec_calls (q_max_count (m_q m)) ?cs x xs = (map (\<lambda>_. (1, x)) vs @ map (Pair 1) (xs @ vs), [])"
    using spec_gets [of _ "xs @ vs" x "[]"] unfolding spec_adds [OF assms(4)] by simp
  from queue_calls_spec [OF assms(1-3) _ _ this] assms(5,6) obtain m' where m':
    "queue_calls alloc ?cs x m = Inr (map (\<lambda>_. (1, x)) vs @ map (Pair 1) (xs @ vs), m')" "wfq m' []"
    "q_add_attempts (m_q m') = q_add_attempts (m_q m) + int (length vs)"
    "q_get_attempts (m_q m') = q_get_attempts (m_q m) + int (length (xs @ vs))"
    unfolding adds_gets by blast
  moreover have "m_heap m' = Map.empty"
  proof -
    from m'(2) obtain as where "vals (m_heap m') as = []" "dom (m_heap m') = set as" by (auto simp: wfq_def wf_at_def)
    then show ?thesis by (cases as) (simp_all add: vals_Cons)
  qed
  ultimately show ?thesis using wfq_stats [OF m'(2)] by simp
qed

text \<open>Three values through a queue that holds two already.\<close>

lemma queue_roundtrip_witness:
  "\<exists>m'. queue_calls (first_fit 5 wit_node) (map Add [7, -3, 8] @ replicate 5 Get) 0 two_values =
     Inr ([(1, 0), (1, 0), (1, 0), (1, 4), (1, 9), (1, 7), (1, -3), (1, 8)], m') \<and> m_heap m' = Map.empty"
proof -
  have "q_max_count (m_q two_values) = 5" "q_add_attempts (m_q two_values) = 3" "q_get_attempts (m_q two_values) = 4"
    by (simp_all add: two_values_def)
  then have "never_null (nat (q_max_count (m_q two_values))) (first_fit 5 wit_node)"
      "int (length ([4, 9] @ [7, -3, 8 :: int])) \<le> q_max_count (m_q two_values)"
      "q_add_attempts (m_q two_values) + int (length [7, -3, 8 :: int]) \<le> LONG_MAX"
      "q_get_attempts (m_q two_values) + int (length ([4, 9] @ [7, -3, 8 :: int])) \<le> LONG_MAX"
    by (simp_all add: first_fit_never_null c_limits)
  from queue_roundtrip [OF two_values_wf first_fit_fresh this, of 0] obtain m' where
    "queue_calls (first_fit 5 wit_node) (map Add [7, -3, 8] @ replicate (length ([4, 9] @ [7, -3, 8 :: int])) Get) 0 two_values =
      Inr (map (\<lambda>_. (1, 0)) [7, -3, 8 :: int] @ map (Pair 1) ([4, 9] @ [7, -3, 8]), m')" "m_heap m' = Map.empty" by blast
  moreover have "replicate (length ([4, 9] @ [7, -3, 8 :: int])) Get = replicate 5 Get" by (simp add: eval_nat_numeral)
  moreover have "map (\<lambda>_. (1, 0 :: int)) [7, -3, 8 :: int] @ map (Pair 1) ([4, 9] @ [7, -3, 8]) =
      [(1 :: int, 0), (1, 0), (1, 0), (1, 4), (1, 9), (1, 7), (1, -3), (1, 8)]" by simp
  ultimately show ?thesis by metis
qed

end
