(* ===== verification/QueueSteps.thy ===== *)
theory QueueSteps
  imports QueueCore
begin

text \<open>
  The bodies of \<open>queue_add\<close> and \<open>queue_get\<close> once more, now as machines that perform one
  access to shared memory per step, so that other threads can run in between: an increment
  of a field is a load and a store, \<open>q->first = q->last = new\<close> is two stores. The same
  statements, in the same order, stand in every variant of the queue
  (\<^verbatim>\<open>lab2/1\<close> and \<^verbatim>\<open>lab2/2\<close>), between whatever the variant does to enter and to leave.
  Running a body from its first to its last step without interruption is \<open>queue_add\<close> and
  \<open>queue_get\<close> of \<open>QueueCore\<close>.
\<close>

section \<open>queue_add\<close>

datatype add_pc =
    Add_ld_attempts
  | Add_st_attempts int
  | Add_assert
  | Add_full
  | Add_malloc
  | Add_val addr
  | Add_next addr
  | Add_empty addr
  | Add_set_last addr
  | Add_set_first addr
  | Add_link addr
  | Add_advance
  | Add_ld_count
  | Add_st_count int
  | Add_ld_added
  | Add_st_added int
  | Add_ret int

fun add_step :: "qnode allocator \<Rightarrow> int \<Rightarrow> add_pc \<Rightarrow> qmem \<Rightarrow> fault + (add_pc \<times> qmem)" where
  "add_step alloc v Add_ld_attempts m = Inr (Add_st_attempts (q_add_attempts (m_q m)), m)"
| "add_step alloc v (Add_st_attempts r) m =
     bindr (c_long (r + 1)) (\<lambda>x. Inr (Add_assert, m\<lparr>m_q := (m_q m)\<lparr>q_add_attempts := x\<rparr>\<rparr>))"
| "add_step alloc v Add_assert m =
     (if q_count (m_q m) \<le> q_max_count (m_q m) then Inr (Add_full, m) else Inl AssertFail)"
| "add_step alloc v Add_full m =
     (if q_count (m_q m) = q_max_count (m_q m) then Inr (Add_ret 0, m) else Inr (Add_malloc, m))"
| "add_step alloc v Add_malloc m =
     (case alloc (m_mallocs m) (m_heap m) of
        None \<Rightarrow> Inl (Abort ''Cannot allocate memory for new node'')
      | Some (new, junk) \<Rightarrow>
          Inr (Add_val new, m\<lparr>m_heap := (m_heap m)(new \<mapsto> junk), m_mallocs := Suc (m_mallocs m)\<rparr>))"
| "add_step alloc v (Add_val new) m =
     bindr (store (m_heap m) (Some new) (\<lambda>n. n\<lparr>n_val := v\<rparr>)) (\<lambda>h.
     Inr (Add_next new, m\<lparr>m_heap := h\<rparr>))"
| "add_step alloc v (Add_next new) m =
     bindr (store (m_heap m) (Some new) (\<lambda>n. n\<lparr>n_next := None\<rparr>)) (\<lambda>h.
     Inr (Add_empty new, m\<lparr>m_heap := h\<rparr>))"
| "add_step alloc v (Add_empty new) m =
     Inr (if q_first (m_q m) = None then Add_set_last new else Add_link new, m)"
| "add_step alloc v (Add_set_last new) m =
     Inr (Add_set_first new, m\<lparr>m_q := (m_q m)\<lparr>q_last := Some new\<rparr>\<rparr>)"
| "add_step alloc v (Add_set_first new) m =
     Inr (Add_ld_count, m\<lparr>m_q := (m_q m)\<lparr>q_first := Some new\<rparr>\<rparr>)"
| "add_step alloc v (Add_link new) m =
     bindr (store (m_heap m) (q_last (m_q m)) (\<lambda>n. n\<lparr>n_next := Some new\<rparr>)) (\<lambda>h.
     Inr (Add_advance, m\<lparr>m_heap := h\<rparr>))"
| "add_step alloc v Add_advance m =
     bindr (deref (m_heap m) (q_last (m_q m))) (\<lambda>n.
     Inr (Add_ld_count, m\<lparr>m_q := (m_q m)\<lparr>q_last := n_next n\<rparr>\<rparr>))"
| "add_step alloc v Add_ld_count m = Inr (Add_st_count (q_count (m_q m)), m)"
| "add_step alloc v (Add_st_count r) m =
     bindr (c_int (r + 1)) (\<lambda>x. Inr (Add_ld_added, m\<lparr>m_q := (m_q m)\<lparr>q_count := x\<rparr>\<rparr>))"
| "add_step alloc v Add_ld_added m = Inr (Add_st_added (q_add_count (m_q m)), m)"
| "add_step alloc v (Add_st_added r) m =
     bindr (c_long (r + 1)) (\<lambda>x. Inr (Add_ret 1, m\<lparr>m_q := (m_q m)\<lparr>q_add_count := x\<rparr>\<rparr>))"
| "add_step alloc v (Add_ret r) m = Inr (Add_ret r, m)"

fun add_rank :: "add_pc \<Rightarrow> nat" where
  "add_rank Add_ld_attempts = 15" | "add_rank (Add_st_attempts _) = 14"
| "add_rank Add_assert = 13" | "add_rank Add_full = 12" | "add_rank Add_malloc = 11"
| "add_rank (Add_val _) = 10" | "add_rank (Add_next _) = 9" | "add_rank (Add_empty _) = 8"
| "add_rank (Add_set_last _) = 7" | "add_rank (Add_set_first _) = 6"
| "add_rank (Add_link _) = 7" | "add_rank Add_advance = 6"
| "add_rank Add_ld_count = 5" | "add_rank (Add_st_count _) = 4"
| "add_rank Add_ld_added = 3" | "add_rank (Add_st_added _) = 2" | "add_rank (Add_ret _) = 0"

fun add_ret :: "add_pc \<Rightarrow> int option" where
  "add_ret (Add_ret r) = Some r"
| "add_ret _ = None"

lemma add_step_rank:
  "add_step alloc v pc m = Inr (pc', m') \<Longrightarrow> add_ret pc = None \<Longrightarrow> add_rank pc' < add_rank pc"
  by (cases pc) (auto simp: outcome_simps split: if_splits option.splits)

text \<open>The rest of the body, run without interruption.\<close>

function add_run :: "qnode allocator \<Rightarrow> int \<Rightarrow> add_pc \<Rightarrow> qmem \<Rightarrow> fault + (int \<times> qmem)" where
  "add_run alloc v pc m =
     (case add_ret pc of
        Some r \<Rightarrow> Inr (r, m)
      | None \<Rightarrow> bindr (add_step alloc v pc m) (\<lambda>(pc', m'). add_run alloc v pc' m'))"
  by pat_completeness auto
termination
  by (relation "measure (\<lambda>(alloc, v, pc, m). add_rank pc)") (auto dest: add_step_rank)

declare add_run.simps [simp del]

lemma add_run_ret [simp]: "add_run alloc v (Add_ret r) m = Inr (r, m)"
  by (simp add: add_run.simps)

lemma add_run_step:
  "add_ret pc = None \<Longrightarrow>
   add_run alloc v pc m = bindr (add_step alloc v pc m) (\<lambda>(pc', m'). add_run alloc v pc' m')"
  by (simp add: add_run.simps [of alloc v pc m])

text \<open>A step of the body does not change what the rest of the body will do.\<close>

lemma add_run_unchanged:
  "add_step alloc v pc m = Inr (pc', m') \<Longrightarrow> add_run alloc v pc' m' = add_run alloc v pc m"
  by (cases "add_ret pc") (auto simp: add_run_step elim: add_ret.elims)

lemma add_run_fault:
  "add_step alloc v pc m = Inl e \<Longrightarrow> add_run alloc v pc m = Inl e"
  by (cases "add_ret pc") (auto simp: add_run_step elim: add_ret.elims)

lemmas add_run_unfold =
  add_run_step [of Add_ld_attempts] add_run_step [of "Add_st_attempts r" for r]
  add_run_step [of Add_assert] add_run_step [of Add_full] add_run_step [of Add_malloc]
  add_run_step [of "Add_val a" for a] add_run_step [of "Add_next a" for a]
  add_run_step [of "Add_empty a" for a] add_run_step [of "Add_set_last a" for a]
  add_run_step [of "Add_set_first a" for a] add_run_step [of "Add_link a" for a]
  add_run_step [of Add_advance] add_run_step [of Add_ld_count]
  add_run_step [of "Add_st_count r" for r] add_run_step [of Add_ld_added]
  add_run_step [of "Add_st_added r" for r]

lemma add_run_tail:
  "add_run alloc v Add_ld_count m =
     bindr (c_int (q_count (m_q m) + 1)) (\<lambda>c.
     bindr (c_long (q_add_count (m_q m) + 1)) (\<lambda>ac.
     Inr (1, m\<lparr>m_q := (m_q m)\<lparr>q_count := c, q_add_count := ac\<rparr>\<rparr>)))"
  by (simp add: add_run_unfold)

lemma add_run_insert:
  "add_run alloc v (Add_empty new) m =
     bindr
       (if q_first (m_q m) = None
        then Inr (m\<lparr>m_q := (m_q m)\<lparr>q_last := Some new, q_first := Some new\<rparr>\<rparr>)
        else bindr (store (m_heap m) (q_last (m_q m)) (\<lambda>n. n\<lparr>n_next := Some new\<rparr>)) (\<lambda>h.
             bindr (deref h (q_last (m_q m))) (\<lambda>n.
             Inr (m\<lparr>m_heap := h, m_q := (m_q m)\<lparr>q_last := n_next n\<rparr>\<rparr>))))
       (\<lambda>m. add_run alloc v Add_ld_count m)"
  by (simp add: add_run_unfold(8-12))

lemma add_run_queue_add: "add_run alloc v Add_ld_attempts m = queue_add alloc v m"
  unfolding queue_add_def
  by (cases "c_long (q_add_attempts (m_q m) + 1)"; cases "q_first (m_q m)")
    (simp_all add: add_run_unfold(1-7) Let_def not_le add_run_insert add_run_tail
        split: option.split prod.split)

section \<open>queue_get\<close>

text \<open>
  The argument \<open>v0\<close> is the value of the caller's variable that \<open>val\<close> points to; once it has been
  assigned, its value travels in the program counter.
\<close>

datatype get_pc =
    Get_ld_attempts
  | Get_st_attempts int
  | Get_assert
  | Get_empty
  | Get_tmp
  | Get_val ptr
  | Get_ld_first ptr int
  | Get_first ptr int ptr
  | Get_free ptr int
  | Get_ld_count int
  | Get_st_count int int
  | Get_ld_got int
  | Get_st_got int int
  | Get_ret int int

fun get_step :: "int \<Rightarrow> get_pc \<Rightarrow> qmem \<Rightarrow> fault + (get_pc \<times> qmem)" where
  "get_step v0 Get_ld_attempts m = Inr (Get_st_attempts (q_get_attempts (m_q m)), m)"
| "get_step v0 (Get_st_attempts r) m =
     bindr (c_long (r + 1)) (\<lambda>x. Inr (Get_assert, m\<lparr>m_q := (m_q m)\<lparr>q_get_attempts := x\<rparr>\<rparr>))"
| "get_step v0 Get_assert m =
     (if 0 \<le> q_count (m_q m) then Inr (Get_empty, m) else Inl AssertFail)"
| "get_step v0 Get_empty m =
     (if q_count (m_q m) = 0 then Inr (Get_ret 0 v0, m) else Inr (Get_tmp, m))"
| "get_step v0 Get_tmp m = Inr (Get_val (q_first (m_q m)), m)"
| "get_step v0 (Get_val tmp) m =
     bindr (deref (m_heap m) tmp) (\<lambda>n. Inr (Get_ld_first tmp (n_val n), m))"
| "get_step v0 (Get_ld_first tmp v) m = Inr (Get_first tmp v (q_first (m_q m)), m)"
| "get_step v0 (Get_first tmp v f) m =
     bindr (deref (m_heap m) f) (\<lambda>n.
     Inr (Get_free tmp v, m\<lparr>m_q := (m_q m)\<lparr>q_first := n_next n\<rparr>\<rparr>))"
| "get_step v0 (Get_free tmp v) m =
     bindr (free (m_heap m) tmp) (\<lambda>h. Inr (Get_ld_count v, m\<lparr>m_heap := h\<rparr>))"
| "get_step v0 (Get_ld_count v) m = Inr (Get_st_count v (q_count (m_q m)), m)"
| "get_step v0 (Get_st_count v r) m =
     bindr (c_int (r - 1)) (\<lambda>x. Inr (Get_ld_got v, m\<lparr>m_q := (m_q m)\<lparr>q_count := x\<rparr>\<rparr>))"
| "get_step v0 (Get_ld_got v) m = Inr (Get_st_got v (q_get_count (m_q m)), m)"
| "get_step v0 (Get_st_got v r) m =
     bindr (c_long (r + 1)) (\<lambda>x. Inr (Get_ret 1 v, m\<lparr>m_q := (m_q m)\<lparr>q_get_count := x\<rparr>\<rparr>))"
| "get_step v0 (Get_ret r v) m = Inr (Get_ret r v, m)"

fun get_rank :: "get_pc \<Rightarrow> nat" where
  "get_rank Get_ld_attempts = 14" | "get_rank (Get_st_attempts _) = 13"
| "get_rank Get_assert = 12" | "get_rank Get_empty = 11" | "get_rank Get_tmp = 10"
| "get_rank (Get_val _) = 9" | "get_rank (Get_ld_first _ _) = 8" | "get_rank (Get_first _ _ _) = 7"
| "get_rank (Get_free _ _) = 6"
| "get_rank (Get_ld_count _) = 5" | "get_rank (Get_st_count _ _) = 4"
| "get_rank (Get_ld_got _) = 3" | "get_rank (Get_st_got _ _) = 2" | "get_rank (Get_ret _ _) = 0"

fun get_ret :: "get_pc \<Rightarrow> (int \<times> int) option" where
  "get_ret (Get_ret r v) = Some (r, v)"
| "get_ret _ = None"

lemma get_step_rank:
  "get_step v0 pc m = Inr (pc', m') \<Longrightarrow> get_ret pc = None \<Longrightarrow> get_rank pc' < get_rank pc"
  by (cases pc) (auto simp: outcome_simps split: if_splits)

function get_run :: "int \<Rightarrow> get_pc \<Rightarrow> qmem \<Rightarrow> fault + (int \<times> int \<times> qmem)" where
  "get_run v0 pc m =
     (case get_ret pc of
        Some (r, v) \<Rightarrow> Inr (r, v, m)
      | None \<Rightarrow> bindr (get_step v0 pc m) (\<lambda>(pc', m'). get_run v0 pc' m'))"
  by pat_completeness auto
termination
  by (relation "measure (\<lambda>(v0, pc, m). get_rank pc)") (auto dest: get_step_rank)

declare get_run.simps [simp del]

lemma get_run_ret [simp]: "get_run v0 (Get_ret r v) m = Inr (r, v, m)"
  by (simp add: get_run.simps)

lemma get_run_step:
  "get_ret pc = None \<Longrightarrow>
   get_run v0 pc m = bindr (get_step v0 pc m) (\<lambda>(pc', m'). get_run v0 pc' m')"
  by (simp add: get_run.simps [of v0 pc m])

lemma get_run_unchanged:
  "get_step v0 pc m = Inr (pc', m') \<Longrightarrow> get_run v0 pc' m' = get_run v0 pc m"
  by (cases "get_ret pc") (auto simp: get_run_step elim: get_ret.elims)

lemma get_run_fault:
  "get_step v0 pc m = Inl e \<Longrightarrow> get_run v0 pc m = Inl e"
  by (cases "get_ret pc") (auto simp: get_run_step elim: get_ret.elims)

lemmas get_run_unfold =
  get_run_step [of Get_ld_attempts] get_run_step [of "Get_st_attempts r" for r]
  get_run_step [of Get_assert] get_run_step [of Get_empty] get_run_step [of Get_tmp]
  get_run_step [of "Get_val p" for p] get_run_step [of "Get_ld_first p v" for p v]
  get_run_step [of "Get_first p v f" for p v f] get_run_step [of "Get_free p v" for p v]
  get_run_step [of "Get_ld_count v" for v] get_run_step [of "Get_st_count v r" for v r]
  get_run_step [of "Get_ld_got v" for v] get_run_step [of "Get_st_got v r" for v r]

lemma get_run_queue_get: "get_run v0 Get_ld_attempts m = queue_get v0 m"
  unfolding queue_get_def
  by (cases "c_long (q_get_attempts (m_q m) + 1)")
    (simp_all add: get_run_unfold Let_def not_le)

text \<open>
  The stepwise bodies, run without interruption, compute exactly the functions
  \<open>queue_add\<close> and \<open>queue_get\<close>, on every memory and with every outcome.
\<close>

theorem bodies_equivalent:
  "add_run alloc v Add_ld_attempts m = queue_add alloc v m \<and>
   get_run v0 Get_ld_attempts m = queue_get v0 m"
  by (simp add: add_run_queue_add get_run_queue_get)

end
