(* ===== verification/Threads.thy ===== *)
theory Threads
  imports QueueSteps
begin

text \<open>
  The reader and writer threads of \<^verbatim>\<open>queue-threads.c\<close> over a queue whose operations are
  bracketed by a synchronisation protocol. The protocol is a record of functions: how a
  thread starts an operation, which internal steps it makes while it enters and leaves
  (compare-and-swap, futex and semaphore calls, condition waits), and in which phase each
  thread is. The locale \<open>sync_protocol\<close> states what a protocol promises; inside it the
  two threads are proved to hand every value over exactly once and in order. Each queue
  variant is an interpretation.
\<close>

section \<open>Synchronisation protocols\<close>

datatype phase = Outside | Entering | Inside | Leaving

datatype kind = AddOp | GetOp

record ('y, 't, 'e) proto =
  p_phase :: "'y \<Rightarrow> 't \<Rightarrow> phase"
  p_call :: "'y \<Rightarrow> 't \<Rightarrow> kind \<Rightarrow> 'y"
  p_leave :: "'y \<Rightarrow> 't \<Rightarrow> 'y"
  p_step :: "'y \<Rightarrow> 'e \<Rightarrow> fault + 'y"

text \<open>
  A thread that calls an operation goes from \<open>Outside\<close> to \<open>Entering\<close>; when it finishes the
  body it goes from \<open>Inside\<close> to \<open>Leaving\<close>. The other two moves are the protocol's own.
\<close>

locale sync_protocol =
  fixes P :: "('y, 't, 'e) proto"
    and pinv :: "'y \<Rightarrow> bool"
  assumes call_inv: "pinv y \<Longrightarrow> p_phase P y t = Outside \<Longrightarrow> pinv (p_call P y t k)"
    and call_phase: "pinv y \<Longrightarrow> p_phase P y t = Outside \<Longrightarrow>
          p_phase P (p_call P y t k) u = (if u = t then Entering else p_phase P y u)"
    and leave_inv: "pinv y \<Longrightarrow> p_phase P y t = Inside \<Longrightarrow> pinv (p_leave P y t)"
    and leave_phase: "pinv y \<Longrightarrow> p_phase P y t = Inside \<Longrightarrow>
          p_phase P (p_leave P y t) u = (if u = t then Leaving else p_phase P y u)"
    and step_inv: "pinv y \<Longrightarrow> p_step P y e = Inr y' \<Longrightarrow> pinv y'"
    and step_phase: "pinv y \<Longrightarrow> p_step P y e = Inr y' \<Longrightarrow>
          p_phase P y' t = p_phase P y t \<or>
          p_phase P y t = Entering \<and> p_phase P y' t = Inside \<or>
          p_phase P y t = Leaving \<and> p_phase P y' t = Outside"
    and exclusion: "pinv y \<Longrightarrow> p_phase P y t = Inside \<Longrightarrow> p_phase P y u = Inside \<Longrightarrow> t = u"
    and step_abort: "pinv y \<Longrightarrow> p_step P y e = Inl f \<Longrightarrow> \<exists>msg. f = Abort msg"

subsection \<open>Any number of threads\<close>

text \<open>
  A protocol driven by arbitrary clients: a thread outside may call an operation, a thread
  inside may leave at any moment, and the protocol makes its own steps in between.
\<close>

datatype ('t, 'e) drive_event = Call 't kind | Leave 't | Own 'e

fun drive :: "('y, 't, 'e) proto \<Rightarrow> 'y \<Rightarrow> ('t, 'e) drive_event \<Rightarrow> fault + 'y" where
  "drive P y (Call t k) = Inr (if p_phase P y t = Outside then p_call P y t k else y)"
| "drive P y (Leave t) = Inr (if p_phase P y t = Inside then p_leave P y t else y)"
| "drive P y (Own e) = p_step P y e"

sublocale sync_protocol \<subseteq> driven: invariant_of "drive P" pinv pinv
proof
  fix y y' ev
  show "pinv y \<Longrightarrow> drive P y ev = Inr y' \<Longrightarrow> pinv y'"
    by (cases ev) (auto intro: call_inv leave_inv step_inv split: if_splits)
qed

context sync_protocol
begin

lemma drive_exclusion:
  "reach (drive P) y0 y \<Longrightarrow> pinv y0 \<Longrightarrow> p_phase P y t = Inside \<Longrightarrow> p_phase P y u = Inside \<Longrightarrow> t = u"
  by (blast intro: exclusion driven.reach_good)

end

subsection \<open>Phases and a lock that one thread holds\<close>

text \<open>
  The protocols are built from a lock; \<open>lock_agrees avail ph\<close> says that the lock is free
  exactly when no thread is between its lock and its unlock operation, and that at most one
  thread is.
\<close>

fun holding :: "phase \<Rightarrow> bool" where
  "holding Inside = True"
| "holding Leaving = True"
| "holding _ = False"

definition lock_agrees :: "bool \<Rightarrow> ('t \<Rightarrow> phase) \<Rightarrow> bool" where
  "lock_agrees avail ph \<longleftrightarrow>
     (if avail then \<forall>t. \<not> holding (ph t)
      else \<exists>t. holding (ph t) \<and> (\<forall>u. holding (ph u) \<longrightarrow> u = t))"

lemma lock_agrees_start: "lock_agrees True (\<lambda>_. Outside)"
  by (simp add: lock_agrees_def)

lemma lock_agrees_same:
  assumes "lock_agrees avail ph" and "holding p = holding (ph t)"
  shows "lock_agrees avail (ph(t := p))"
proof -
  have "holding ((ph(t := p)) u) = holding (ph u)" for u using assms(2) by simp
  with assms(1) show ?thesis by (simp add: lock_agrees_def del: fun_upd_apply)
qed

lemma lock_agrees_acquire: "lock_agrees True ph \<Longrightarrow> holding p \<Longrightarrow> lock_agrees False (ph(t := p))"
  by (auto simp: lock_agrees_def)

lemma lock_agrees_release:
  "lock_agrees avail ph \<Longrightarrow> holding (ph t) \<Longrightarrow> \<not> holding p \<Longrightarrow> lock_agrees True (ph(t := p))"
  by (auto simp: lock_agrees_def split: if_splits)

lemma lock_agrees_enter: "lock_agrees True ph \<Longrightarrow> lock_agrees False (ph(t := Inside))"
  by (simp add: lock_agrees_acquire)

lemma lock_agrees_exit:
  "lock_agrees avail ph \<Longrightarrow> ph t = Leaving \<Longrightarrow> lock_agrees True (ph(t := Outside))"
  by (rule lock_agrees_release) auto

lemma lock_agrees_unique:
  "lock_agrees avail ph \<Longrightarrow> holding (ph t) \<Longrightarrow> holding (ph u) \<Longrightarrow> t = u"
  by (auto simp: lock_agrees_def split: if_splits)

lemma lock_agrees_free: "lock_agrees avail ph \<Longrightarrow> holding (ph t) \<Longrightarrow> \<not> avail"
  by (auto simp: lock_agrees_def split: if_splits)

lemma lock_agrees_holder: "lock_agrees False ph \<Longrightarrow> \<exists>t. holding (ph t)"
  by (auto simp: lock_agrees_def)

section \<open>The threads\<close>

datatype role = Reader | Writer

lemma all_roles: "(\<forall>r. Q r) \<longleftrightarrow> Q Reader \<and> Q Writer"
  by (metis role.exhaust)

fun op_of :: "role \<Rightarrow> kind" where
  "op_of Reader = GetOp"
| "op_of Writer = AddOp"

datatype reader_pc =
    R_call
  | R_enter
  | R_body get_pc
  | R_exit int int
  | R_test int int

datatype writer_pc =
    W_call
  | W_enter
  | W_body add_pc
  | W_exit int
  | W_test int

text \<open>
  \<open>t_expected\<close> and \<open>t_i\<close> are the local variables of the reader and of the writer;
  \<open>t_errors\<close> collects the pairs (value, expected value) of the printed ERROR lines.
\<close>

record 'y threads =
  t_sync :: 'y
  t_mem :: qmem
  t_expected :: int
  t_rpc :: reader_pc
  t_i :: int
  t_wpc :: writer_pc
  t_errors :: "(int \<times> int) list"

datatype 'e event = Run role | Sync 'e

fun reader_step :: "('y, role, 'e) proto \<Rightarrow> reader_pc \<Rightarrow> 'y threads \<Rightarrow> fault + 'y threads" where
  "reader_step P R_call s =
     Inr (s\<lparr>t_sync := p_call P (t_sync s) Reader GetOp, t_rpc := R_enter\<rparr>)"
| "reader_step P R_enter s =
     (if p_phase P (t_sync s) Reader = Inside then Inr (s\<lparr>t_rpc := R_body Get_ld_attempts\<rparr>)
      else Inr s)"
| "reader_step P (R_body pc) s =
     (case get_ret pc of
        Some (r, v) \<Rightarrow> Inr (s\<lparr>t_sync := p_leave P (t_sync s) Reader, t_rpc := R_exit r v\<rparr>)
      | None \<Rightarrow> bindr (get_step (-1) pc (t_mem s)) (\<lambda>(pc', m).
                 Inr (s\<lparr>t_mem := m, t_rpc := R_body pc'\<rparr>)))"
| "reader_step P (R_exit r v) s =
     (if p_phase P (t_sync s) Reader = Outside then Inr (s\<lparr>t_rpc := R_test r v\<rparr>) else Inr s)"
| "reader_step P (R_test ok v) s =
     (if ok = 0 then Inr (s\<lparr>t_rpc := R_call\<rparr>)
      else let errs = (if t_expected s \<noteq> v then t_errors s @ [(v, t_expected s)] else t_errors s)
           in bindr (c_int (v + 1)) (\<lambda>e.
              Inr (s\<lparr>t_errors := errs, t_expected := e, t_rpc := R_call\<rparr>)))"

fun writer_step ::
  "('y, role, 'e) proto \<Rightarrow> qnode allocator \<Rightarrow> writer_pc \<Rightarrow> 'y threads \<Rightarrow> fault + 'y threads" where
  "writer_step P alloc W_call s =
     Inr (s\<lparr>t_sync := p_call P (t_sync s) Writer AddOp, t_wpc := W_enter\<rparr>)"
| "writer_step P alloc W_enter s =
     (if p_phase P (t_sync s) Writer = Inside then Inr (s\<lparr>t_wpc := W_body Add_ld_attempts\<rparr>)
      else Inr s)"
| "writer_step P alloc (W_body pc) s =
     (case add_ret pc of
        Some r \<Rightarrow> Inr (s\<lparr>t_sync := p_leave P (t_sync s) Writer, t_wpc := W_exit r\<rparr>)
      | None \<Rightarrow> bindr (add_step alloc (t_i s) pc (t_mem s)) (\<lambda>(pc', m).
                 Inr (s\<lparr>t_mem := m, t_wpc := W_body pc'\<rparr>)))"
| "writer_step P alloc (W_exit r) s =
     (if p_phase P (t_sync s) Writer = Outside then Inr (s\<lparr>t_wpc := W_test r\<rparr>) else Inr s)"
| "writer_step P alloc (W_test ok) s =
     (if ok = 0 then Inr (s\<lparr>t_wpc := W_call\<rparr>)
      else bindr (c_int (t_i s + 1)) (\<lambda>i. Inr (s\<lparr>t_i := i, t_wpc := W_call\<rparr>)))"

fun threads_step ::
  "('y, role, 'e) proto \<Rightarrow> qnode allocator \<Rightarrow> 'y threads \<Rightarrow> 'e event \<Rightarrow> fault + 'y threads" where
  "threads_step P alloc s (Run Reader) = reader_step P (t_rpc s) s"
| "threads_step P alloc s (Run Writer) = writer_step P alloc (t_wpc s) s"
| "threads_step P alloc s (Sync e) = bindr (p_step P (t_sync s) e) (\<lambda>y. Inr (s\<lparr>t_sync := y\<rparr>))"

text \<open>
  \<open>main\<close>: the queue is created, then the two threads, and \<open>main\<close> waits for them; the error
  codes of the \<open>pthread_create\<close> calls are parameters. The reader may run before the writer
  exists: that is a schedule in which the writer moves late.
\<close>

definition threads_start :: "'y \<Rightarrow> queue_t \<Rightarrow> 'y threads" where
  "threads_start y q =
     \<lparr>t_sync = y, t_mem = fresh_mem q, t_expected = 0, t_rpc = R_call, t_i = 0, t_wpc = W_call,
      t_errors = []\<rparr>"

definition threads_main ::
  "int \<Rightarrow> int \<Rightarrow> (fault + 'y \<times> queue_t) \<Rightarrow> fault + 'y threads" where
  "threads_main err_reader err_writer init =
     bindr init (\<lambda>(y, q).
     if err_reader \<noteq> 0 then Inl (Exit (-1))
     else if err_writer \<noteq> 0 then Inl (Exit (-1))
     else Inr (threads_start y q))"

section \<open>The hand-over invariant\<close>

text \<open>
  The invariant describes a state through what it becomes once the thread that is inside (if
  any) has finished its body: the memory then, and the results the reader and the writer hold
  but have not yet acted on.
\<close>

fun reader_pending :: "reader_pc \<Rightarrow> (int \<times> int) option" where
  "reader_pending (R_exit r v) = Some (r, v)"
| "reader_pending (R_test r v) = Some (r, v)"
| "reader_pending _ = None"

fun writer_pending :: "writer_pc \<Rightarrow> int option" where
  "writer_pending (W_exit r) = Some r"
| "writer_pending (W_test r) = Some r"
| "writer_pending _ = None"

definition settle ::
  "qnode allocator \<Rightarrow> 'y threads \<Rightarrow> fault + (qmem \<times> (int \<times> int) option \<times> int option)" where
  "settle alloc s =
     (case (t_rpc s, t_wpc s) of
        (R_body pc, wpc) \<Rightarrow> bindr (get_run (-1) pc (t_mem s)) (\<lambda>(r, v, m).
                            Inr (m, Some (r, v), writer_pending wpc))
      | (rpc, W_body pc) \<Rightarrow> bindr (add_run alloc (t_i s) pc (t_mem s)) (\<lambda>(r, m).
                            Inr (m, reader_pending rpc, Some r))
      | (rpc, wpc) \<Rightarrow> Inr (t_mem s, reader_pending rpc, writer_pending wpc))"

fun reader_ok :: "int \<Rightarrow> (int \<times> int) option \<Rightarrow> bool" where
  "reader_ok e None = True"
| "reader_ok e (Some (r, v)) = (r \<noteq> 0 \<longrightarrow> v = e)"

fun next_expected :: "int \<Rightarrow> (int \<times> int) option \<Rightarrow> int" where
  "next_expected e None = e"
| "next_expected e (Some (r, v)) = (if r = 0 then e else v + 1)"

fun next_i :: "int \<Rightarrow> int option \<Rightarrow> int" where
  "next_i i None = i"
| "next_i i (Some r) = (if r = 0 then i else i + 1)"

fun handed :: "int \<Rightarrow> int \<Rightarrow> qmem \<times> (int \<times> int) option \<times> int option \<Rightarrow> bool" where
  "handed e i (m, rp, wp) \<longleftrightarrow>
     reader_ok e rp \<and> next_expected e rp \<le> next_i i wp \<and>
     wfq m [next_expected e rp .. next_i i wp - 1]"

definition oom :: fault where
  "oom = Abort ''Cannot allocate memory for new node''"

fun settled_ok :: "int \<Rightarrow> int \<Rightarrow> fault + (qmem \<times> (int \<times> int) option \<times> int option) \<Rightarrow> bool" where
  "settled_ok e i (Inl f) \<longleftrightarrow> f = SignedOverflow \<or> f = oom"
| "settled_ok e i (Inr x) \<longleftrightarrow> handed e i x"

fun reader_phase :: "reader_pc \<Rightarrow> phase \<Rightarrow> bool" where
  "reader_phase R_call ph = (ph = Outside)"
| "reader_phase R_enter ph = (ph = Entering \<or> ph = Inside)"
| "reader_phase (R_body _) ph = (ph = Inside)"
| "reader_phase (R_exit _ _) ph = (ph = Leaving \<or> ph = Outside)"
| "reader_phase (R_test _ _) ph = (ph = Outside)"

fun writer_phase :: "writer_pc \<Rightarrow> phase \<Rightarrow> bool" where
  "writer_phase W_call ph = (ph = Outside)"
| "writer_phase W_enter ph = (ph = Entering \<or> ph = Inside)"
| "writer_phase (W_body _) ph = (ph = Inside)"
| "writer_phase (W_exit _) ph = (ph = Leaving \<or> ph = Outside)"
| "writer_phase (W_test _) ph = (ph = Outside)"

definition threads_inv ::
  "('y, role, 'e) proto \<Rightarrow> ('y \<Rightarrow> bool) \<Rightarrow> qnode allocator \<Rightarrow> 'y threads \<Rightarrow> bool" where
  "threads_inv P pinv alloc s \<longleftrightarrow>
     pinv (t_sync s) \<and>
     reader_phase (t_rpc s) (p_phase P (t_sync s) Reader) \<and>
     writer_phase (t_wpc s) (p_phase P (t_sync s) Writer) \<and>
     t_errors s = [] \<and> reader_ok (t_expected s) (reader_pending (t_rpc s)) \<and>
     settled_ok (t_expected s) (t_i s) (settle alloc s)"

lemma upto_next: "e \<le> i \<Longrightarrow> [e .. i - 1] @ [i] = [e .. i]"
  by (metis upto_rec2)

lemma reader_phase_step:
  "reader_phase pc ph \<Longrightarrow>
   ph' = ph \<or> ph = Entering \<and> ph' = Inside \<or> ph = Leaving \<and> ph' = Outside \<Longrightarrow> reader_phase pc ph'"
  by (cases pc) auto

lemma writer_phase_step:
  "writer_phase pc ph \<Longrightarrow>
   ph' = ph \<or> ph = Entering \<and> ph' = Inside \<or> ph = Leaving \<and> ph' = Outside \<Longrightarrow> writer_phase pc ph'"
  by (cases pc) auto

lemma settle_reader [simp]:
  "t_rpc s = R_body pc \<Longrightarrow> settle alloc s =
     bindr (get_run (-1) pc (t_mem s)) (\<lambda>(r, v, m). Inr (m, Some (r, v), writer_pending (t_wpc s)))"
  by (simp add: settle_def)

lemma settle_writer:
  "t_wpc s = W_body pc \<Longrightarrow> \<forall>g. t_rpc s \<noteq> R_body g \<Longrightarrow> settle alloc s =
     bindr (add_run alloc (t_i s) pc (t_mem s)) (\<lambda>(r, m). Inr (m, reader_pending (t_rpc s), Some r))"
  by (cases "t_rpc s") (auto simp: settle_def)

lemma settle_quiet:
  "\<forall>g. t_rpc s \<noteq> R_body g \<Longrightarrow> \<forall>a. t_wpc s \<noteq> W_body a \<Longrightarrow> settle alloc s =
     Inr (t_mem s, reader_pending (t_rpc s), writer_pending (t_wpc s))"
  by (cases "t_rpc s"; cases "t_wpc s") (auto simp: settle_def)

lemma settle_sync [simp]: "settle alloc (s\<lparr>t_sync := y\<rparr>) = settle alloc s"
  by (cases "t_rpc s"; cases "t_wpc s") (auto simp: settle_def)

lemma settle_sync_pc [simp]:
  "settle alloc (s\<lparr>t_sync := y, t_rpc := rpc\<rparr>) = settle alloc (s\<lparr>t_rpc := rpc\<rparr>)"
  by (cases "t_wpc s"; cases rpc) (auto simp: settle_def)

lemma settle_sync_wpc [simp]:
  "settle alloc (s\<lparr>t_sync := y, t_wpc := wpc\<rparr>) = settle alloc (s\<lparr>t_wpc := wpc\<rparr>)"
  by (cases "t_rpc s"; cases wpc) (auto simp: settle_def)

text \<open>Entering a body: the operation takes effect, in the settled view, at this moment.\<close>

lemma handed_get:
  assumes "handed e i (m, None, wp)"
  shows "settled_ok e i (bindr (queue_get (-1) m) (\<lambda>(r, v, m). Inr (m, Some (r, v), wp)))"
proof (cases "queue_get (-1) m")
  case (Inl f)
  with assms queue_get_faults show ?thesis by fastforce
next
  case (Inr a)
  obtain r v m' where a: "a = (r, v, m')" by (cases a) auto
  let ?xs = "[e .. next_i i wp - 1]"
  from assms have wf: "wfq m ?xs" and le: "e \<le> next_i i wp" by auto
  have ret: "queue_get (-1) m = Inr (r, v, m')" using Inr a by simp
  show ?thesis
  proof (cases "e = next_i i wp")
    case True
    then have "?xs = []" by simp
    with queue_get_refines(1,2) [OF wf ret] True ret show ?thesis by auto
  next
    case False
    with le have "?xs = e # [e + 1 .. next_i i wp - 1]" by (simp add: upto_rec1)
    with queue_get_refines(1,2) [OF wf ret] False le ret show ?thesis by auto
  qed
qed

lemma handed_add:
  assumes "handed e i (m, rp, None)" and al: "alloc_fresh alloc"
  shows "settled_ok e i (bindr (queue_add alloc i m) (\<lambda>(r, m). Inr (m, rp, Some r)))"
proof (cases "queue_add alloc i m")
  case (Inl f)
  with assms queue_add_faults [OF _ al] show ?thesis by (fastforce simp: oom_def)
next
  case (Inr a)
  obtain r m' where a: "a = (r, m')" by (cases a) auto
  let ?xs = "[next_expected e rp .. i - 1]"
  from assms have wf: "wfq m ?xs" and le: "next_expected e rp \<le> i" and rok: "reader_ok e rp"
    by auto
  have ret: "queue_add alloc i m = Inr (r, m')" using Inr a by simp
  show ?thesis
  proof (cases "int (length ?xs) = q_max_count (m_q m)")
    case True
    with queue_add_refines(1,2) [OF wf al ret] le rok ret show ?thesis
      by (auto simp: spec_add_def)
  next
    case False
    with queue_add_refines(1,2) [OF wf al ret] le rok ret upto_next [OF le] show ?thesis
      by (auto simp: spec_add_def)
  qed
qed

lemma settle_R_quiet:
  "\<forall>g. t_rpc s \<noteq> R_body g \<Longrightarrow> \<forall>g. rpc \<noteq> R_body g \<Longrightarrow>
   settle alloc (s\<lparr>t_errors := x, t_expected := e, t_rpc := rpc\<rparr>) =
     bindr (settle alloc s) (\<lambda>(m, rp, wp). Inr (m, reader_pending rpc, wp))"
  by (cases "t_rpc s"; cases rpc; cases "t_wpc s") (auto simp: settle_def split_def)

lemma settle_W_quiet:
  "\<forall>a. t_wpc s \<noteq> W_body a \<Longrightarrow> \<forall>a. wpc \<noteq> W_body a \<Longrightarrow>
   settle alloc (s\<lparr>t_i := i, t_wpc := wpc\<rparr>) =
     bindr (settle alloc s) (\<lambda>(m, rp, wp). Inr (m, rp, writer_pending wpc))"
  by (cases "t_wpc s"; cases wpc; cases "t_rpc s") (auto simp: settle_def split_def)

lemma settle_rp: "settle alloc s = Inr (m, rp, wp) \<Longrightarrow> \<forall>g. t_rpc s \<noteq> R_body g \<Longrightarrow> rp = reader_pending (t_rpc s)"
  by (cases "t_rpc s"; cases "t_wpc s") (auto simp: settle_def outcome_simps split_def)

lemma settle_wp: "settle alloc s = Inr (m, rp, wp) \<Longrightarrow> \<forall>a. t_wpc s \<noteq> W_body a \<Longrightarrow> wp = writer_pending (t_wpc s)"
  by (cases "t_wpc s"; cases "t_rpc s") (auto simp: settle_def outcome_simps split_def)

text \<open>A quiet move of a thread replaces its pending result and its local variables.\<close>

lemma settled_R_quiet:
  assumes s: "settled_ok (t_expected s) i (settle alloc s)"
    and q: "\<forall>g. t_rpc s \<noteq> R_body g" "\<forall>g. rpc \<noteq> R_body g"
    and same: "next_expected e (reader_pending rpc) = next_expected (t_expected s) (reader_pending (t_rpc s))"
    and ok: "reader_ok e (reader_pending rpc)"
  shows "settled_ok e i (settle alloc (s\<lparr>t_errors := x, t_expected := e, t_rpc := rpc\<rparr>))"
  using s settle_rp [OF _ q(1), of alloc] same ok
  by (cases "settle alloc s") (auto simp: settle_R_quiet [OF q])

lemma settled_W_quiet:
  assumes s: "settled_ok e (t_i s) (settle alloc s)"
    and q: "\<forall>a. t_wpc s \<noteq> W_body a" "\<forall>a. wpc \<noteq> W_body a"
    and same: "next_i i (writer_pending wpc) = next_i (t_i s) (writer_pending (t_wpc s))"
  shows "settled_ok e i (settle alloc (s\<lparr>t_i := i, t_wpc := wpc\<rparr>))"
  using s settle_wp [OF _ q(1), of alloc] same
  by (cases "settle alloc s") (auto simp: settle_W_quiet [OF q])

lemma quiet_record [simp]:
  "s\<lparr>t_errors := t_errors s, t_expected := t_expected s, t_rpc := pc\<rparr> = s\<lparr>t_rpc := pc\<rparr>"
  "s\<lparr>t_i := t_i s, t_wpc := wpc\<rparr> = s\<lparr>t_wpc := wpc\<rparr>"
  by simp_all

lemma settled_R_move:
  assumes "settled_ok (t_expected s) i (settle alloc s)"
    and "\<forall>g. t_rpc s \<noteq> R_body g" "\<forall>g. rpc \<noteq> R_body g"
    and "next_expected (t_expected s) (reader_pending rpc) = next_expected (t_expected s) (reader_pending (t_rpc s))"
    and "reader_ok (t_expected s) (reader_pending rpc)"
  shows "settled_ok (t_expected s) i (settle alloc (s\<lparr>t_rpc := rpc\<rparr>))"
  using settled_R_quiet [OF assms, of "t_errors s"] by simp

lemma settled_W_move:
  assumes "settled_ok e (t_i s) (settle alloc s)"
    and "\<forall>a. t_wpc s \<noteq> W_body a" "\<forall>a. wpc \<noteq> W_body a"
    and "next_i (t_i s) (writer_pending wpc) = next_i (t_i s) (writer_pending (t_wpc s))"
  shows "settled_ok e (t_i s) (settle alloc (s\<lparr>t_wpc := wpc\<rparr>))"
  using settled_W_quiet [OF assms] by simp

locale queue_threads = sync_protocol P pinv
  for P :: "('y, role, 'e) proto" and pinv :: "'y \<Rightarrow> bool"
begin

lemma one_inside:
  assumes "threads_inv P pinv alloc s"
  shows "\<not> (t_rpc s = R_body g \<and> t_wpc s = W_body a)"
  using assms exclusion [of "t_sync s" Reader Writer] by (auto simp: threads_inv_def)

lemma start_inv:
  assumes "pinv y" and "\<And>t. p_phase P y t = Outside"
    and "0 \<le> cap" and "cap \<le> INT_MAX" and "queue_init ok err tid cap = Inr q"
  shows "threads_inv P pinv alloc (threads_start y q)"
  using queue_init_wf(1) [OF assms(3-5)] assms(1,2)
  by (simp add: threads_inv_def threads_start_def settle_def)

lemma protocol_step_inv:
  assumes inv: "threads_inv P pinv alloc s" and st: "p_step P (t_sync s) e = Inr y"
  shows "threads_inv P pinv alloc (s\<lparr>t_sync := y\<rparr>)"
proof -
  have y: "pinv (t_sync s)" using inv by (simp add: threads_inv_def)
  from step_phase [OF y st, of Reader] step_phase [OF y st, of Writer] inv
  have "reader_phase (t_rpc s) (p_phase P y Reader)" "writer_phase (t_wpc s) (p_phase P y Writer)"
    unfolding threads_inv_def by (blast intro: reader_phase_step writer_phase_step)+
  with inv step_inv [OF y st] show ?thesis by (simp add: threads_inv_def)
qed

lemma reader_step_inv:
  assumes inv: "threads_inv P pinv alloc s" and st: "reader_step P (t_rpc s) s = Inr s'"
  shows "threads_inv P pinv alloc s'"
proof (cases "t_rpc s")
  case R_call
  then have out: "p_phase P (t_sync s) Reader = Outside" and y: "pinv (t_sync s)"
    using inv by (auto simp: threads_inv_def)
  have "settled_ok (t_expected s) (t_i s) (settle alloc (s\<lparr>t_rpc := R_enter\<rparr>))"
    using inv R_call by (intro settled_R_move) (auto simp: threads_inv_def)
  with R_call st inv call_inv [OF y out, of GetOp] show ?thesis
    by (auto simp: threads_inv_def call_phase [OF y out])
next
  case R_enter
  show ?thesis
  proof (cases "p_phase P (t_sync s) Reader = Inside")
    case True
    then have nw: "\<forall>a. t_wpc s \<noteq> W_body a"
      using inv exclusion [of "t_sync s" Reader Writer] by (auto simp: threads_inv_def)
    have "settle alloc s = Inr (t_mem s, None, writer_pending (t_wpc s))"
      using R_enter nw by (simp add: settle_quiet)
    then have "handed (t_expected s) (t_i s) (t_mem s, None, writer_pending (t_wpc s))"
      using inv by (simp add: threads_inv_def)
    from handed_get [OF this] R_enter True st inv show ?thesis
      by (auto simp: threads_inv_def get_run_queue_get)
  next
    case False
    with R_enter st inv show ?thesis by simp
  qed
next
  case (R_body pc)
  show ?thesis
  proof (cases "get_ret pc")
    case None
    with R_body st obtain pc' m where step: "get_step (-1) pc (t_mem s) = Inr (pc', m)"
        and s': "s' = s\<lparr>t_mem := m, t_rpc := R_body pc'\<rparr>"
      by (auto simp: outcome_simps)
    have "settle alloc s' = settle alloc s"
      using R_body s' get_run_unchanged [OF step] by simp
    with inv R_body s' show ?thesis by (simp add: threads_inv_def)
  next
    case (Some rv)
    then obtain r v where pc: "pc = Get_ret r v" by (auto elim: get_ret.elims)
    have y: "pinv (t_sync s)" and ins: "p_phase P (t_sync s) Reader = Inside"
      using inv R_body by (auto simp: threads_inv_def)
    have nw: "\<forall>a. t_wpc s \<noteq> W_body a" using one_inside [OF inv] R_body by blast
    have s': "s' = s\<lparr>t_sync := p_leave P (t_sync s) Reader, t_rpc := R_exit r v\<rparr>"
      using st R_body pc by simp
    have "settle alloc s' = settle alloc s"
      using R_body pc nw s' by (simp add: settle_quiet)
    moreover have "settle alloc s = Inr (t_mem s, Some (r, v), writer_pending (t_wpc s))"
      using R_body pc by simp
    ultimately show ?thesis
      using inv s' leave_inv [OF y ins] by (auto simp: threads_inv_def leave_phase [OF y ins])
  qed
next
  case (R_exit r v)
  have "settled_ok (t_expected s) (t_i s) (settle alloc (s\<lparr>t_rpc := R_test r v\<rparr>))"
    using inv R_exit by (intro settled_R_move) (auto simp: threads_inv_def)
  with R_exit st inv show ?thesis by (auto simp: threads_inv_def split: if_splits)
next
  case (R_test ok v)
  show ?thesis
  proof (cases "ok = 0")
    case True
    have "settled_ok (t_expected s) (t_i s) (settle alloc (s\<lparr>t_rpc := R_call\<rparr>))"
      using inv R_test True by (intro settled_R_move) (auto simp: threads_inv_def)
    with R_test True st inv show ?thesis by (auto simp: threads_inv_def)
  next
    case False
    with inv R_test have v: "v = t_expected s" by (auto simp: threads_inv_def)
    with False R_test st have
        s': "s' = s\<lparr>t_errors := t_errors s, t_expected := v + 1, t_rpc := R_call\<rparr>"
      by (auto simp: outcome_simps Let_def)
    have "settled_ok (v + 1) (t_i s) (settle alloc s')"
      unfolding s' using inv R_test False by (intro settled_R_quiet) (auto simp: threads_inv_def)
    with s' R_test inv show ?thesis by (auto simp: threads_inv_def)
  qed
qed


lemma writer_step_inv:
  assumes inv: "threads_inv P pinv alloc s" and al: "alloc_fresh alloc"
    and st: "writer_step P alloc (t_wpc s) s = Inr s'"
  shows "threads_inv P pinv alloc s'"
proof (cases "t_wpc s")
  case W_call
  then have out: "p_phase P (t_sync s) Writer = Outside" and y: "pinv (t_sync s)"
    using inv by (auto simp: threads_inv_def)
  have "settled_ok (t_expected s) (t_i s) (settle alloc (s\<lparr>t_wpc := W_enter\<rparr>))"
    using inv W_call by (intro settled_W_move) (auto simp: threads_inv_def)
  with W_call st inv call_inv [OF y out, of AddOp] show ?thesis
    by (auto simp: threads_inv_def call_phase [OF y out])
next
  case W_enter
  show ?thesis
  proof (cases "p_phase P (t_sync s) Writer = Inside")
    case True
    then have nr: "\<forall>g. t_rpc s \<noteq> R_body g"
      using inv exclusion [of "t_sync s" Reader Writer] by (auto simp: threads_inv_def)
    have "settle alloc s = Inr (t_mem s, reader_pending (t_rpc s), None)"
      using W_enter nr by (simp add: settle_quiet)
    then have "handed (t_expected s) (t_i s) (t_mem s, reader_pending (t_rpc s), None)"
      using inv by (simp add: threads_inv_def)
    from handed_add [OF this al] W_enter True st inv nr show ?thesis
      by (auto simp: threads_inv_def add_run_queue_add settle_writer)
  next
    case False
    with W_enter st inv show ?thesis by simp
  qed
next
  case (W_body pc)
  have nr: "\<forall>g. t_rpc s \<noteq> R_body g" using one_inside [OF inv] W_body by blast
  show ?thesis
  proof (cases "add_ret pc")
    case None
    with W_body st obtain pc' m where step: "add_step alloc (t_i s) pc (t_mem s) = Inr (pc', m)"
        and s': "s' = s\<lparr>t_mem := m, t_wpc := W_body pc'\<rparr>"
      by (auto simp: outcome_simps)
    have "settle alloc s' = settle alloc s"
      using W_body s' nr add_run_unchanged [OF step] by (simp add: settle_writer)
    with inv W_body s' show ?thesis by (simp add: threads_inv_def)
  next
    case (Some r)
    then have pc: "pc = Add_ret r" by (auto elim: add_ret.elims)
    have y: "pinv (t_sync s)" and ins: "p_phase P (t_sync s) Writer = Inside"
      using inv W_body by (auto simp: threads_inv_def)
    have s': "s' = s\<lparr>t_sync := p_leave P (t_sync s) Writer, t_wpc := W_exit r\<rparr>"
      using st W_body pc by simp
    have "settle alloc s' = settle alloc s"
      using W_body pc nr s' by (simp add: settle_quiet settle_writer)
    then show ?thesis
      using inv s' leave_inv [OF y ins] by (auto simp: threads_inv_def leave_phase [OF y ins])
  qed
next
  case (W_exit r)
  have "settled_ok (t_expected s) (t_i s) (settle alloc (s\<lparr>t_wpc := W_test r\<rparr>))"
    using inv W_exit by (intro settled_W_move) (auto simp: threads_inv_def)
  with W_exit st inv show ?thesis by (auto simp: threads_inv_def split: if_splits)
next
  case (W_test ok)
  show ?thesis
  proof (cases "ok = 0")
    case True
    have "settled_ok (t_expected s) (t_i s) (settle alloc (s\<lparr>t_wpc := W_call\<rparr>))"
      using inv W_test True by (intro settled_W_move) (auto simp: threads_inv_def)
    with W_test True st inv show ?thesis by (auto simp: threads_inv_def)
  next
    case False
    with W_test st have s': "s' = s\<lparr>t_i := t_i s + 1, t_wpc := W_call\<rparr>"
      by (auto simp: outcome_simps)
    have "settled_ok (t_expected s) (t_i s + 1) (settle alloc s')"
      unfolding s' using inv W_test False by (intro settled_W_quiet) (auto simp: threads_inv_def)
    with s' W_test inv show ?thesis by (auto simp: threads_inv_def)
  qed
qed

lemma threads_step_inv:
  assumes "threads_inv P pinv alloc s" and "alloc_fresh alloc"
    and "threads_step P alloc s ev = Inr s'"
  shows "threads_inv P pinv alloc s'"
proof (cases ev)
  case (Run r)
  show ?thesis
  proof (cases r)
    case Reader
    with Run assms(3) have "reader_step P (t_rpc s) s = Inr s'" by simp
    then show ?thesis by (rule reader_step_inv [OF assms(1)])
  next
    case Writer
    with Run assms(3) have "writer_step P alloc (t_wpc s) s = Inr s'" by simp
    then show ?thesis by (rule writer_step_inv [OF assms(1,2)])
  qed
next
  case (Sync e)
  with assms protocol_step_inv show ?thesis by (auto simp: outcome_simps)
qed

lemma reach_inv:
  assumes "reach (threads_step P alloc) s0 s" and "threads_inv P pinv alloc s0" and "alloc_fresh alloc"
  shows "threads_inv P pinv alloc s"
  using assms by (induction rule: reach.induct) (auto intro: threads_step_inv)

text \<open>The only ways the program can stop.\<close>

lemma reader_fault:
  assumes inv: "threads_inv P pinv alloc s" and st: "reader_step P (t_rpc s) s = Inl f"
  shows "f = SignedOverflow \<or> f = oom"
proof (cases "t_rpc s")
  case (R_body pc)
  with st have "get_step (-1) pc (t_mem s) = Inl f"
    by (auto simp: outcome_simps split: option.splits)
  then have "settle alloc s = Inl f" using R_body get_run_fault by simp
  with inv show ?thesis by (simp add: threads_inv_def)
qed (use st in \<open>auto simp: outcome_simps Let_def split: if_splits\<close>)

lemma writer_fault:
  assumes inv: "threads_inv P pinv alloc s" and st: "writer_step P alloc (t_wpc s) s = Inl f"
  shows "f = SignedOverflow \<or> f = oom"
proof (cases "t_wpc s")
  case (W_body pc)
  with st have "add_step alloc (t_i s) pc (t_mem s) = Inl f"
    by (auto simp: outcome_simps split: option.splits)
  moreover have "\<forall>g. t_rpc s \<noteq> R_body g" using one_inside [OF inv] W_body by blast
  ultimately have "settle alloc s = Inl f" using W_body add_run_fault by (simp add: settle_writer)
  with inv show ?thesis by (simp add: threads_inv_def)
qed (use st in \<open>auto simp: outcome_simps split: if_splits\<close>)

lemma threads_fault:
  assumes inv: "threads_inv P pinv alloc s" and st: "threads_step P alloc s ev = Inl f"
  shows "f = SignedOverflow \<or> f = oom \<or> (\<exists>e. p_step P (t_sync s) e = Inl f)"
proof (cases ev)
  case (Run r)
  with st reader_fault [OF inv, of f] writer_fault [OF inv, of f] show ?thesis by (cases r) (simp, blast)+
next
  case (Sync e)
  with st show ?thesis by (auto simp: outcome_simps)
qed

lemma reach_no_error:
  assumes "reach (threads_step P alloc) (threads_start y q) s" and "alloc_fresh alloc"
    and "pinv y" and "\<And>t. p_phase P y t = Outside"
    and "0 \<le> cap" and "cap \<le> INT_MAX" and "queue_init ok err tid cap = Inr q"
  shows "t_errors s = []"
  using reach_inv [OF assms(1) start_inv [OF assms(3-7)] assms(2)]
  by (simp add: threads_inv_def)

end

section \<open>Atomicity\<close>

text \<open>
  The memory once the thread inside has finished. Every step of the program leaves it as it
  is or performs one whole queue operation on it, at the moment the thread starts the body.
\<close>

definition settled_mem :: "qnode allocator \<Rightarrow> 'y threads \<Rightarrow> fault + qmem" where
  "settled_mem alloc s = bindr (settle alloc s) (\<lambda>(m, rp, wp). Inr m)"

lemma settled_mem_locals [simp]:
  "settled_mem alloc (s\<lparr>t_expected := e\<rparr>) = settled_mem alloc s"
  "settled_mem alloc (s\<lparr>t_errors := x\<rparr>) = settled_mem alloc s"
  by (cases "t_rpc s"; cases "t_wpc s"; simp add: settled_mem_def settle_def)+

lemma settled_mem_i:
  "\<forall>a. t_wpc s \<noteq> W_body a \<Longrightarrow> settled_mem alloc (s\<lparr>t_i := i\<rparr>) = settled_mem alloc s"
  by (cases "t_rpc s"; cases "t_wpc s"; simp add: settled_mem_def settle_def)

lemma settled_mem_R:
  "\<forall>g. t_rpc s \<noteq> R_body g \<Longrightarrow> \<forall>g. rpc \<noteq> R_body g \<Longrightarrow>
   settled_mem alloc (s\<lparr>t_rpc := rpc\<rparr>) = settled_mem alloc s"
  by (cases "t_rpc s"; cases rpc; cases "t_wpc s") (auto simp: settled_mem_def settle_def split_def)

lemma settled_mem_W:
  "\<forall>a. t_wpc s \<noteq> W_body a \<Longrightarrow> \<forall>a. wpc \<noteq> W_body a \<Longrightarrow>
   settled_mem alloc (s\<lparr>t_wpc := wpc\<rparr>) = settled_mem alloc s"
  by (cases "t_wpc s"; cases wpc; cases "t_rpc s") (auto simp: settled_mem_def settle_def split_def)

lemma settled_mem_sync [simp]:
  "settled_mem alloc (s\<lparr>t_sync := y\<rparr>) = settled_mem alloc s"
  "settled_mem alloc (s\<lparr>t_sync := y, t_rpc := rpc\<rparr>) = settled_mem alloc (s\<lparr>t_rpc := rpc\<rparr>)"
  "settled_mem alloc (s\<lparr>t_sync := y, t_wpc := wpc\<rparr>) = settled_mem alloc (s\<lparr>t_wpc := wpc\<rparr>)"
  by (simp_all add: settled_mem_def)

definition starts_get :: "('y, role, 'e) proto \<Rightarrow> qnode allocator \<Rightarrow> 'y threads \<Rightarrow> 'y threads \<Rightarrow> bool" where
  "starts_get P alloc s s' \<longleftrightarrow>
     t_rpc s = R_enter \<and> p_phase P (t_sync s) Reader = Inside \<and>
     s' = s\<lparr>t_rpc := R_body Get_ld_attempts\<rparr> \<and> settled_mem alloc s = Inr (t_mem s) \<and>
     settled_mem alloc s' = bindr (queue_get (-1) (t_mem s)) (\<lambda>(r, v, m). Inr m)"

definition starts_add :: "('y, role, 'e) proto \<Rightarrow> qnode allocator \<Rightarrow> 'y threads \<Rightarrow> 'y threads \<Rightarrow> bool" where
  "starts_add P alloc s s' \<longleftrightarrow>
     t_wpc s = W_enter \<and> p_phase P (t_sync s) Writer = Inside \<and>
     s' = s\<lparr>t_wpc := W_body Add_ld_attempts\<rparr> \<and> settled_mem alloc s = Inr (t_mem s) \<and>
     settled_mem alloc s' = bindr (queue_add alloc (t_i s) (t_mem s)) (\<lambda>(r, m). Inr m)"

lemma next_expected_cases:
  "handed e i (m, rp, wp) \<Longrightarrow> next_expected e rp = e \<or> next_expected e rp = e + 1"
proof (cases rp)
  case (Some p)
  then obtain r v where "rp = Some (r, v)" by (cases p) auto
  moreover assume "handed e i (m, rp, wp)"
  ultimately show ?thesis by (cases "r = 0") auto
qed auto

context queue_threads
begin

lemma reader_enters:
  assumes inv: "threads_inv P pinv alloc s" and pc: "t_rpc s = R_enter"
    and ins: "p_phase P (t_sync s) Reader = Inside"
  shows "starts_get P alloc s (s\<lparr>t_rpc := R_body Get_ld_attempts\<rparr>)"
proof -
  have "\<forall>a. t_wpc s \<noteq> W_body a"
    using inv ins exclusion [of "t_sync s" Reader Writer] by (auto simp: threads_inv_def)
  with pc ins show ?thesis
    by (auto simp: starts_get_def settled_mem_def settle_quiet get_run_queue_get split_def)
qed

lemma writer_enters:
  assumes inv: "threads_inv P pinv alloc s" and pc: "t_wpc s = W_enter"
    and ins: "p_phase P (t_sync s) Writer = Inside"
  shows "starts_add P alloc s (s\<lparr>t_wpc := W_body Add_ld_attempts\<rparr>)"
proof -
  have "\<forall>g. t_rpc s \<noteq> R_body g"
    using inv ins exclusion [of "t_sync s" Reader Writer] by (auto simp: threads_inv_def)
  with pc ins show ?thesis
    by (auto simp: starts_add_def settled_mem_def settle_quiet settle_writer add_run_queue_add split_def)
qed

lemma reader_atomic:
  assumes inv: "threads_inv P pinv alloc s" and st: "reader_step P (t_rpc s) s = Inr s'"
  shows "settled_mem alloc s' = settled_mem alloc s \<or> starts_get P alloc s s'"
proof (cases "t_rpc s")
  case R_enter
  show ?thesis
  proof (cases "p_phase P (t_sync s) Reader = Inside")
    case True
    with R_enter st reader_enters [OF inv R_enter True] show ?thesis by simp
  next
    case False
    with R_enter st show ?thesis by simp
  qed
next
  case (R_body pc)
  show ?thesis
  proof (cases "get_ret pc")
    case None
    with R_body st obtain pc' m where "get_step (-1) pc (t_mem s) = Inr (pc', m)"
        and "s' = s\<lparr>t_mem := m, t_rpc := R_body pc'\<rparr>"
      by (auto simp: outcome_simps)
    with R_body get_run_unchanged show ?thesis by (fastforce simp: settled_mem_def)
  next
    case (Some rv)
    then obtain r v where pc: "pc = Get_ret r v" by (auto elim: get_ret.elims)
    have "\<forall>a. t_wpc s \<noteq> W_body a" using one_inside [OF inv] R_body by blast
    with R_body pc st show ?thesis by (auto simp: settled_mem_def settle_quiet)
  qed
qed (use st in \<open>auto simp: settled_mem_R outcome_simps Let_def split: if_splits\<close>)

lemma writer_atomic:
  assumes inv: "threads_inv P pinv alloc s" and st: "writer_step P alloc (t_wpc s) s = Inr s'"
  shows "settled_mem alloc s' = settled_mem alloc s \<or> starts_add P alloc s s'"
proof (cases "t_wpc s")
  case W_enter
  show ?thesis
  proof (cases "p_phase P (t_sync s) Writer = Inside")
    case True
    with W_enter st writer_enters [OF inv W_enter True] show ?thesis by simp
  next
    case False
    with W_enter st show ?thesis by simp
  qed
next
  case (W_body pc)
  have nr: "\<forall>g. t_rpc s \<noteq> R_body g" using one_inside [OF inv] W_body by blast
  show ?thesis
  proof (cases "add_ret pc")
    case None
    with W_body st obtain pc' m where "add_step alloc (t_i s) pc (t_mem s) = Inr (pc', m)"
        and "s' = s\<lparr>t_mem := m, t_wpc := W_body pc'\<rparr>"
      by (auto simp: outcome_simps)
    with W_body nr add_run_unchanged show ?thesis by (fastforce simp: settled_mem_def settle_writer)
  next
    case (Some r)
    then have pc: "pc = Add_ret r" by (auto elim: add_ret.elims)
    with W_body nr st show ?thesis by (auto simp: settled_mem_def settle_quiet settle_writer)
  qed
qed (use st in \<open>auto simp: settled_mem_W settled_mem_i outcome_simps split: if_splits\<close>)

lemma threads_atomic:
  assumes inv: "threads_inv P pinv alloc s" and st: "threads_step P alloc s ev = Inr s'"
  shows "settled_mem alloc s' = settled_mem alloc s \<or> starts_get P alloc s s' \<or> starts_add P alloc s s'"
proof (cases ev)
  case (Run r)
  show ?thesis
  proof (cases r)
    case Reader
    with Run st have "reader_step P (t_rpc s) s = Inr s'" by simp
    from reader_atomic [OF inv this] show ?thesis by blast
  next
    case Writer
    with Run st have "writer_step P alloc (t_wpc s) s = Inr s'" by simp
    from writer_atomic [OF inv this] show ?thesis by blast
  qed
next
  case (Sync e)
  with st show ?thesis by (auto simp: outcome_simps)
qed

lemma sync_moves:
  "p_step P (t_sync s) e \<noteq> Inr (t_sync s) \<Longrightarrow> threads_step P alloc s (Sync e) \<noteq> Inr s"
  by (cases "p_step P (t_sync s) e") (auto dest: arg_cong [where f = t_sync])

text \<open>What a step can do to the state of the protocol.\<close>

lemma sync_changes:
  assumes inv: "threads_inv P pinv alloc s" and st: "threads_step P alloc s ev = Inr s'"
  shows "t_sync s' = t_sync s \<or> (\<exists>e. p_step P (t_sync s) e = Inr (t_sync s')) \<or>
    (\<exists>t. t_sync s' = p_call P (t_sync s) t (op_of t) \<and> p_phase P (t_sync s) t = Outside) \<or>
    (\<exists>t. t_sync s' = p_leave P (t_sync s) t \<and> p_phase P (t_sync s) t = Inside)"
proof (cases ev)
  case (Run r)
  show ?thesis
  proof (cases r)
    case Reader
    with Run st have *: "reader_step P (t_rpc s) s = Inr s'" by simp
    show ?thesis
    proof (cases "t_rpc s")
      case R_call
      with * inv show ?thesis
        by (intro disjI2 disjI1) (auto simp: threads_inv_def intro!: exI [of _ Reader])
    next
      case (R_body pc)
      with * inv show ?thesis
        by (cases "get_ret pc") (auto simp: threads_inv_def outcome_simps)
    qed (use * in \<open>auto simp: outcome_simps Let_def split: if_splits\<close>)
  next
    case Writer
    with Run st have *: "writer_step P alloc (t_wpc s) s = Inr s'" by simp
    show ?thesis
    proof (cases "t_wpc s")
      case W_call
      with * inv show ?thesis
        by (intro disjI2 disjI1) (auto simp: threads_inv_def intro!: exI [of _ Writer])
    next
      case (W_body pc)
      with * inv show ?thesis
        by (cases "add_ret pc") (auto simp: threads_inv_def outcome_simps)
    qed (use * in \<open>auto simp: outcome_simps split: if_splits\<close>)
  qed
next
  case (Sync e)
  with st show ?thesis by (auto simp: outcome_simps)
qed

text \<open>
  A thread that the protocol does not hold up (it is outside, or inside) can always move.
\<close>

lemma reader_moves:
  assumes "threads_inv P pinv alloc s"
    and "p_phase P (t_sync s) Reader = Inside \<or> p_phase P (t_sync s) Reader = Outside"
  shows "threads_step P alloc s (Run Reader) \<noteq> Inr s"
proof (cases "t_rpc s")
  case (R_body pc)
  have ne: "pc' \<noteq> pc" if "get_step (-1) pc (t_mem s) = Inr (pc', m)" "get_ret pc = None" for pc' m
    using get_step_rank [OF that] by auto
  show ?thesis
  proof
    assume *: "threads_step P alloc s (Run Reader) = Inr s"
    show False
    proof (cases "get_ret pc")
      case None
      with * R_body obtain pc' m where "get_step (-1) pc (t_mem s) = Inr (pc', m)"
          and "s\<lparr>t_mem := m, t_rpc := R_body pc'\<rparr> = s"
        by (auto simp: outcome_simps)
      with ne [OF _ None] R_body show False by (auto dest: arg_cong [where f = t_rpc])
    next
      case (Some p)
      with * R_body show False by (cases p) (auto dest: arg_cong [where f = t_rpc])
    qed
  qed
qed (use assms in \<open>auto simp: threads_inv_def outcome_simps Let_def
       dest: arg_cong [where f = t_rpc] split: if_splits\<close>)

lemma writer_moves:
  assumes "threads_inv P pinv alloc s"
    and "p_phase P (t_sync s) Writer = Inside \<or> p_phase P (t_sync s) Writer = Outside"
  shows "threads_step P alloc s (Run Writer) \<noteq> Inr s"
proof (cases "t_wpc s")
  case (W_body pc)
  have ne: "pc' \<noteq> pc" if "add_step alloc (t_i s) pc (t_mem s) = Inr (pc', m)" "add_ret pc = None" for pc' m
    using add_step_rank [OF that] by auto
  show ?thesis
  proof
    assume *: "threads_step P alloc s (Run Writer) = Inr s"
    show False
    proof (cases "add_ret pc")
      case None
      with * W_body obtain pc' m where "add_step alloc (t_i s) pc (t_mem s) = Inr (pc', m)"
          and "s\<lparr>t_mem := m, t_wpc := W_body pc'\<rparr> = s"
        by (auto simp: outcome_simps)
      with ne [OF _ None] W_body show False by (auto dest: arg_cong [where f = t_wpc])
    next
      case (Some p)
      with * W_body show False by (auto dest: arg_cong [where f = t_wpc])
    qed
  qed
qed (use assms in \<open>auto simp: threads_inv_def outcome_simps
       dest: arg_cong [where f = t_wpc] split: if_splits\<close>)

lemma role_moves:
  assumes "threads_inv P pinv alloc s"
    and "p_phase P (t_sync s) r = Inside \<or> p_phase P (t_sync s) r = Outside"
  shows "threads_step P alloc s (Run r) \<noteq> Inr s"
  using assms reader_moves writer_moves by (cases r) blast+

text \<open>What the queue holds while nobody is inside.\<close>

lemma settled_contents:
  assumes "threads_inv P pinv alloc s" and "settled_mem alloc s = Inr m"
  shows "\<exists>e i. t_expected s \<le> e \<and> e \<le> t_expected s + 1 \<and> t_i s \<le> i \<and> i \<le> t_i s + 1 \<and> e \<le> i \<and>
    wfq m [e .. i - 1]"
proof -
  from assms(2) obtain rp wp where "settle alloc s = Inr (m, rp, wp)"
    by (auto simp: settled_mem_def outcome_simps)
  with assms(1) have h: "handed (t_expected s) (t_i s) (m, rp, wp)" by (simp add: threads_inv_def)
  then have "next_expected (t_expected s) rp = t_expected s \<or> next_expected (t_expected s) rp = t_expected s + 1"
    using next_expected_cases h by blast
  moreover have "next_i (t_i s) wp = t_i s \<or> next_i (t_i s) wp = t_i s + 1" by (cases wp) auto
  ultimately show ?thesis using h
    by (intro exI [of _ "next_expected (t_expected s) rp"] exI [of _ "next_i (t_i s) wp"]) auto
qed

end

text \<open>
  Seen through the settled memory a step of the program is a step of the abstract queue: it
  does nothing, or it adds the writer's number, or it removes a value.
\<close>

definition spec_step :: "int \<Rightarrow> int \<Rightarrow> int list \<Rightarrow> int list \<Rightarrow> bool" where
  "spec_step cap i xs ys \<longleftrightarrow>
     ys = xs \<or> ys = snd (spec_add cap xs i) \<or> ys = snd (snd (spec_get (-1) xs))"

definition refines_queue ::
  "qnode allocator \<Rightarrow> ('y threads \<Rightarrow> 'e \<Rightarrow> fault + 'y threads) \<Rightarrow> 'y threads \<Rightarrow> bool" where
  "refines_queue alloc step s0 \<longleftrightarrow>
     (\<forall>s ev s' m m'. reach step s0 s \<longrightarrow> step s ev = Inr s' \<longrightarrow>
        settled_mem alloc s = Inr m \<longrightarrow> settled_mem alloc s' = Inr m' \<longrightarrow>
        (\<exists>xs ys. wfq m xs \<and> wfq m' ys \<and> spec_step (q_max_count (m_q m)) (t_i s) xs ys))"

context queue_threads
begin

lemma step_refines:
  assumes inv: "threads_inv P pinv alloc s" and al: "alloc_fresh alloc"
    and st: "threads_step P alloc s ev = Inr s'"
    and m: "settled_mem alloc s = Inr m" "wfq m xs" and m': "settled_mem alloc s' = Inr m'"
  shows "\<exists>ys. wfq m' ys \<and> spec_step (q_max_count (m_q m)) (t_i s) xs ys"
proof -
  from threads_atomic [OF inv st] consider "m' = m"
    | "bindr (queue_get (-1) m) (\<lambda>(r, v, m). Inr m) = Inr m'"
    | "bindr (queue_add alloc (t_i s) m) (\<lambda>(r, m). Inr m) = Inr m'"
    using m(1) m' by (fastforce simp: starts_get_def starts_add_def)
  then consider "m' = m"
    | r v where "queue_get (-1) m = Inr (r, v, m')"
    | r where "queue_add alloc (t_i s) m = Inr (r, m')"
    by cases (auto simp: outcome_simps)
  then show ?thesis
  proof cases
    case 2
    then show ?thesis
      using queue_get_spec [OF m(2) 2] by (auto simp: spec_step_def) (metis snd_conv)
  next
    case 3
    then show ?thesis
      using queue_add_spec [OF m(2) al 3] by (auto simp: spec_step_def) (metis snd_conv)
  qed (use m in \<open>auto simp: spec_step_def\<close>)
qed

lemma program_refines:
  assumes "threads_inv P pinv alloc s0" and "alloc_fresh alloc"
  shows "refines_queue alloc (threads_step P alloc) s0"
  unfolding refines_queue_def
proof (intro allI impI)
  fix s ev s' m m'
  assume r: "reach (threads_step P alloc) s0 s" and st: "threads_step P alloc s ev = Inr s'"
    and m: "settled_mem alloc s = Inr m" and m': "settled_mem alloc s' = Inr m'"
  have inv: "threads_inv P pinv alloc s" using r assms by (rule reach_inv)
  from settled_contents [OF inv m] obtain xs where "wfq m xs" by blast
  with step_refines [OF inv assms(2) st m _ m']
  show "\<exists>xs ys. wfq m xs \<and> wfq m' ys \<and> spec_step (q_max_count (m_q m)) (t_i s) xs ys" by blast
qed

end

end
