(* ===== verification/RaceQueue.thy ===== *)
theory RaceQueue
  imports Threads
begin

text \<open>
  \<^verbatim>\<open>lab2/1\<close>: the queue without any synchronisation. The reader and the writer of
  \<^verbatim>\<open>queue-threads.c\<close> are the threads of \<open>Threads\<close> over a protocol that lets everybody in at
  once; \<^verbatim>\<open>queue-example.c\<close> uses the queue from one thread.
\<close>

section \<open>No protocol at all\<close>

definition race_proto :: "('t \<Rightarrow> phase, 't, unit) proto" where
  "race_proto = \<lparr>p_phase = (\<lambda>y t. y t), p_call = (\<lambda>y t k. y(t := Inside)),
                 p_leave = (\<lambda>y t. y(t := Outside)), p_step = (\<lambda>y _. Inr y)\<rparr>"

definition race_step ::
  "qnode allocator \<Rightarrow> (role \<Rightarrow> phase) threads \<Rightarrow> unit event \<Rightarrow> fault + (role \<Rightarrow> phase) threads" where
  "race_step alloc = threads_step race_proto alloc"

definition race_main :: "int \<Rightarrow> int \<Rightarrow> bool \<Rightarrow> int \<Rightarrow> nat \<Rightarrow> fault + (role \<Rightarrow> phase) threads" where
  "race_main err_reader err_writer malloc_ok create_err tid =
     threads_main err_reader err_writer
       (bindr (queue_init malloc_ok create_err tid 1000000) (\<lambda>q. Inr (\<lambda>_. Outside, q)))"

lemmas race_eval = race_main_def threads_main_def queue_init_def threads_start_def
  race_step_def fresh_mem_def race_proto_def bump_alloc_def
  eval_nat_numeral c_int_def c_long_def c_limits

text \<open>
  Two schedules. In the first the writer has seen a non-empty queue when the reader frees the
  only node, and then follows \<open>q->last\<close>. In the second it has loaded \<open>count\<close> when the reader
  decrements it; the count ends up too high and the reader follows \<open>q->first = NULL\<close>.
\<close>

definition add_first :: "unit event list" where
  "add_first = replicate 20 (Run Writer)"

definition dangling_schedule :: "unit event list" where
  "dangling_schedule = add_first @ replicate 10 (Run Writer) @ replicate 11 (Run Reader)"

definition lost_update_schedule :: "unit event list" where
  "lost_update_schedule = add_first @ replicate 12 (Run Writer) @ replicate 18 (Run Reader) @
     [Run Writer] @ replicate 25 (Run Reader)"

text \<open>
  Property C28. Without a lock the program of \<^verbatim>\<open>lab2/1\<close> has undefined behaviour: from the
  start it reaches a state in which the writer's next step follows a pointer to a freed node,
  and a state in which the reader's next step follows a null pointer.
\<close>

theorem race_undefined:
  "\<exists>s0 s t. race_main 0 0 True 0 7 = Inr s0 \<and>
     reach (race_step (bump_alloc wit_node)) s0 s \<and>
     race_step (bump_alloc wit_node) s (Run Writer) = Inl UseAfterFree \<and>
     reach (race_step (bump_alloc wit_node)) s0 t \<and>
     race_step (bump_alloc wit_node) t (Run Reader) = Inl NullDeref"
proof -
  obtain s0 where s0: "race_main 0 0 True 0 7 = Inr s0"
    by (simp add: race_eval)
  from s0 obtain s where s: "run (race_step (bump_alloc wit_node)) s0 dangling_schedule = Inr s"
      "race_step (bump_alloc wit_node) s (Run Writer) = Inl UseAfterFree"
    by (auto simp: race_eval dangling_schedule_def add_first_def)
  from s0 obtain t where t: "run (race_step (bump_alloc wit_node)) s0 lost_update_schedule = Inr t"
      "race_step (bump_alloc wit_node) t (Run Reader) = Inl NullDeref"
    by (auto simp: race_eval lost_update_schedule_def add_first_def)
  from s0 s t show ?thesis by (blast intro: run_reach)
qed

section \<open>queue-example.c\<close>

datatype out = Added int int | Got int int | Stats "int list"

function example_adds :: "qnode allocator \<Rightarrow> int \<Rightarrow> qmem \<Rightarrow> fault + (out list \<times> qmem)" where
  "example_adds alloc i m =
     (if i < 10 then
        bindr (queue_add alloc i m) (\<lambda>(ok, m).
        bindr (queue_print_stats (m_q m)) (\<lambda>st.
        bindr (example_adds alloc (i + 1) m) (\<lambda>(rest, m).
        Inr (Added ok i # Stats st # rest, m))))
      else Inr ([], m))"
  by pat_completeness auto
termination
  by (relation "measure (\<lambda>(alloc, i, m). nat (10 - i))") auto

function example_gets :: "int \<Rightarrow> qmem \<Rightarrow> fault + (out list \<times> qmem)" where
  "example_gets i m =
     (if i < 12 then
        bindr (queue_get (-1) m) (\<lambda>(ok, val, m).
        bindr (queue_print_stats (m_q m)) (\<lambda>st.
        bindr (example_gets (i + 1) m) (\<lambda>(rest, m).
        Inr (Got ok val # Stats st # rest, m))))
      else Inr ([], m))"
  by pat_completeness auto
termination
  by (relation "measure (\<lambda>(i, m). nat (12 - i))") auto

declare example_adds.simps [simp del] example_gets.simps [simp del]

text \<open>The lines \<open>main\<close> prints (the stats of the monitor thread left aside) and the nodes left.\<close>

definition example_main ::
  "qnode allocator \<Rightarrow> bool \<Rightarrow> int \<Rightarrow> nat \<Rightarrow> int \<Rightarrow> (fault + (out list \<times> qnode heap)) option" where
  "example_main alloc malloc_ok create_err tid join_err =
     (case bindr (queue_init malloc_ok create_err tid 1000) (\<lambda>q.
           bindr (example_adds alloc 0 (fresh_mem q)) (\<lambda>(added, m).
           bindr (example_gets 0 m) (\<lambda>(got, m). Inr (added @ got, m)))) of
        Inl e \<Rightarrow> Some (Inl e)
      | Inr (out, m) \<Rightarrow>
          (case queue_destroy join_err m of
             None \<Rightarrow> None
           | Some (Inl e) \<Rightarrow> Some (Inl e)
           | Some (Inr h) \<Rightarrow> Some (Inr (out, h))))"

text \<open>The state between two operations: contents and the four counters.\<close>

definition ex_state :: "qmem \<Rightarrow> int list \<Rightarrow> int \<Rightarrow> int \<Rightarrow> int \<Rightarrow> bool" where
  "ex_state m xs added gets got \<longleftrightarrow> wfq m xs \<and> q_max_count (m_q m) = 1000 \<and>
     q_add_attempts (m_q m) = added \<and> q_add_count (m_q m) = added \<and>
     q_get_attempts (m_q m) = gets \<and> q_get_count (m_q m) = got"

lemma ex_add:
  assumes ex: "ex_state m xs a g c" and small: "length xs < 10" "a < 1000"
    and al: "alloc_fresh alloc" "never_null 10 alloc"
  shows "\<exists>m'. queue_add alloc v m = Inr (1, m') \<and> ex_state m' (xs @ [v]) (a + 1) g c"
proof (cases "queue_add alloc v m")
  case (Inl e)
  have wf: "wfq m xs" using ex by (simp add: ex_state_def)
  from wf obtain as where as: "dom (m_heap m) = set as" "length as = length xs"
    by (auto simp: wfq_def wf_at_def)
  then have "card (dom (m_heap m)) < 10" using small(1) card_length [of as] by simp
  with as(1) al(2) have "alloc (m_mallocs m) (m_heap m) \<noteq> None" by (simp add: never_null_def)
  with queue_add_faults [OF wf al(1) Inl] ex small show ?thesis
    by (auto simp: ex_state_def c_limits)
next
  case (Inr x)
  obtain r m' where x: "queue_add alloc v m = Inr (r, m')" using Inr by (cases x) auto
  have wf: "wfq m xs" using ex by (simp add: ex_state_def)
  note ref = queue_add_refines [OF wf al(1) x]
  have "r = 1" "wfq m' (xs @ [v])"
    using ref(1) [of "xs @ [v]"] ref(2) ex small by (auto simp: spec_add_def ex_state_def)
  with ref(3-5) queue_add_counts [OF x] ex x show ?thesis
    by (auto simp: ex_state_def same_shape_def)
qed

lemma ex_get:
  assumes ex: "ex_state m xs a g c" and small: "g < 1000"
  shows "\<exists>m'. queue_get (-1) m = Inr (fst (spec_get (-1) xs), fst (snd (spec_get (-1) xs)), m') \<and>
    ex_state m' (tl xs) a (g + 1) (c + fst (spec_get (-1) xs))"
proof (cases "queue_get (-1) m")
  case (Inl e)
  have wf: "wfq m xs" using ex by (simp add: ex_state_def)
  from queue_get_faults [OF wf Inl] ex small show ?thesis by (auto simp: ex_state_def c_limits)
next
  case (Inr x)
  obtain r v m' where x: "queue_get (-1) m = Inr (r, v, m')" using Inr by (cases x) auto
  have wf: "wfq m xs" using ex by (simp add: ex_state_def)
  note ref = queue_get_refines [OF wf x]
  have "wfq m' (tl xs)" using ref(1) [of "tl xs"] ref(2) by (cases xs) auto
  with ref(2-5) queue_get_counts [OF x] ex x show ?thesis
    by (auto simp: ex_state_def same_shape_def)
qed

lemma ex_stats:
  "ex_state m xs a g c \<Longrightarrow> queue_print_stats (m_q m) =
     Inr [int (length xs), a, g, a - g, a, c, int (length xs)]"
  using wfq_stats [of m xs] by (auto simp: ex_state_def)

definition added_lines :: "int \<Rightarrow> out list" where
  "added_lines i = [Added 1 i, Stats [i + 1, i + 1, 0, i + 1, i + 1, 0, i + 1]]"

definition got_lines :: "int \<Rightarrow> out list" where
  "got_lines i =
     (if i < 10 then [Got 1 i, Stats [9 - i, 10, i + 1, 9 - i, 10, i + 1, 9 - i]]
      else [Got 0 (-1), Stats [0, 10, i + 1, 9 - i, 10, 10, 0]])"

lemma example_adds_lines:
  assumes "0 \<le> i" and "i \<le> 10" and "ex_state m [0 .. i - 1] i 0 0"
    and al: "alloc_fresh alloc" "never_null 10 alloc"
  shows "\<exists>m'. example_adds alloc i m = Inr (concat (map added_lines [i .. 9]), m') \<and>
    ex_state m' [0 .. 9] 10 0 0"
  using assms(1-3)
proof (induction "nat (10 - i)" arbitrary: i m)
  case 0
  then have "i = 10" by simp
  with 0 show ?case by (simp add: example_adds.simps)
next
  case (Suc k)
  then have i: "i < 10" by simp
  obtain m1 where m1: "queue_add alloc i m = Inr (1, m1)" "ex_state m1 ([0 .. i - 1] @ [i]) (i + 1) 0 0"
    using ex_add [OF Suc.prems(3) _ _ al, of i] i Suc.prems(1) by (auto simp: nat_less_iff)
  then have ex1: "ex_state m1 [0 .. (i + 1) - 1] (i + 1) 0 0" using upto_next [of 0 i] Suc.prems(1) by simp
  have "k = nat (10 - (i + 1))" "0 \<le> i + 1" "i + 1 \<le> 10" using Suc.hyps(2) Suc.prems(1) i by auto
  from Suc.hyps(1) [OF this ex1] obtain m' where m': "example_adds alloc (i + 1) m1 = Inr (concat (map added_lines [i + 1 .. 9]), m')"
      "ex_state m' [0 .. 9] 10 0 0"
    by blast
  have "[i .. 9] = i # [i + 1 .. 9]" using i by (simp add: upto_rec1)
  with i m1(1) m' ex_stats [OF ex1] Suc.prems(1) show ?case
    by (simp add: example_adds.simps [of alloc i] added_lines_def)
qed

lemma example_gets_lines:
  assumes "0 \<le> i" and "i \<le> 12" and "ex_state m [i .. 9] 10 i (min i 10)"
  shows "\<exists>m'. example_gets i m = Inr (concat (map got_lines [i .. 11]), m') \<and>
    ex_state m' [] 10 12 10"
  using assms
proof (induction "nat (12 - i)" arbitrary: i m)
  case 0
  then have "i = 12" by simp
  with 0 show ?case by (simp add: example_gets.simps)
next
  case (Suc k)
  then have i: "i < 12" by simp
  let ?r = "if i < 10 then 1 else 0 :: int"
  let ?v = "if i < 10 then i else - 1"
  have xs: "i < 10 \<Longrightarrow> [i .. 9] = i # [i + 1 .. 9]" "\<not> i < 10 \<Longrightarrow> [i .. 9] = []" "\<not> i < 10 \<Longrightarrow> [i + 1 .. 9] = []"
    by (simp_all add: upto_rec1)
  have sp: "spec_get (-1) [i .. 9] = (?r, ?v, [i + 1 .. 9])" "tl [i .. 9] = [i + 1 .. 9]"
    using xs by (cases "i < 10"; simp)+
  obtain m1 where m1: "queue_get (-1) m = Inr (?r, ?v, m1)"
      "ex_state m1 [i + 1 .. 9] 10 (i + 1) (min i 10 + ?r)"
    using ex_get [OF Suc.prems(3)] i sp by auto
  have mi: "min i 10 + ?r = min (i + 1) 10" by auto
  have "k = nat (12 - (i + 1))" "0 \<le> i + 1" "i + 1 \<le> 12" using Suc.hyps(2) Suc.prems(1) i by auto
  from Suc.hyps(1) [OF this m1(2) [unfolded mi]] obtain m' where m': "example_gets (i + 1) m1 = Inr (concat (map got_lines [i + 1 .. 11]), m')"
      "ex_state m' [] 10 12 10"
    by blast
  have "[i .. 11] = i # [i + 1 .. 11]" using i by (simp add: upto_rec1)
  moreover have "int (length [i + 1 .. 9]) = (if i < 10 then 9 - i else 0)" using i by auto
  ultimately show ?case using i m1(1) m' ex_stats [OF m1(2) [unfolded mi]] Suc.prems(1)
    by (auto simp: example_gets.simps [of i] got_lines_def min_def split: if_splits)
qed

text \<open>
  \<^verbatim>\<open>queue-example.c\<close> prints exactly this and leaks nothing: ten additions
  that succeed, ten removals that return 0, ..., 9 in order, two removals that fail and leave
  \<open>val\<close> as it was, each with the right statistics.
\<close>

lemma example_output:
  assumes "alloc_fresh alloc" and "never_null 10 alloc"
  shows "example_main alloc True 0 tid 0 =
    Some (Inr (concat (map added_lines [0 .. 9]) @ concat (map got_lines [0 .. 11]), Map.empty))"
proof -
  obtain q where q: "queue_init True 0 tid 1000 = Inr q" by (simp add: queue_init_def)
  then have "ex_state (fresh_mem q) [] 0 0 0"
    using queue_init_wf [OF _ _ q] by (auto simp: ex_state_def fresh_mem_def queue_init_def c_limits)
  then obtain m where m: "example_adds alloc 0 (fresh_mem q) = Inr (concat (map added_lines [0 .. 9]), m)"
      "ex_state m [0 .. 9] 10 0 0"
    using example_adds_lines [of 0 "fresh_mem q" alloc] assms by auto
  then obtain m' where m': "example_gets 0 m = Inr (concat (map got_lines [0 .. 11]), m')"
      "ex_state m' [] 10 12 10"
    using example_gets_lines [of 0 m] by auto
  have "wfq m' []" using m'(2) by (simp add: ex_state_def)
  from queue_destroy_frees_all [OF this] q m m' show ?thesis by (simp add: example_main_def)
qed

lemma example_output_witness:
  "\<exists>out. example_main (first_fit 10 wit_node) True 0 7 0 = Some (Inr (out, Map.empty)) \<and>
     take 2 out = [Added 1 0, Stats [1, 1, 0, 1, 1, 0, 1]]"
  using example_output [OF first_fit_fresh first_fit_never_null, of wit_node 7]
  by (auto simp: added_lines_def upto_rec1)

end
