(* ===== verification/QueueTypes.thy ===== *)
theory QueueTypes
  imports RaceQueue
begin

text \<open>
  The C types of the queue programs. Whatever the threads do to each other, with any protocol
  or none (\<^verbatim>\<open>lab2/1\<close>), every \<open>int\<close> and \<open>long\<close> variable and every temporary of the two threads and of
  the structure they share stays in the range of its type, and the counters never go below
  zero; so the monitor thread can print its statistics at any moment.
\<close>

section \<open>The monitor\<close>

text \<open>
  \<open>qmonitor\<close> when nobody moves while it prints: a turn of its loop prints the statistics of the
  structure as it is then. The argument is what the turns find. \<open>QueuePrograms\<close> has the thread that
  reads one field at a time.
\<close>

fun qmonitor :: "queue_t list \<Rightarrow> fault + int list list" where
  "qmonitor [] = Inr []"
| "qmonitor (q # qs) =
     bindr (queue_print_stats q) (\<lambda>line. bindr (qmonitor qs) (\<lambda>lines. Inr (line # lines)))"

section \<open>Typed states\<close>

definition int_typed :: "int \<Rightarrow> bool" where
  "int_typed x \<longleftrightarrow> INT_MIN \<le> x \<and> x \<le> INT_MAX"

definition count_typed :: "int \<Rightarrow> bool" where
  "count_typed x \<longleftrightarrow> 0 \<le> x \<and> x \<le> LONG_MAX"

definition q_typed :: "queue_t \<Rightarrow> bool" where
  "q_typed q \<longleftrightarrow> int_typed (q_count q) \<and> int_typed (q_max_count q) \<and>
     count_typed (q_add_attempts q) \<and> count_typed (q_get_attempts q) \<and>
     count_typed (q_add_count q) \<and> count_typed (q_get_count q)"

definition heap_typed :: "qnode heap \<Rightarrow> bool" where
  "heap_typed h \<longleftrightarrow> (\<forall>a n. h a = Some n \<longrightarrow> int_typed (n_val n))"

definition alloc_typed :: "qnode allocator \<Rightarrow> bool" where
  "alloc_typed alloc \<longleftrightarrow> (\<forall>k h a n. alloc k h = Some (a, n) \<longrightarrow> int_typed (n_val n))"

definition mem_typed :: "qmem \<Rightarrow> bool" where
  "mem_typed m \<longleftrightarrow> q_typed (m_q m) \<and> heap_typed (m_heap m)"

text \<open>The temporaries that are alive at a position.\<close>

fun add_typed :: "add_pc \<Rightarrow> bool" where
  "add_typed (Add_st_attempts r) = count_typed r" | "add_typed (Add_st_count r) = int_typed r"
| "add_typed (Add_st_added r) = count_typed r" | "add_typed (Add_ret r) = (r = 0 \<or> r = 1)"
| "add_typed _ = True"

fun get_typed :: "get_pc \<Rightarrow> bool" where
  "get_typed (Get_st_attempts r) = count_typed r" | "get_typed (Get_ld_first tmp v) = int_typed v"
| "get_typed (Get_first tmp v f) = int_typed v" | "get_typed (Get_free tmp v) = int_typed v"
| "get_typed (Get_ld_count v) = int_typed v" | "get_typed (Get_st_count v r) = (int_typed v \<and> int_typed r)"
| "get_typed (Get_ld_got v) = int_typed v" | "get_typed (Get_st_got v r) = (int_typed v \<and> count_typed r)"
| "get_typed (Get_ret r v) = ((r = 0 \<or> r = 1) \<and> int_typed v)" | "get_typed _ = True"

fun reader_typed :: "reader_pc \<Rightarrow> bool" where
  "reader_typed (R_body pc) = get_typed pc" | "reader_typed (R_exit r v) = ((r = 0 \<or> r = 1) \<and> int_typed v)"
| "reader_typed (R_test r v) = ((r = 0 \<or> r = 1) \<and> int_typed v)" | "reader_typed _ = True"

fun writer_typed :: "writer_pc \<Rightarrow> bool" where
  "writer_typed (W_body pc) = add_typed pc" | "writer_typed (W_exit r) = (r = 0 \<or> r = 1)"
| "writer_typed (W_test r) = (r = 0 \<or> r = 1)" | "writer_typed _ = True"

definition threads_typed :: "'y threads \<Rightarrow> bool" where
  "threads_typed s \<longleftrightarrow> mem_typed (t_mem s) \<and> int_typed (t_expected s) \<and> int_typed (t_i s) \<and>
     reader_typed (t_rpc s) \<and> writer_typed (t_wpc s)"

section \<open>The steps keep the types\<close>

lemma heap_typed_upd [intro]: "heap_typed h \<Longrightarrow> int_typed (n_val n) \<Longrightarrow> heap_typed (h(a \<mapsto> n))"
  by (simp add: heap_typed_def)

lemma heap_typed_free: "heap_typed h \<Longrightarrow> free h p = Inr h' \<Longrightarrow> heap_typed h'"
  by (cases p) (auto simp: heap_typed_def split: option.splits if_splits)

lemma heap_typed_store:
  "heap_typed h \<Longrightarrow> store h p f = Inr h' \<Longrightarrow> (\<And>n. int_typed (n_val n) \<Longrightarrow> int_typed (n_val (f n))) \<Longrightarrow> heap_typed h'"
  by (cases p) (auto simp: heap_typed_def split: option.splits if_splits)

lemma heap_typed_deref: "heap_typed h \<Longrightarrow> deref h p = Inr n \<Longrightarrow> int_typed (n_val n)"
  by (cases p) (auto simp: heap_typed_def split: option.splits)

lemma typed_incr:
  "count_typed r \<Longrightarrow> c_long (r + 1) = Inr x \<Longrightarrow> count_typed x"
  "c_int y = Inr x \<Longrightarrow> int_typed x"
  by (auto simp: count_typed_def int_typed_def outcome_simps)

lemma add_step_typed:
  assumes "mem_typed m" and "add_typed pc" and "int_typed v" and "alloc_typed alloc"
    and "add_step alloc v pc m = Inr (pc', m')"
  shows "mem_typed m' \<and> add_typed pc'"
proof (cases pc)
  case Add_malloc
  with assms show ?thesis
    by (auto simp: mem_typed_def alloc_typed_def simp del: fun_upd_apply intro!: heap_typed_upd split: option.splits)
next
  case (Add_val new)
  with assms(5) obtain h where h: "store (m_heap m) (Some new) (\<lambda>n. n\<lparr>n_val := v\<rparr>) = Inr h"
      "pc' = Add_next new" "m' = m\<lparr>m_heap := h\<rparr>" by (auto simp: bindr_Inr_iff simp del: store.simps)
  with assms(1,3) heap_typed_store [OF _ h(1)] show ?thesis by (simp add: mem_typed_def)
next
  case (Add_next new)
  with assms(5) obtain h where h: "store (m_heap m) (Some new) (\<lambda>n. n\<lparr>n_next := None\<rparr>) = Inr h"
      "pc' = Add_empty new" "m' = m\<lparr>m_heap := h\<rparr>" by (auto simp: bindr_Inr_iff simp del: store.simps)
  with assms(1,3) heap_typed_store [OF _ h(1)] show ?thesis by (simp add: mem_typed_def)
next
  case (Add_link new)
  with assms(5) obtain h where h: "store (m_heap m) (q_last (m_q m)) (\<lambda>n. n\<lparr>n_next := Some new\<rparr>) = Inr h"
      "pc' = Add_advance" "m' = m\<lparr>m_heap := h\<rparr>" by (auto simp: bindr_Inr_iff simp del: store.simps)
  with assms(1,3) heap_typed_store [OF _ h(1)] show ?thesis by (simp add: mem_typed_def)
qed (use assms in \<open>auto simp: mem_typed_def q_typed_def bindr_Inr_iff intro: typed_incr split: if_splits\<close>)

lemma get_step_typed:
  assumes "mem_typed m" and "get_typed pc" and "int_typed v0"
    and "get_step v0 pc m = Inr (pc', m')"
  shows "mem_typed m' \<and> get_typed pc'"
proof (cases pc)
  case (Get_free tmp v)
  with assms(4) obtain h where h: "free (m_heap m) tmp = Inr h" "pc' = Get_ld_count v" "m' = m\<lparr>m_heap := h\<rparr>"
    by (auto simp: bindr_Inr_iff simp del: free.simps)
  with assms(1,2) Get_free heap_typed_free [OF _ h(1)] show ?thesis by (simp add: mem_typed_def)
next
  case (Get_val tmp)
  with assms(4) obtain n where n: "deref (m_heap m) tmp = Inr n" "pc' = Get_ld_first tmp (n_val n)" "m' = m"
    by (auto simp: bindr_Inr_iff simp del: deref.simps)
  with assms(1) heap_typed_deref [OF _ n(1)] show ?thesis by (simp add: mem_typed_def)
qed (use assms in \<open>auto simp: mem_typed_def q_typed_def bindr_Inr_iff intro: typed_incr split: if_splits\<close>)


text \<open>The faults that the bodies can give, on any memory.\<close>

definition body_fault :: "fault \<Rightarrow> bool" where
  "body_fault e \<longleftrightarrow> e = SignedOverflow \<or> e = AssertFail \<or> e = NullDeref \<or> e = UseAfterFree \<or> e = oom"

lemma heap_faults:
  "store h p f = Inl e \<Longrightarrow> body_fault e" "deref h p = Inl e \<Longrightarrow> body_fault e" "free h p = Inl e \<Longrightarrow> body_fault e"
  by (cases p; auto simp: body_fault_def split: option.splits)+

lemma c_faults: "c_int x = Inl e \<Longrightarrow> body_fault e" "c_long x = Inl e \<Longrightarrow> body_fault e"
  by (auto simp: body_fault_def outcome_simps)

lemma body_faults:
  "add_step alloc v apc m = Inl e \<Longrightarrow> body_fault e"
  "get_step v0 gpc m = Inl e \<Longrightarrow> body_fault e"
proof -
  have oom: "body_fault (Abort ''Cannot allocate memory for new node'')" "body_fault AssertFail"
    by (simp_all add: body_fault_def oom_def)
  show "add_step alloc v apc m = Inl e \<Longrightarrow> body_fault e"
    by (cases apc)
      (auto simp: bindr_Inl_iff oom simp del: store.simps deref.simps free.simps
        intro: heap_faults c_faults split: if_splits option.splits)
  show "get_step v0 gpc m = Inl e \<Longrightarrow> body_fault e"
    by (cases gpc)
      (auto simp: bindr_Inl_iff oom simp del: store.simps deref.simps free.simps
        intro: heap_faults c_faults split: if_splits)
qed

lemma thread_faults: "threads_step P alloc s (Run r) = Inl e \<Longrightarrow> body_fault e"
proof (cases r)
  case Reader
  assume "threads_step P alloc s (Run r) = Inl e"
  with Reader show "body_fault e"
    by (cases "t_rpc s")
      (auto simp: bindr_Inl_iff Let_def split: if_splits option.splits intro: body_faults c_faults)
next
  case Writer
  assume "threads_step P alloc s (Run r) = Inl e"
  with Writer show "body_fault e"
    by (cases "t_wpc s")
      (auto simp: bindr_Inl_iff split: if_splits option.splits intro: body_faults c_faults)
qed

lemma reader_step_typed:
  assumes typed: "threads_typed s" and step: "reader_step P (t_rpc s) s = Inr t"
  shows "threads_typed t"
proof (cases "t_rpc s")
  case (R_body pc)
  show ?thesis
  proof (cases "get_ret pc")
    case None
    with step R_body obtain pc' m where m: "get_step (- 1) pc (t_mem s) = Inr (pc', m)"
        "t = s\<lparr>t_mem := m, t_rpc := R_body pc'\<rparr>" by (auto simp: outcome_simps)
    have "int_typed (- 1)" by (simp add: int_typed_def c_limits)
    with get_step_typed [OF _ _ this m(1)] typed R_body m(2) show ?thesis by (simp add: threads_typed_def)
  next
    case (Some r)
    with step R_body typed show ?thesis by (cases pc) (auto simp: threads_typed_def)
  qed
qed (use assms in \<open>auto simp: threads_typed_def bindr_Inr_iff Let_def intro: typed_incr split: if_splits\<close>)

lemma writer_step_typed:
  assumes typed: "threads_typed s" and al: "alloc_typed alloc" and step: "writer_step P alloc (t_wpc s) s = Inr t"
  shows "threads_typed t"
proof (cases "t_wpc s")
  case (W_body pc)
  show ?thesis
  proof (cases "add_ret pc")
    case None
    with step W_body obtain pc' m where m: "add_step alloc (t_i s) pc (t_mem s) = Inr (pc', m)"
        "t = s\<lparr>t_mem := m, t_wpc := W_body pc'\<rparr>" by (auto simp: outcome_simps)
    with add_step_typed [OF _ _ _ al m(1)] typed W_body show ?thesis by (simp add: threads_typed_def)
  next
    case (Some r)
    with step W_body typed show ?thesis by (cases pc) (auto simp: threads_typed_def)
  qed
qed (use assms in \<open>auto simp: threads_typed_def bindr_Inr_iff intro: typed_incr split: if_splits\<close>)

interpretation typed: invariant_of "threads_step P alloc"
    "\<lambda>s. alloc_typed alloc \<and> threads_typed s" "\<lambda>s. alloc_typed alloc \<and> threads_typed s"
  for P alloc
proof
  fix s e t
  assume "alloc_typed alloc \<and> threads_typed s" "threads_step P alloc s e = Inr t"
  then show "alloc_typed alloc \<and> threads_typed t"
    using reader_step_typed [of s P t] writer_step_typed [of s alloc P t]
    by (cases "(P, alloc, s, e)" rule: threads_step.cases) (auto simp: bindr_Inr_iff threads_typed_def)
qed

lemma start_typed:
  "queue_init malloc_ok create_err tid cap = Inr q \<Longrightarrow> int_typed cap \<Longrightarrow> threads_typed (threads_start y q)"
  by (auto simp: queue_init_def threads_typed_def threads_start_def mem_typed_def q_typed_def heap_typed_def
      fresh_mem_def int_typed_def count_typed_def c_limits split: if_splits)

lemma stats_typed: "q_typed q \<Longrightarrow> \<exists>line. queue_print_stats q = Inr line \<and> list_all (\<lambda>x. LONG_MIN \<le> x \<and> x \<le> LONG_MAX) line"
  by (auto simp: queue_print_stats_def q_typed_def count_typed_def int_typed_def c_long_def c_limits)

lemma qmonitor_typed:
  "list_all q_typed qs \<Longrightarrow>
     \<exists>lines. qmonitor qs = Inr lines \<and> length lines = length qs \<and>
       list_all (list_all (\<lambda>x. LONG_MIN \<le> x \<and> x \<le> LONG_MAX)) lines"
proof (induction qs)
  case (Cons q qs)
  with stats_typed [of q] show ?case by auto
qed simp

section \<open>Every reachable state\<close>

text \<open>
  With any protocol between the operations, or none, every variable of the two
  threads and of the queue is in the range of its C type in every reachable state, with the four
  statistics counters not negative. The only faults of the threads are signed overflow, a
  failed assertion, a null or dangling pointer and a failed \<open>malloc\<close>; and a monitor that read
  the structure at once would print seven numbers without overflow.
\<close>

theorem threads_stay_typed:
  assumes "queue_init malloc_ok create_err tid cap = Inr q" and "int_typed cap" and "alloc_typed alloc"
    and "list_all (reach (threads_step P alloc) (threads_start y q)) ss"
  shows "list_all threads_typed ss \<and>
    list_all (\<lambda>s. \<forall>r e. threads_step P alloc s (Run r) = Inl e \<longrightarrow>
      e \<in> {SignedOverflow, AssertFail, NullDeref, UseAfterFree, Abort ''Cannot allocate memory for new node''}) ss \<and>
    (\<exists>lines. qmonitor (map (\<lambda>s. m_q (t_mem s)) ss) = Inr lines \<and> length lines = length ss \<and>
      list_all (list_all (\<lambda>x. LONG_MIN \<le> x \<and> x \<le> LONG_MAX)) lines)"
proof -
  have typed: "threads_typed s" if "s \<in> set ss" for s
    using typed.reach_good [OF assms(4) [unfolded list_all_iff, rule_format, OF that]] start_typed [OF assms(1,2), of y] assms(3) by simp
  have "list_all (\<lambda>s. \<forall>r e. threads_step P alloc s (Run r) = Inl e \<longrightarrow>
      e \<in> {SignedOverflow, AssertFail, NullDeref, UseAfterFree, Abort ''Cannot allocate memory for new node''}) ss"
    using thread_faults by (fastforce simp: list_all_iff oom_def body_fault_def)
  moreover have "list_all q_typed (map (\<lambda>s. m_q (t_mem s)) ss)"
    using typed by (auto simp: list_all_iff threads_typed_def mem_typed_def)
  ultimately show ?thesis
    using typed qmonitor_typed [of "map (\<lambda>s. m_q (t_mem s)) ss"] by (simp add: list_all_iff)
qed

text \<open>The program of \<^verbatim>\<open>lab2/1\<close>, just before the writer follows a dangling pointer.\<close>

lemma threads_stay_typed_witness:
  "\<exists>s. race_step (bump_alloc wit_node) s (Run Writer) = Inl UseAfterFree \<and> threads_typed s \<and>
     (\<exists>lines. qmonitor [m_q (t_mem s)] = Inr lines)"
proof -
  obtain s0 where s0: "race_main 0 0 True 0 7 = Inr s0"
    by (simp add: race_eval)
  from s0 obtain s where s: "run (race_step (bump_alloc wit_node)) s0 dangling_schedule = Inr s"
      "race_step (bump_alloc wit_node) s (Run Writer) = Inl UseAfterFree"
    by (auto simp: race_eval dangling_schedule_def add_first_def)
  from s0 obtain q where q: "queue_init True 0 7 1000000 = Inr q" "s0 = threads_start (\<lambda>_. Outside) q"
    by (auto simp: race_main_def threads_main_def bindr_Inr_iff)
  have ty: "int_typed 1000000" "alloc_typed (bump_alloc wit_node)"
    by (auto simp: int_typed_def alloc_typed_def bump_alloc_def wit_node_def c_limits split: if_splits)
  have "reach (threads_step race_proto (bump_alloc wit_node)) (threads_start (\<lambda>_. Outside) q) s"
    using run_reach [OF s(1)] unfolding q(2) race_step_def .
  then have "list_all (reach (threads_step race_proto (bump_alloc wit_node)) (threads_start (\<lambda>_. Outside) q)) [s]"
    by simp
  note all = threads_stay_typed [OF q(1) ty this]
  from conjunct1 [OF all] have "threads_typed s" by simp
  moreover obtain lines where "qmonitor (map (\<lambda>s. m_q (t_mem s)) [s]) = Inr lines"
    using conjunct2 [OF conjunct2 [OF all]] by (elim exE conjE)
  then have "qmonitor [m_q (t_mem s)] = Inr lines" by (simp only: list.map)
  ultimately show ?thesis using s(2) by blast
qed

end
