(* ===== verification/Storage.thy ===== *)
theory Storage
  imports Prelude
begin

text \<open>
  \<^verbatim>\<open>lab2/3\<close>: the singly linked list of strings (\<^verbatim>\<open>queue.c\<close> of the three variants) and the
  function that compares two values. The variants differ in the type of the lock each node
  contains, which is a type parameter here; the threads are in \<open>StorageThreads\<close>.
\<close>

section \<open>Decimal strings\<close>

text \<open>\<open>sprintf\<close> with the format \<open>%d\<close> of a number that is not negative.\<close>

definition digit :: "nat \<Rightarrow> char" where
  "digit d = char_of (48 + d)"

fun decimal :: "nat \<Rightarrow> string" where
  "decimal n = (if n < 10 then [digit n] else decimal (n div 10) @ [digit (n mod 10)])"

declare decimal.simps [simp del]

fun number :: "string \<Rightarrow> nat" where
  "number s = foldl (\<lambda>n c. 10 * n + (of_char c - 48)) 0 s"

declare number.simps [simp del]

lemma digit_value: "d < 10 \<Longrightarrow> of_char (digit d) - (48 :: nat) = d"
  by (simp add: digit_def)

lemma number_snoc: "number (s @ [c]) = 10 * number s + (of_char c - 48)"
  by (simp add: number.simps)

lemma number_decimal: "number (decimal n) = n"
proof (induction n rule: decimal.induct)
  case (1 n)
  show ?case
  proof (cases "n < 10")
    case True
    then show ?thesis by (simp add: decimal.simps [of n] number.simps digit_value)
  next
    case False
    with 1 have "number (decimal (n div 10)) = n div 10" by simp
    with False show ?thesis
      by (simp add: decimal.simps [of n] number_snoc digit_value)
  qed
qed

lemma decimal_inj: "decimal m = decimal n \<longleftrightarrow> m = n"
  by (metis number_decimal)

lemma length_decimal: "n < 10 ^ Suc k \<Longrightarrow> length (decimal n) \<le> Suc k"
proof (induction k arbitrary: n)
  case 0
  then show ?case by (simp add: decimal.simps)
next
  case (Suc k)
  show ?case
  proof (cases "n < 10")
    case True
    then show ?thesis by (simp add: decimal.simps)
  next
    case False
    have "n div 10 < 10 ^ Suc k" using Suc.prems by (simp add: div_less_iff_less_mult mult.commute)
    from Suc.IH [OF this] False show ?thesis by (simp add: decimal.simps [of n])
  qed
qed

section \<open>Strings in fixed buffers\<close>

text \<open>Writing a string and its terminating NUL into an array of \<open>n\<close> characters.\<close>

definition copy_string :: "nat \<Rightarrow> string \<Rightarrow> fault + string" where
  "copy_string n s = (if length s < n then Inr s else Inl OutOfBounds)"

definition MAX_STRING_LENGTH :: nat where
  "MAX_STRING_LENGTH = 100"

section \<open>The storage\<close>

record 'l snode =
  s_value :: string
  s_next :: ptr
  s_lock :: 'l

text \<open>The \<open>Storage\<close> structure, the global \<open>storage_capacity\<close>, and the heap of nodes.\<close>

record 'l storage =
  s_first :: ptr
  s_capacity :: int
  s_heap :: "'l snode heap"
  s_mallocs :: nat

definition initialize_storage :: "bool \<Rightarrow> int \<Rightarrow> fault + 'l storage" where
  "initialize_storage malloc_ok capacity =
     (if \<not> malloc_ok then Inl (Abort ''Failed to allocate memory for a queue'')
      else Inr \<lparr>s_first = None, s_capacity = capacity, s_heap = Map.empty, s_mallocs = 0\<rparr>)"

text \<open>\<open>while (node->next != NULL) node = node->next\<close>: it may not end on a broken list.\<close>

partial_function (option) last_node :: "'l snode heap \<Rightarrow> ptr \<Rightarrow> (fault + ptr) option" where
  "last_node h node =
     (case deref h node of
        Inl e \<Rightarrow> Some (Inl e)
      | Inr n \<Rightarrow> if s_next n \<noteq> None then last_node h (s_next n) else Some (Inr node))"

text \<open>
  \<open>add_node\<close>: the new node is linked in first and filled afterwards, in this order; \<open>lock\<close> is
  the value the lock's initialiser gives.
\<close>

definition fill_node :: "'l \<Rightarrow> addr \<Rightarrow> string \<Rightarrow> 'l storage \<Rightarrow> fault + 'l storage" where
  "fill_node lock new value s =
     bindr (copy_string MAX_STRING_LENGTH value) (\<lambda>v.
     bindr (store (s_heap s) (Some new) (\<lambda>n. n\<lparr>s_value := v\<rparr>)) (\<lambda>h.
     bindr (store h (Some new) (\<lambda>n. n\<lparr>s_next := None\<rparr>)) (\<lambda>h.
     bindr (store h (Some new) (\<lambda>n. n\<lparr>s_lock := lock\<rparr>)) (\<lambda>h.
     Inr (s\<lparr>s_heap := h\<rparr>)))))"

definition add_node ::
  "'l snode allocator \<Rightarrow> 'l \<Rightarrow> string \<Rightarrow> 'l storage \<Rightarrow> (fault + 'l storage) option" where
  "add_node alloc lock value s =
     (case alloc (s_mallocs s) (s_heap s) of
        None \<Rightarrow> Some (Inl (Exit 1))
      | Some (new, junk) \<Rightarrow>
          (let s = s\<lparr>s_heap := (s_heap s)(new \<mapsto> junk), s_mallocs := Suc (s_mallocs s)\<rparr> in
           if s_first s \<noteq> None then
             (case last_node (s_heap s) (s_first s) of
                None \<Rightarrow> None
              | Some (Inl e) \<Rightarrow> Some (Inl e)
              | Some (Inr node) \<Rightarrow>
                  Some (bindr (store (s_heap s) node (\<lambda>n. n\<lparr>s_next := Some new\<rparr>)) (\<lambda>h.
                        fill_node lock new value (s\<lparr>s_heap := h\<rparr>))))
           else Some (fill_node lock new value (s\<lparr>s_first := Some new\<rparr>))))"

text \<open>\<open>fill_storage\<close>, whose buffer has ten characters. The loop variable is an \<open>int\<close>.\<close>

function fill_loop ::
  "'l snode allocator \<Rightarrow> 'l \<Rightarrow> int \<Rightarrow> 'l storage \<Rightarrow> (fault + 'l storage) option" where
  "fill_loop alloc lock i s =
     (if i < s_capacity s then
        (case copy_string 10 (decimal (nat (i mod s_capacity s))) of
           Inl e \<Rightarrow> Some (Inl e)
         | Inr buff \<Rightarrow>
             (case add_node alloc lock buff s of
                None \<Rightarrow> None
              | Some (Inl e) \<Rightarrow> Some (Inl e)
              | Some (Inr s') \<Rightarrow> fill_loop alloc lock (i + 1) (s'\<lparr>s_capacity := s_capacity s\<rparr>)))
      else Some (Inr s))"
  by pat_completeness auto
termination
  by (relation "measure (\<lambda>(alloc, lock, i, s). nat (s_capacity s - i))") auto

declare fill_loop.simps [simp del]

definition fill_storage ::
  "'l snode allocator \<Rightarrow> 'l \<Rightarrow> 'l storage \<Rightarrow> (fault + 'l storage) option" where
  "fill_storage alloc lock s = fill_loop alloc lock 0 s"

text \<open>The strings \<open>print_storage\<close> prints.\<close>

partial_function (option) print_nodes :: "'l snode heap \<Rightarrow> ptr \<Rightarrow> (fault + string list) option" where
  "print_nodes h current =
     (if current \<noteq> None then
        (case deref h current of
           Inl e \<Rightarrow> Some (Inl e)
         | Inr n \<Rightarrow>
             Option.bind (print_nodes h (s_next n)) (\<lambda>r.
             Some (bindr r (\<lambda>rest. Inr (s_value n # rest)))))
      else Some (Inr []))"

definition print_storage :: "'l storage \<Rightarrow> (fault + string list) option" where
  "print_storage s = print_nodes (s_heap s) (s_first s)"

section \<open>compare_nodes\<close>

definition ASC :: int where "ASC = 0"
definition DESC :: int where "DESC = 1"
definition EQ :: int where "EQ = 2"

definition compare_nodes :: "string \<Rightarrow> string \<Rightarrow> int \<Rightarrow> int" where
  "compare_nodes value1 value2 operation =
     (if operation = ASC \<and> length value1 < length value2 \<or>
         operation = DESC \<and> length value1 > length value2 \<or>
         operation = EQ \<and> length value1 = length value2
      then 1 else 0)"

text \<open>
  For the three operations exactly one comparison counts any pair, and swapping
  the operands exchanges the first two. The threads pass the address of their counter as the
  operation; for any address that is none of 0, 1, 2 no pair is ever counted.
\<close>

lemma compare_nodes_correct:
  "compare_nodes v w ASC + compare_nodes v w DESC + compare_nodes v w EQ = 1 \<and>
   compare_nodes v w ASC = compare_nodes w v DESC \<and>
   compare_nodes v w EQ = compare_nodes w v EQ \<and>
   (\<forall>counter. counter \<notin> {0, 1, 2} \<longrightarrow> compare_nodes v w counter = 0)"
  by (auto simp: compare_nodes_def ASC_def DESC_def EQ_def)

section \<open>Building the list\<close>

definition svals :: "'l snode heap \<Rightarrow> addr list \<Rightarrow> string list" where
  "svals h as = List.map (\<lambda>a. case h a of None \<Rightarrow> [] | Some n \<Rightarrow> s_value n) as"

text \<open>The nodes \<open>as\<close> form the list of the strings \<open>vs\<close>, all unlocked, and nothing else is allocated.\<close>

definition wf_storage :: "'l \<Rightarrow> 'l storage \<Rightarrow> addr list \<Rightarrow> string list \<Rightarrow> bool" where
  "wf_storage lock s as vs \<longleftrightarrow>
     chain s_next (s_heap s) (s_first s) as \<and> dom (s_heap s) = set as \<and> svals (s_heap s) as = vs \<and>
     (\<forall>a n. s_heap s a = Some n \<longrightarrow> s_lock n = lock)"

lemma svals_append [simp]: "svals h (as @ bs) = svals h as @ svals h bs"
  by (simp add: svals_def)

lemma svals_upd [simp]: "a \<notin> set as \<Longrightarrow> svals (h(a := x)) as = svals h as"
  by (auto simp: svals_def)

lemma last_node_chain:
  "chain s_next h p (as @ [a]) \<Longrightarrow> last_node h p = Some (Inr (Some a))"
proof (induction as arbitrary: p)
  case Nil
  then show ?case by (auto simp: last_node.simps [of h "Some a"])
next
  case (Cons b as)
  then obtain n where n: "p = Some b" "h b = Some n" "chain s_next h (s_next n) (as @ [a])" by auto
  then have "s_next n \<noteq> None" by (cases as) auto
  with n Cons.IH [OF n(3)] show ?case by (simp add: last_node.simps [of h "Some b"])
qed

lemma fill_node_new:
  assumes "length value < 100" and "s_heap s new = Some n"
  shows "fill_node lock new value s =
    Inr (s\<lparr>s_heap := (s_heap s)(new \<mapsto> n\<lparr>s_value := value, s_next := None, s_lock := lock\<rparr>)\<rparr>)"
  using assms by (simp add: fill_node_def copy_string_def MAX_STRING_LENGTH_def)

lemma add_node_appends:
  assumes wf: "wf_storage lock s as vs" and len: "length value < 100"
    and al: "alloc_fresh alloc" "alloc (s_mallocs s) (s_heap s) = Some (new, junk)"
  shows "\<exists>s'. add_node alloc lock value s = Some (Inr s') \<and> wf_storage lock s' (as @ [new]) (vs @ [value]) \<and>
    s_capacity s' = s_capacity s"
proof -
  let ?new = "junk\<lparr>s_value := value, s_next := None, s_lock := lock\<rparr>"
  have fresh: "s_heap s new = None" using alloc_freshD [OF al] .
  from wf have ch: "chain s_next (s_heap s) (s_first s) as" and d: "dom (s_heap s) = set as"
    by (auto simp: wf_storage_def)
  have notin: "new \<notin> set as" using fresh d by auto
  show ?thesis
  proof (cases as rule: rev_cases)
    case Nil
    with ch have "s_first s = None" by simp
    moreover have "s_heap s = Map.empty" using d Nil by simp
    ultimately show ?thesis using wf al len Nil
      by (auto simp: add_node_def Let_def fill_node_new wf_storage_def svals_def)
  next
    case (snoc bs l)
    let ?h = "(s_heap s)(new \<mapsto> junk)"
    from ch snoc obtain n where n: "s_heap s l = Some n" "s_next n = None" by (auto simp: seg_snoc)
    have ch': "chain s_next ?h (s_first s) (bs @ [l])" using ch notin snoc by simp
    have "distinct as" using ch by (rule chain_distinct)
    then have l: "l \<notin> set bs" "new \<noteq> l" "new \<notin> set bs" using snoc notin by auto
    have first: "s_first s \<noteq> None" using ch snoc by (cases bs) auto
    let ?s' = "s\<lparr>s_mallocs := Suc (s_mallocs s), s_heap := (s_heap s)(l \<mapsto> n\<lparr>s_next := Some new\<rparr>, new \<mapsto> ?new)\<rparr>"
    have "add_node alloc lock value s = Some (Inr ?s')"
      using al first last_node_chain [OF ch'] n l len
      by (simp add: add_node_def Let_def fill_node_new fun_upd_twist)
    moreover have "wf_storage lock ?s' (as @ [new]) (vs @ [value])"
      using wf snoc n l by (auto simp: wf_storage_def chain_simps svals_def)
    ultimately show ?thesis by auto
  qed
qed

lemma fill_loop_fills:
  assumes "0 \<le> i" and "i \<le> s_capacity s" and cap: "s_capacity s \<le> 10 ^ 9"
    and "wf_storage lock s as (map (decimal \<circ> nat) [0 .. i - 1])"
    and al: "alloc_fresh alloc" "never_null (nat (s_capacity s)) alloc"
  shows "\<exists>s' bs. fill_loop alloc lock i s = Some (Inr s') \<and>
    wf_storage lock s' bs (map (decimal \<circ> nat) [0 .. s_capacity s - 1])"
  using assms
proof (induction "nat (s_capacity s - i)" arbitrary: i s as)
  case 0
  then have "i = s_capacity s" by simp
  with 0 show ?case by (auto simp: fill_loop.simps)
next
  case (Suc k)
  then have i: "i < s_capacity s" by simp
  let ?v = "decimal (nat i)"
  have "nat i < 10 ^ Suc 8" using i Suc.prems(1,3) by (simp add: nat_less_iff)
  then have len: "length ?v \<le> 9" using length_decimal [of "nat i" 8] by simp
  have "length as = nat i"
    using Suc.prems(4) by (auto simp: wf_storage_def svals_def dest!: arg_cong [where f = length])
  then have "card (dom (s_heap s)) < nat (s_capacity s)" "finite (dom (s_heap s))"
    using Suc.prems(1,4) i card_length [of as] by (auto simp: wf_storage_def)
  then obtain new junk where new: "alloc (s_mallocs s) (s_heap s) = Some (new, junk)"
    using Suc.prems(6) unfolding never_null_def by fastforce
  obtain s1 where s1: "add_node alloc lock ?v s = Some (Inr s1)" "s_capacity s1 = s_capacity s"
      "wf_storage lock s1 (as @ [new]) (map (decimal \<circ> nat) [0 .. i - 1] @ [?v])"
    using add_node_appends [OF Suc.prems(4) _ Suc.prems(5) new, of ?v] len by auto
  have "[0 .. i + 1 - 1] = [0 .. i - 1] @ [i]" using Suc.prems(1) by (simp add: upto_rec2)
  then have wf1: "wf_storage lock s1 (as @ [new]) (map (decimal \<circ> nat) [0 .. i + 1 - 1])" using s1(3) by simp
  have "k = nat (s_capacity s1 - (i + 1))" "0 \<le> i + 1" "i + 1 \<le> s_capacity s1"
      "s_capacity s1 \<le> 10 ^ 9" "never_null (nat (s_capacity s1)) alloc"
    using Suc.hyps(2) Suc.prems s1(2) i by simp_all
  from Suc.hyps(1) [OF this(1-4) wf1 Suc.prems(5) this(5)] obtain s' bs where "fill_loop alloc lock (i + 1) s1 = Some (Inr s')"
      "wf_storage lock s' bs (map (decimal \<circ> nat) [0 .. s_capacity s - 1])"
    unfolding s1(2) by blast
  moreover have "s1\<lparr>s_capacity := s_capacity s\<rparr> = s1" using s1(2) by simp
  moreover have "i mod s_capacity s = i" using i Suc.prems(1) by simp
  ultimately show ?case using i s1(1) len
    by (auto simp: fill_loop.simps [of alloc lock i s] copy_string_def)
qed

lemma print_nodes_chain: "chain s_next h p as \<Longrightarrow> print_nodes h p = Some (Inr (svals h as))"
proof (induction as arbitrary: p)
  case Nil
  then show ?case by (simp add: print_nodes.simps svals_def)
next
  case (Cons a as)
  then show ?case by (auto simp: print_nodes.simps [of h "Some a"] svals_def)
qed

text \<open>
  Property C35. \<open>initialize_storage\<close> and \<open>fill_storage\<close> return for every capacity up to
  10^9 and build the list of the decimal numbers from 0 to the capacity minus one in order,
  without overrunning a buffer, and \<open>print_storage\<close> returns and prints exactly these. The
  loops end and no node is lost.
\<close>

theorem storage_filled:
  assumes "0 \<le> cap" and "cap \<le> 10 ^ 9" and "alloc_fresh alloc" and "never_null (nat cap) alloc"
  shows "\<exists>s s'. initialize_storage True cap = Inr s \<and> fill_storage alloc lock s = Some (Inr s') \<and>
    print_storage s' = Some (Inr (map (decimal \<circ> nat) [0 .. cap - 1])) \<and>
    finite (dom (s_heap s')) \<and> card (dom (s_heap s')) = nat cap"
proof -
  obtain s :: "'a storage" where s: "initialize_storage True cap = Inr s" "s_capacity s = cap"
      "wf_storage lock s [] []"
    by (simp add: initialize_storage_def wf_storage_def svals_def)
  then obtain s' bs where s': "fill_storage alloc lock s = Some (Inr s')"
      "wf_storage lock s' bs (map (decimal \<circ> nat) [0 .. cap - 1])"
    using fill_loop_fills [of 0 s lock "[]" alloc] assms by (auto simp: fill_storage_def)
  then have ch: "chain s_next (s_heap s') (s_first s') bs" and d: "dom (s_heap s') = set bs"
      and v: "svals (s_heap s') bs = map (decimal \<circ> nat) [0 .. cap - 1]"
    by (auto simp: wf_storage_def)
  have "length bs = nat cap" using arg_cong [OF v, of length] by (simp add: svals_def)
  moreover have "distinct bs" using ch by (rule chain_distinct)
  ultimately have "card (dom (s_heap s')) = nat cap" using d by (simp add: distinct_card)
  with s(1) s'(1) d print_nodes_chain [OF ch] v show ?thesis
    by (intro exI [of _ s] exI [of _ s']) (simp add: print_storage_def)
qed

lemma storage_filled_witness:
  "\<exists>s s'. initialize_storage True 3 = Inr s \<and>
     fill_storage (first_fit 3 \<lparr>s_value = '''', s_next = Some 9, s_lock = True\<rparr>) False s = Some (Inr s') \<and>
     print_storage s' = Some (Inr [''0'', ''1'', ''2''])"
proof -
  have d: "map (decimal \<circ> nat) [0 .. 3 - 1] = [''0'', ''1'', ''2'']"
    by (simp add: upto_rec1 decimal.simps digit_def char_of_def bit_simps)
  have "\<exists>s s'. initialize_storage True 3 = Inr s \<and>
      fill_storage (first_fit 3 \<lparr>s_value = '''', s_next = Some 9, s_lock = True\<rparr>) False s = Some (Inr s') \<and>
      print_storage s' = Some (Inr (map (decimal \<circ> nat) [0 .. 3 - 1])) \<and>
      finite (dom (s_heap s')) \<and> card (dom (s_heap s')) = nat 3"
    by (rule storage_filled) (simp_all add: first_fit_fresh first_fit_never_null)
  then show ?thesis unfolding d by blast
qed

end
