(* ===== verification/Monitors.thy ===== *)
theory Monitors
  imports Prelude
begin

text \<open>
  A thread that prints the fields of a structure which other threads change: it loads them one
  at a time, in any order and without a lock, and prints what it has loaded. Two programs
  have such a thread, the queues and the storage. A field that nobody ever decreases gives
  numbers that never decrease from line to line.
\<close>

section \<open>Loading\<close>

text \<open>The values loaded so far; \<open>load_field fields k\<close> loads the \<open>k\<close>-th if that has not been done.\<close>

definition load_field :: "int list \<Rightarrow> nat \<Rightarrow> int option list \<Rightarrow> int option list" where
  "load_field fields k ls =
     (if k < length ls \<and> ls ! k = None then ls[k := Some (fields ! k)] else ls)"

lemma length_load_field [simp]: "length (load_field fields k ls) = length ls"
  by (simp add: load_field_def)

lemma load_field_new: "load_field fields k ls ! i = Some x \<Longrightarrow> ls ! i = Some x \<or> x = fields ! i"
  by (cases "i = k") (auto simp: load_field_def split: if_splits)

lemma all_loaded: "None \<notin> set ls \<Longrightarrow> k < length ls \<Longrightarrow> ls ! k = Some (map the ls ! k)"
  by (metis nth_map nth_mem option.collapse)

text \<open>Loads that nobody interrupts load the fields as they are, in any order.\<close>

lemma load_all:
  assumes "distinct ks" and "set ks \<subseteq> {..<length ls}"
    and "\<forall>k<length ls. ls ! k = (if k \<in> set ks then None else Some (fields ! k))" and "length fields = length ls"
  shows "foldl (\<lambda>ls k. load_field fields k ls) ls ks = map Some fields"
  using assms
proof (induction ks arbitrary: ls)
  case Nil
  then show ?case by (auto simp: list_eq_iff_nth_eq)
next
  case (Cons k ks)
  then have k: "k < length ls" "ls ! k = None" by auto
  then have "\<forall>i<length ls. load_field fields k ls ! i = (if i \<in> set ks then None else Some (fields ! i))"
    using Cons.prems(1,3) by (auto simp: load_field_def nth_list_update)
  with Cons.IH [of "load_field fields k ls"] Cons.prems show ?case by simp
qed

section \<open>Fields that only grow\<close>

definition pick :: "nat list \<Rightarrow> 'a list \<Rightarrow> 'a list" where
  "pick ks xs = map ((!) xs) ks"

definition below :: "int list \<Rightarrow> int list \<Rightarrow> bool" where
  "below xs ys \<longleftrightarrow> list_all2 (\<le>) xs ys"

lemma below_refl [simp]: "below xs xs"
  by (simp add: below_def list_all2_refl)

lemma below_trans: "below xs ys \<Longrightarrow> below ys zs \<Longrightarrow> below xs zs"
  unfolding below_def by (erule list_all2_trans [rotated], assumption) simp

text \<open>
  \<open>watching ks los ls hi\<close>: among the fields \<open>ks\<close>, what has been loaded is not below the lines \<open>los\<close>
  printed before, nor above the present values \<open>hi\<close>. \<open>watched los hi\<close>: the lines are in order.
\<close>

definition fits :: "(int \<Rightarrow> int \<Rightarrow> bool) \<Rightarrow> nat list \<Rightarrow> int list \<Rightarrow> int option list \<Rightarrow> bool" where
  "fits R ks xs ls \<longleftrightarrow> list_all2 (\<lambda>x l. \<forall>v. l = Some v \<longrightarrow> R x v) xs (pick ks ls)"

definition watching :: "nat list \<Rightarrow> int list list \<Rightarrow> int option list \<Rightarrow> int list \<Rightarrow> bool" where
  "watching ks los ls hi \<longleftrightarrow> (\<forall>lo\<in>set los. fits (\<le>) ks lo ls) \<and> fits (\<ge>) ks hi ls"

definition watched :: "int list list \<Rightarrow> int list \<Rightarrow> bool" where
  "watched los hi \<longleftrightarrow> sorted_wrt below los \<and> (\<forall>lo\<in>set los. below lo hi)"

lemma below_length: "below xs ys \<Longrightarrow> length xs = length ys"
  by (simp add: below_def list_all2_lengthD)

lemma fits_iff:
  "fits R ks xs ls \<longleftrightarrow> length xs = length ks \<and>
     (\<forall>i<length ks. \<forall>v. ls ! (ks ! i) = Some v \<longrightarrow> R (xs ! i) v)"
  by (auto simp: fits_def pick_def list_all2_conv_all_nth)

lemma below_pick: "below xs (pick ks ys) \<longleftrightarrow> length xs = length ks \<and> (\<forall>i<length ks. xs ! i \<le> ys ! (ks ! i))"
  by (auto simp: below_def pick_def list_all2_conv_all_nth)

lemma fits_load:
  assumes "fits R ks xs ls" and "\<forall>i<length ks. R (xs ! i) (fields ! (ks ! i))"
  shows "fits R ks xs (load_field fields k ls)"
  using assms unfolding fits_iff by (metis load_field_new)

lemma fits_all:
  assumes "fits R ks xs ls" and "None \<notin> set ls" and "set ks \<subseteq> {..<length ls}"
  shows "length xs = length ks \<and> (\<forall>i<length ks. R (xs ! i) (map the ls ! (ks ! i)))"
proof -
  have "ls ! (ks ! i) = Some (map the ls ! (ks ! i))" if "i < length ks" for i
    using all_loaded [OF assms(2)] assms(3) that by (auto simp del: nth_map dest: nth_mem)
  with assms(1) show ?thesis unfolding fits_iff by blast
qed

lemma watched_grows: "watched los hi \<Longrightarrow> below hi hi' \<Longrightarrow> watched los hi'"
  unfolding watched_def by (blast intro: below_trans)

lemma watching_grows:
  assumes "watching ks los ls hi" and "below hi hi'"
  shows "watching ks los ls hi'"
proof -
  have len: "length hi' = length ks" and le: "\<forall>i<length ks. hi ! i \<le> hi' ! i"
    using assms by (auto simp: below_def list_all2_conv_all_nth watching_def fits_iff)
  have "v \<le> hi' ! i" if "i < length ks" "ls ! (ks ! i) = Some v" for i v
    using assms(1) that le order_trans [of v "hi ! i" "hi' ! i"] unfolding watching_def fits_iff by blast
  with len assms(1) show ?thesis unfolding watching_def fits_iff by blast
qed

lemma watching_empty:
  assumes "watched los hi" and "length hi = length ks" and "set ks \<subseteq> {..<n}"
  shows "watching ks los (replicate n None) hi"
proof -
  have none: "replicate n (None :: int option) ! (ks ! i) = None" if "i < length ks" for i
    using assms(3) nth_mem [OF that] by auto
  have "length lo = length ks" if "lo \<in> set los" for lo
    using assms(1,2) below_length [of lo hi] that by (simp add: watched_def)
  with assms(2) none show ?thesis by (auto simp: watching_def fits_iff)
qed

lemma watching_load:
  assumes "watched los (pick ks fields)" and "watching ks los ls (pick ks fields)"
  shows "watching ks los (load_field fields k ls) (pick ks fields)"
  unfolding watching_def
proof (intro conjI ballI fits_load)
  show "fits (\<ge>) ks (pick ks fields) ls" using assms(2) by (simp add: watching_def)
  fix lo assume lo: "lo \<in> set los"
  then show "fits (\<le>) ks lo ls" using assms(2) by (simp add: watching_def)
  from lo assms(1) show "\<forall>i<length ks. lo ! i \<le> fields ! (ks ! i)" by (auto simp: watched_def below_pick)
qed (simp add: pick_def)

lemma watched_line:
  assumes "watched los hi" and "watching ks los ls hi" and "None \<notin> set ls" and "set ks \<subseteq> {..<length ls}"
  shows "watched (los @ [pick ks (map the ls)]) hi"
proof -
  have "below lo (pick ks (map the ls))" if "lo \<in> set los" for lo
    using fits_all [OF _ assms(3,4), of "(\<le>)" lo] assms(2) that unfolding watching_def below_pick by blast
  moreover have "below (pick ks (map the ls)) hi"
    using fits_all [OF _ assms(3,4), of "(\<ge>)" hi] assms(2)
    unfolding watching_def by (simp add: below_def pick_def list_all2_conv_all_nth)
  ultimately show ?thesis using assms(1) by (auto simp: watched_def sorted_wrt_append)
qed

end
