(* ===== verification/QueuePrograms.thy ===== *)
theory QueuePrograms
  imports QueueTypes Storage Monitors
begin

text \<open>
  The queue programs as a whole: \<open>main\<close>, the reader, the writer and the monitor thread that
  \<open>queue_init\<close> starts, with all they print. \<open>main\<close> creates the threads one after the other, each
  begins with its identifiers and \<open>set_cpu\<close>, and the monitor reads the structure without any lock,
  one field at a time, while the others work on it. The reader and the writer of \<open>Threads\<close> are
  shown to run in the whole program exactly as they run alone.
\<close>

section \<open>Output\<close>

text \<open>
  A line of the output; \<open>line_text\<close> is its text, without the newline. Each is one call of
  \<open>printf\<close>, which locks the stream; \<open>dif\<close> stands before the differences in the statistics, nothing
  in \<^verbatim>\<open>lab2/1\<close> and \<open>(dif:)\<close> in \<^verbatim>\<open>lab2/2\<close>. A line that ends with the text of \<open>strerror\<close> ends here where that begins.
\<close>

datatype qline =
    Ids string nat nat nat
  | Cpu_set nat
  | Cpu_failed nat
  | Create_failed
  | Error int int
  | Statistics "int list"

fun int_text :: "int \<Rightarrow> string" where
  "int_text x = (if x < 0 then ''-'' @ decimal (nat (- x)) else decimal (nat x))"

definition RED :: string where
  "RED = char_of (27 :: nat) # ''[41m''"

definition NOCOLOR :: string where
  "NOCOLOR = char_of (27 :: nat) # ''[0m''"

fun line_text :: "string \<Rightarrow> qline \<Rightarrow> string" where
  "line_text dif (Ids who pid ppid tid) =
     who @ '' ['' @ decimal pid @ '' '' @ decimal ppid @ '' '' @ decimal tid @ '']''"
| "line_text dif (Cpu_set n) = ''set_cpu: set cpu '' @ decimal n"
| "line_text dif (Cpu_failed n) = ''set_cpu: pthread_setaffinity failed for cpu '' @ decimal n"
| "line_text dif Create_failed = ''main: pthread_create() failed: ''"
| "line_text dif (Error val expected) =
     RED @ ''ERROR: get value is '' @ int_text val @ '' but expected - '' @ int_text expected @ NOCOLOR"
| "line_text dif (Statistics xs) =
     ''queue stats: current size '' @ int_text (xs ! 0) @
     ''; attempts: ('' @ int_text (xs ! 1) @ '' '' @ int_text (xs ! 2) @ '' '' @ dif @ int_text (xs ! 3) @
     ''); counts ('' @ int_text (xs ! 4) @ '' '' @ int_text (xs ! 5) @ '' '' @ dif @ int_text (xs ! 6) @ '')''"

section \<open>The monitor, one load at a time\<close>

text \<open>
  What the system gives the program: identifiers, the results of \<open>pthread_setaffinity_np\<close> (for a
  thread and a set of processors) and of \<open>pthread_create\<close> in \<open>main\<close>.
\<close>

record env =
  env_pid :: nat
  env_ppid :: nat
  env_main :: nat
  env_monitor :: nat
  env_tid :: "role \<Rightarrow> nat"
  env_setaffinity :: "role \<Rightarrow> nat set \<Rightarrow> int"
  env_create :: "role \<Rightarrow> int"

text \<open>
  The call of \<open>printf\<close> in \<open>queue_print_stats\<close> has nine loads of fields in its arguments. C leaves
  the order open in which arguments are evaluated, so the list of loaded values is filled in
  any order: an event chooses the next one.
\<close>

definition stats_fields :: "queue_t \<Rightarrow> int list" where
  "stats_fields q =
     [q_count q,
      q_add_attempts q, q_get_attempts q, q_add_attempts q, q_get_attempts q,
      q_add_count q, q_get_count q, q_add_count q, q_get_count q]"

definition stats_values :: "int list \<Rightarrow> fault + int list" where
  "stats_values xs =
     bindr (c_long (xs ! 3 - xs ! 4)) (\<lambda>da.
     bindr (c_long (xs ! 7 - xs ! 8)) (\<lambda>dc.
     Inr [xs ! 0, xs ! 1, xs ! 2, da, xs ! 5, xs ! 6, dc]))"

datatype mon_pc =
    Mon_hello
  | Mon_load "int option list"
  | Mon_sleep

fun monitor_step :: "env \<Rightarrow> nat \<Rightarrow> mon_pc \<Rightarrow> queue_t \<Rightarrow> fault + mon_pc \<times> qline list" where
  "monitor_step env k Mon_hello q =
     Inr (Mon_load (replicate 9 None), [Ids ''qmonitor:'' (env_pid env) (env_ppid env) (env_monitor env)])"
| "monitor_step env k (Mon_load ls) q =
     (if None \<notin> set ls then bindr (stats_values (map the ls)) (\<lambda>xs. Inr (Mon_sleep, [Statistics xs]))
      else Inr (Mon_load (load_field (stats_fields q) k ls), []))"
| "monitor_step env k Mon_sleep q = Inr (Mon_load (replicate 9 None), [])"

section \<open>The program\<close>

text \<open>
  \<open>set_cpu\<close>: the line it prints, and the set of processors the thread is bound to from then
  on (None is the set it inherits).
\<close>

definition set_cpu :: "(nat set \<Rightarrow> int) \<Rightarrow> nat \<Rightarrow> qline \<times> nat set option" where
  "set_cpu setaffinity n =
     (let cpuset = insert n {} in
      if setaffinity cpuset \<noteq> 0 then (Cpu_failed n, None) else (Cpu_set n, Some cpuset))"

datatype stage = Absent | Greeting | Binding | Looping

datatype main_pc = Creating role | Joining | Returned int

record 'y qprog =
  u_main :: main_pc
  u_stage :: "role \<Rightarrow> stage"
  u_cpus :: "role \<Rightarrow> nat set option"
  u_threads :: "'y threads"
  u_mon :: mon_pc
  u_out :: "qline list"

datatype 'e qevent = Main_step | Monitor_step nat | Thread_step role | Sync_step 'e

fun role_name :: "role \<Rightarrow> string" where
  "role_name Reader = ''reader''"
| "role_name Writer = ''writer''"

text \<open>
  \<open>main\<close> after \<open>queue_init\<close>. The threads never return, so \<open>pthread_join\<close> does not either; a failed
  \<open>pthread_create\<close> returns from \<open>main\<close>, which ends the process with all its threads.
\<close>

fun qmain_step :: "env \<Rightarrow> main_pc \<Rightarrow> 'y qprog \<Rightarrow> 'y qprog" where
  "qmain_step env (Creating r) s =
     (if env_create env r \<noteq> 0 then s\<lparr>u_out := u_out s @ [Create_failed], u_main := Returned (- 1)\<rparr>
      else s\<lparr>u_stage := (u_stage s)(r := Greeting),
             u_main := (case r of Reader \<Rightarrow> Creating Writer | Writer \<Rightarrow> Joining)\<rparr>)"
| "qmain_step env Joining s = s"
| "qmain_step env (Returned c) s = s"

text \<open>
  The reader and the writer: the start of the function, then the loop, whose steps are those of
  \<open>threads_step\<close>. The ERROR lines are printed as the loop finds them.
\<close>

definition new_errors :: "'y threads \<Rightarrow> 'y threads \<Rightarrow> qline list" where
  "new_errors t t' = map (\<lambda>(val, expected). Error val expected) (drop (length (t_errors t)) (t_errors t'))"

fun role_step ::
  "env \<Rightarrow> (role \<Rightarrow> nat) \<Rightarrow> ('y, role, 'e) proto \<Rightarrow> qnode allocator \<Rightarrow> stage \<Rightarrow> role \<Rightarrow>
   'y qprog \<Rightarrow> fault + 'y qprog" where
  "role_step env cpu P alloc Absent r s = Inr s"
| "role_step env cpu P alloc Greeting r s =
     Inr (s\<lparr>u_out := u_out s @ [Ids (role_name r) (env_pid env) (env_ppid env) (env_tid env r)],
            u_stage := (u_stage s)(r := Binding)\<rparr>)"
| "role_step env cpu P alloc Binding r s =
     (let (line, cpus) = set_cpu (env_setaffinity env r) (cpu r) in
      Inr (s\<lparr>u_out := u_out s @ [line], u_cpus := (u_cpus s)(r := cpus), u_stage := (u_stage s)(r := Looping)\<rparr>))"
| "role_step env cpu P alloc Looping r s =
     bindr (threads_step P alloc (u_threads s) (Run r)) (\<lambda>t.
     Inr (s\<lparr>u_threads := t, u_out := u_out s @ new_errors (u_threads s) t\<rparr>))"

fun live_step ::
  "env \<Rightarrow> (role \<Rightarrow> nat) \<Rightarrow> ('y, role, 'e) proto \<Rightarrow> qnode allocator \<Rightarrow> 'y qprog \<Rightarrow> 'e qevent \<Rightarrow> fault + 'y qprog" where
  "live_step env cpu P alloc s Main_step = Inr (qmain_step env (u_main s) s)"
| "live_step env cpu P alloc s (Monitor_step k) =
     bindr (monitor_step env k (u_mon s) (m_q (t_mem (u_threads s)))) (\<lambda>(pc, lines).
     Inr (s\<lparr>u_mon := pc, u_out := u_out s @ lines\<rparr>))"
| "live_step env cpu P alloc s (Thread_step r) = role_step env cpu P alloc (u_stage s r) r s"
| "live_step env cpu P alloc s (Sync_step e) =
     bindr (threads_step P alloc (u_threads s) (Sync e)) (\<lambda>t. Inr (s\<lparr>u_threads := t\<rparr>))"

definition prog_step ::
  "env \<Rightarrow> (role \<Rightarrow> nat) \<Rightarrow> ('y, role, 'e) proto \<Rightarrow> qnode allocator \<Rightarrow> 'y qprog \<Rightarrow> 'e qevent \<Rightarrow> fault + 'y qprog" where
  "prog_step env cpu P alloc s ev =
     (case u_main s of Returned c \<Rightarrow> Inr s | _ \<Rightarrow> live_step env cpu P alloc s ev)"

text \<open>
  The program when \<open>queue_init\<close> has returned: \<open>main\<close> has printed its identifiers, the monitor thread
  exists. The argument is the state in which the loops will start.
\<close>

definition prog_start :: "env \<Rightarrow> 'y threads \<Rightarrow> 'y qprog" where
  "prog_start env t =
     \<lparr>u_main = Creating Reader, u_stage = (\<lambda>_. Absent), u_cpus = (\<lambda>_. None), u_threads = t, u_mon = Mon_hello,
      u_out = [Ids ''main'' (env_pid env) (env_ppid env) (env_main env)]\<rparr>"

text \<open>The processors of the variants.\<close>

definition one_cpu :: "role \<Rightarrow> nat" where
  "one_cpu r = 1"

fun two_cpus :: "role \<Rightarrow> nat" where
  "two_cpus Reader = 1"
| "two_cpus Writer = 2"

section \<open>The threads in the whole program\<close>

text \<open>What a step of the program can be.\<close>

lemma prog_step_cases:
  assumes "prog_step env cpu P alloc s ev = Inr s'"
  obtains (none) "s' = s"
  | (main) "ev = Main_step" "s' = qmain_step env (u_main s) s"
  | (monitor) k pc lines where "ev = Monitor_step k"
      "monitor_step env k (u_mon s) (m_q (t_mem (u_threads s))) = Inr (pc, lines)"
      "s' = s\<lparr>u_mon := pc, u_out := u_out s @ lines\<rparr>"
  | (greet) r where "ev = Thread_step r" "u_stage s r = Greeting"
      "s' = s\<lparr>u_out := u_out s @ [Ids (role_name r) (env_pid env) (env_ppid env) (env_tid env r)],
              u_stage := (u_stage s)(r := Binding)\<rparr>"
  | (bind) r line cpus where "ev = Thread_step r" "u_stage s r = Binding"
      "set_cpu (env_setaffinity env r) (cpu r) = (line, cpus)"
      "s' = s\<lparr>u_out := u_out s @ [line], u_cpus := (u_cpus s)(r := cpus), u_stage := (u_stage s)(r := Looping)\<rparr>"
  | (loop) r t where "ev = Thread_step r" "u_stage s r = Looping"
      "threads_step P alloc (u_threads s) (Run r) = Inr t"
      "s' = s\<lparr>u_threads := t, u_out := u_out s @ new_errors (u_threads s) t\<rparr>"
  | (sync) e t where "ev = Sync_step e" "threads_step P alloc (u_threads s) (Sync e) = Inr t"
      "s' = s\<lparr>u_threads := t\<rparr>"
proof (cases "\<exists>c. u_main s = Returned c")
  case True
  with assms none show thesis by (auto simp: prog_step_def)
next
  case False
  with assms have live: "live_step env cpu P alloc s ev = Inr s'"
    by (cases "u_main s") (auto simp: prog_step_def)
  show thesis
  proof (cases ev)
    case (Thread_step r)
    with live show thesis
      by (cases "u_stage s r")
        (auto simp: bindr_Inr_iff split: prod.splits simp del: threads_step.simps intro: none greet bind loop)
  qed (use live in \<open>auto simp: bindr_Inr_iff simp del: threads_step.simps intro: main monitor sync\<close>)
qed

lemma qmain_step_keeps [simp]:
  "u_threads (qmain_step env pc s) = u_threads s" "u_mon (qmain_step env pc s) = u_mon s"
  "u_cpus (qmain_step env pc s) = u_cpus s"
  by (cases "(env, pc, s)" rule: qmain_step.cases; simp)+

lemma prog_step_threads:
  "prog_step env cpu P alloc s ev = Inr s' \<Longrightarrow>
     u_threads s' = u_threads s \<or> (\<exists>e. threads_step P alloc (u_threads s) e = Inr (u_threads s'))"
  by (erule prog_step_cases) (auto simp del: threads_step.simps)

lemma prog_reach_threads:
  "reach (prog_step env cpu P alloc) s0 s \<Longrightarrow> reach (threads_step P alloc) (u_threads s0) (u_threads s)"
proof (induction rule: reach.induct)
  case (step s ev s')
  from prog_step_threads [OF step.hyps(2)] step.IH show ?case by (auto intro: reach.step)
qed (rule reach.start)

text \<open>Conversely, once the two threads exist and loop, every step of theirs can be the next.\<close>

lemma prog_simulates:
  assumes "threads_step P alloc (u_threads s) e = Inr t" and "u_stage s = (\<lambda>_. Looping)" and "u_main s = Joining"
  shows "\<exists>ev s'. prog_step env cpu P alloc s ev = Inr s' \<and> u_threads s' = t \<and>
    u_stage s' = (\<lambda>_. Looping) \<and> u_main s' = Joining"
proof (cases e)
  case (Run r)
  with assms show ?thesis
    by (intro exI [of _ "Thread_step r"]) (simp add: prog_step_def del: threads_step.simps)
next
  case (Sync e')
  with assms show ?thesis
    by (intro exI [of _ "Sync_step e'"]) (simp add: prog_step_def del: threads_step.simps)
qed

definition launch :: "'e qevent list" where
  "launch = [Main_step, Main_step, Thread_step Reader, Thread_step Reader, Thread_step Writer, Thread_step Writer]"

lemma prog_launch:
  assumes "\<forall>r. env_create env r = 0"
  shows "\<exists>s. run (prog_step env cpu P alloc) (prog_start env t) launch = Inr s \<and> u_threads s = t \<and>
    u_stage s = (\<lambda>_. Looping) \<and> u_main s = Joining"
proof -
  show ?thesis
    using assms unfolding fun_eq_iff all_roles
    by (simp add: launch_def prog_step_def prog_start_def Let_def split_def del: threads_step.simps cong: bindr_weak_cong)
qed

text \<open>
  Property C13. The reader and the writer behave in the whole program, with the monitor at work
  and \<open>main\<close> creating them one after the other, exactly as they do alone: the states of the
  two that the program reaches are those the two loops reach.
\<close>

theorem programs_project:
  assumes "\<forall>r. env_create env r = 0"
  shows "(\<exists>s. reach (prog_step env cpu P alloc) (prog_start env t0) s \<and> u_threads s = t) =
    reach (threads_step P alloc) t0 t"
proof
  assume "\<exists>s. reach (prog_step env cpu P alloc) (prog_start env t0) s \<and> u_threads s = t"
  then show "reach (threads_step P alloc) t0 t"
    using prog_reach_threads by (fastforce simp: prog_start_def)
next
  assume "reach (threads_step P alloc) t0 t"
  then have "\<exists>s. reach (prog_step env cpu P alloc) (prog_start env t0) s \<and> u_threads s = t \<and>
      u_stage s = (\<lambda>_. Looping) \<and> u_main s = Joining"
  proof (induction rule: reach.induct)
    case start
    from prog_launch [OF assms, of cpu P alloc t0] show ?case by (blast intro: run_reach)
  next
    case (step t e t')
    then obtain s where s: "reach (prog_step env cpu P alloc) (prog_start env t0) s" "u_threads s = t"
        "u_stage s = (\<lambda>_. Looping)" "u_main s = Joining" by blast
    with step.hyps(2) have "threads_step P alloc (u_threads s) e = Inr t'" by simp
    from prog_simulates [OF this s(3,4)] reach.step [OF s(1)] show ?case by metis
  qed
  then show "\<exists>s. reach (prog_step env cpu P alloc) (prog_start env t0) s \<and> u_threads s = t" by blast
qed

section \<open>What is printed\<close>

fun error_of :: "qline \<Rightarrow> (int \<times> int) list" where
  "error_of (Error val expected) = [(val, expected)]"
| "error_of _ = []"

fun stats_of :: "qline \<Rightarrow> int list list" where
  "stats_of (Statistics xs) = [xs]"
| "stats_of _ = []"

definition errors_of :: "qline list \<Rightarrow> (int \<times> int) list" where
  "errors_of out = concat (map error_of out)"

definition statistics_of :: "qline list \<Rightarrow> int list list" where
  "statistics_of out = concat (map stats_of out)"

lemma printed_append [simp]:
  "errors_of (xs @ ys) = errors_of xs @ errors_of ys"
  "statistics_of (xs @ ys) = statistics_of xs @ statistics_of ys"
  by (simp_all add: errors_of_def statistics_of_def)

lemma printed_errors:
  "errors_of (map (\<lambda>(val, expected). Error val expected) es) = es"
  "statistics_of (map (\<lambda>(val, expected). Error val expected) es) = []"
  by (induction es) (auto simp: errors_of_def statistics_of_def)

lemma printed_simps [simp]:
  "errors_of [] = []" "errors_of (l # ls) = error_of l @ errors_of ls"
  "statistics_of [] = []" "statistics_of (l # ls) = stats_of l @ statistics_of ls"
  by (simp_all add: errors_of_def statistics_of_def)

lemma new_errors_printed [simp]:
  "errors_of (new_errors t t') = drop (length (t_errors t)) (t_errors t')" "statistics_of (new_errors t t') = []"
  by (simp_all add: new_errors_def printed_errors)

lemma threads_step_errors:
  "threads_step P alloc t e = Inr t' \<Longrightarrow> \<exists>es. t_errors t' = t_errors t @ es"
proof (cases e)
  case (Run r)
  assume "threads_step P alloc t e = Inr t'"
  with Run show ?thesis
    by (cases r; cases "t_rpc t"; cases "t_wpc t")
      (auto simp: bindr_Inr_iff Let_def split: if_splits option.splits)
qed (auto simp: bindr_Inr_iff)

lemma threads_sync_errors: "threads_step P alloc t (Sync e) = Inr t' \<Longrightarrow> t_errors t' = t_errors t"
  by (auto simp: bindr_Inr_iff)

lemma set_cpu_line: "set_cpu f n = (line, cpus) \<Longrightarrow> error_of line = [] \<and> stats_of line = []"
  by (auto simp: set_cpu_def Let_def split: if_splits)

lemma monitor_lines:
  "monitor_step env k pc q = Inr (pc', lines) \<Longrightarrow> errors_of lines = []"
  by (cases "(env, k, pc, q)" rule: monitor_step.cases) (auto simp: bindr_Inr_iff split: if_splits)

lemma qmain_out:
  "errors_of (u_out (qmain_step env pc s)) = errors_of (u_out s)"
  "statistics_of (u_out (qmain_step env pc s)) = statistics_of (u_out s)"
  by (cases "(env, pc, s)" rule: qmain_step.cases; simp)+

interpretation printed: invariant_of "prog_step env cpu P alloc"
    "\<lambda>s. errors_of (u_out s) = t_errors (u_threads s)" "\<lambda>s. errors_of (u_out s) = t_errors (u_threads s)"
  for env cpu P alloc
proof
  fix s ev s'
  assume old: "errors_of (u_out s) = t_errors (u_threads s)" and st: "prog_step env cpu P alloc s ev = Inr s'"
  from st show "errors_of (u_out s') = t_errors (u_threads s')"
  proof (cases rule: prog_step_cases)
    case (loop r t)
    with old threads_step_errors [OF loop(3)] show ?thesis by auto
  qed (use old in \<open>auto simp: qmain_out dest: monitor_lines threads_sync_errors set_cpu_line simp del: threads_step.simps\<close>)
qed

section \<open>A turn of the monitor\<close>

fun monitor_run :: "env \<Rightarrow> nat list \<Rightarrow> mon_pc \<Rightarrow> queue_t \<Rightarrow> fault + mon_pc \<times> qline list" where
  "monitor_run env [] pc q = Inr (pc, [])"
| "monitor_run env (k # ks) pc q =
     bindr (monitor_step env k pc q) (\<lambda>(pc, lines).
     bindr (monitor_run env ks pc q) (\<lambda>(pc, lines'). Inr (pc, lines @ lines')))"

lemma stats_values_fields: "stats_values (stats_fields q) = queue_print_stats q"
  by (simp add: stats_values_def stats_fields_def queue_print_stats_def)

lemma length_stats_fields [simp]: "length (stats_fields q) = 9"
  by (simp add: stats_fields_def)

lemma monitor_loads:
  assumes "distinct ks" and "set ks \<subseteq> {..<length ls}"
    and "\<forall>k<length ls. ls ! k = (if k \<in> set ks then None else Some (stats_fields q ! k))"
  shows "monitor_run env (ks @ [j]) (Mon_load ls) q =
    monitor_run env [j] (Mon_load (foldl (\<lambda>ls k. load_field (stats_fields q) k ls) ls ks)) q"
  using assms
proof (induction ks arbitrary: ls)
  case (Cons k ks)
  then have k: "k < length ls" "ls ! k = None" "None \<in> set ls" by (auto simp: in_set_conv_nth)
  let ?ls = "load_field (stats_fields q) k ls"
  have "\<forall>i<length ls. ?ls ! i = (if i \<in> set ks then None else Some (stats_fields q ! i))"
    using Cons.prems(1,3) k(1,2) by (auto simp: load_field_def nth_list_update)
  with Cons.IH [of ?ls] Cons.prems(1,2) k show ?case by simp
qed simp

text \<open>
  When nobody else moves, a turn of the monitor prints what \<open>queue_print_stats\<close> computes from
  the structure, whatever the order in which the arguments are evaluated.
\<close>

lemma monitor_turn:
  assumes "distinct ks" and "set ks = {..<9}"
  shows "monitor_run env (ks @ [j]) (Mon_load (replicate 9 None)) q =
    bindr (queue_print_stats q) (\<lambda>xs. Inr (Mon_sleep, [Statistics xs]))"
proof -
  have "foldl (\<lambda>ls k. load_field (stats_fields q) k ls) (replicate 9 None) ks = map Some (stats_fields q)"
    using assms by (intro load_all) auto
  with monitor_loads [of ks "replicate 9 None" q env j] assms show ?thesis
    by (simp add: comp_def stats_values_fields image_iff)
qed

section \<open>Types\<close>

definition field_typed :: "nat \<Rightarrow> int \<Rightarrow> bool" where
  "field_typed k x \<longleftrightarrow> (if k = 0 then int_typed x else count_typed x)"

fun mon_typed :: "mon_pc \<Rightarrow> bool" where
  "mon_typed (Mon_load ls) =
     (length ls = 9 \<and> (\<forall>k<9. \<forall>x. ls ! k = Some x \<longrightarrow> field_typed k x))"
| "mon_typed _ = True"

definition line_typed :: "int list \<Rightarrow> bool" where
  "line_typed xs \<longleftrightarrow> length xs = 7 \<and> int_typed (xs ! 0) \<and>
     list_all count_typed [xs ! 1, xs ! 2, xs ! 4, xs ! 5] \<and>
     list_all (\<lambda>x. - LONG_MAX \<le> x \<and> x \<le> LONG_MAX) [xs ! 3, xs ! 6]"

lemma stats_fields_typed:
  "q_typed q \<Longrightarrow> k < 9 \<Longrightarrow> field_typed k (stats_fields q ! k)"
  by (auto simp: field_typed_def stats_fields_def q_typed_def nth_Cons split: nat.splits)

lemma counts_difference: "count_typed x \<Longrightarrow> count_typed y \<Longrightarrow> c_long (x - y) = Inr (x - y) \<and> - LONG_MAX \<le> x - y \<and> x - y \<le> LONG_MAX"
  by (auto simp: count_typed_def c_long_def c_limits)

lemma mon_values_typed:
  assumes "mon_typed (Mon_load ls)" and "None \<notin> set ls"
  shows "\<exists>xs. stats_values (map the ls) = Inr xs \<and> line_typed xs"
proof -
  have typed: "field_typed k (map the ls ! k)" if "k < 9" for k
    using assms(1) all_loaded [OF assms(2)] that by (metis mon_typed.simps(1))
  note t = typed [of 0] typed [of 1] typed [of 2] typed [of 3] typed [of 4] typed [of 5] typed [of 6]
    typed [of 7] typed [of 8]
  show ?thesis
    using t counts_difference [of "map the ls ! 3" "map the ls ! 4"] counts_difference [of "map the ls ! 7" "map the ls ! 8"]
    by (simp add: stats_values_def line_typed_def field_typed_def)
qed

lemma monitor_step_typed:
  assumes "mon_typed pc" and "q_typed q"
  shows "\<exists>pc' lines. monitor_step env k pc q = Inr (pc', lines) \<and> mon_typed pc' \<and>
    list_all line_typed (statistics_of lines)"
proof (cases "\<exists>ls. pc = Mon_load ls \<and> None \<notin> set ls")
  case True
  with mon_values_typed assms(1) show ?thesis by fastforce
next
  case False
  with assms stats_fields_typed [OF assms(2)] show ?thesis
    by (cases pc) (auto dest!: load_field_new)
qed

definition prog_typed :: "'y qprog \<Rightarrow> bool" where
  "prog_typed s \<longleftrightarrow> mon_typed (u_mon s) \<and> list_all line_typed (statistics_of (u_out s))"

lemma prog_step_typed:
  assumes typed: "threads_typed (u_threads s)" "prog_typed s"
    and st: "prog_step env cpu P alloc s ev = Inr s'"
  shows "prog_typed s'"
  using st
proof (cases rule: prog_step_cases)
  case (monitor k pc lines)
  have "q_typed (m_q (t_mem (u_threads s)))" using typed(1) by (simp add: threads_typed_def mem_typed_def)
  from monitor_step_typed [OF _ this, of "u_mon s" env k] monitor typed(2) show ?thesis
    by (simp add: prog_typed_def)
qed (use typed(2) in \<open>auto simp: prog_typed_def qmain_out dest: set_cpu_line\<close>)

lemma prog_typed_reach:
  assumes "reach (prog_step env cpu P alloc) (prog_start env t0) s" and "threads_typed t0" and "alloc_typed alloc"
  shows "threads_typed (u_threads s) \<and> prog_typed s"
  using assms(1)
proof (induction rule: reach.induct)
  case start
  show ?case using assms(2) by (simp add: prog_start_def prog_typed_def)
next
  case (step s ev s')
  have "reach (threads_step P alloc) t0 (u_threads s')"
    using prog_reach_threads [OF reach.step [OF step.hyps]] by (simp add: prog_start_def)
  then have "threads_typed (u_threads s')" using typed.reach_good assms(2,3) by blast
  with prog_step_typed [OF _ _ step.hyps(2)] step.IH show ?case by blast
qed

lemma prog_step_fault:
  assumes "prog_step env cpu P alloc s ev = Inl f"
  obtains (monitor) k where "ev = Monitor_step k" "f = SignedOverflow"
      "monitor_step env k (u_mon s) (m_q (t_mem (u_threads s))) = Inl f"
  | (threads) e where "threads_step P alloc (u_threads s) e = Inl f"
      "\<And>r. ev = Thread_step r \<Longrightarrow> e = Run r" "\<And>k. ev \<noteq> Monitor_step k"
proof -
  have live: "live_step env cpu P alloc s ev = Inl f"
    using assms by (cases "u_main s") (auto simp: prog_step_def)
  show thesis
  proof (cases ev)
    case (Thread_step r)
    with live have "threads_step P alloc (u_threads s) (Run r) = Inl f"
      by (cases "u_stage s r") (auto simp: bindr_Inl_iff Let_def split_def simp del: threads_step.simps)
    with Thread_step threads show thesis by blast
  next
    case (Monitor_step k)
    with live have "monitor_step env k (u_mon s) (m_q (t_mem (u_threads s))) = Inl f"
      by (auto simp: bindr_Inl_iff)
    with Monitor_step monitor show thesis
      by (cases "u_mon s") (auto simp: bindr_Inl_iff stats_values_def c_long_Inl split: if_splits)
  next
    case (Sync_step e)
    with live have "threads_step P alloc (u_threads s) (Sync e) = Inl f"
      by (auto simp: bindr_Inl_iff simp del: threads_step.simps)
    with Sync_step threads show thesis by blast
  qed (use live in simp)
qed

lemma monitor_no_fault:
  assumes "threads_typed (u_threads s)" and "prog_typed s"
  shows "monitor_step env k (u_mon s) (m_q (t_mem (u_threads s))) \<noteq> Inl f"
proof -
  have "q_typed (m_q (t_mem (u_threads s)))" using assms(1) by (simp add: threads_typed_def mem_typed_def)
  then show ?thesis
    using monitor_step_typed [of "u_mon s" _ env k] assms(2) by (fastforce simp: prog_typed_def)
qed

text \<open>
  Property C11. With any protocol between the operations, or none, every variable of the two
  threads and of the queue is in the range of its C type in every reachable state of the program, with the four
  statistics counters not negative. The threads fail only by signed overflow, a
  failed assertion, a null or dangling pointer or a failed \<open>malloc\<close>. The monitor never
  fails, wherever the other threads are while it reads, and prints seven numbers that fit their formats.
\<close>

theorem programs_stay_typed:
  assumes "queue_init malloc_ok create_err tid cap = Inr q" and "int_typed cap" and "alloc_typed alloc"
    and "reach (prog_step env cpu P alloc) (prog_start env (threads_start y q)) s"
  shows "threads_typed (u_threads s) \<and> list_all line_typed (statistics_of (u_out s)) \<and>
    (\<forall>k. \<exists>s'. prog_step env cpu P alloc s (Monitor_step k) = Inr s') \<and>
    (\<forall>r f. prog_step env cpu P alloc s (Thread_step r) = Inl f \<longrightarrow>
      f \<in> {SignedOverflow, AssertFail, NullDeref, UseAfterFree, Abort ''Cannot allocate memory for new node''})"
proof (intro conjI allI impI)
  have typed: "threads_typed (u_threads s)" "prog_typed s"
    using prog_typed_reach [OF assms(4) start_typed [OF assms(1,2)] assms(3)] by blast+
  then show "threads_typed (u_threads s)" "list_all line_typed (statistics_of (u_out s))"
    by (simp_all add: prog_typed_def)
  show "\<exists>s'. prog_step env cpu P alloc s (Monitor_step k) = Inr s'" for k
    by (cases "prog_step env cpu P alloc s (Monitor_step k)")
      (auto elim!: prog_step_fault simp: monitor_no_fault [OF typed])
  show "f \<in> {SignedOverflow, AssertFail, NullDeref, UseAfterFree, Abort ''Cannot allocate memory for new node''}"
    if "prog_step env cpu P alloc s (Thread_step r) = Inl f" for r f
    using that by (rule prog_step_fault) (auto dest!: thread_faults simp: body_fault_def oom_def)
qed

section \<open>The counters only grow\<close>

text \<open>
  Each of the four statistics counters is written by one thread only, so the value that thread has
  loaded is still the value of the field when it stores the sum.
\<close>

definition counters :: "queue_t \<Rightarrow> int list" where
  "counters q = [q_add_attempts q, q_get_attempts q, q_add_count q, q_get_count q]"

fun writer_counts :: "writer_pc \<Rightarrow> queue_t \<Rightarrow> bool" where
  "writer_counts (W_body (Add_st_attempts r)) q = (r = q_add_attempts q)"
| "writer_counts (W_body (Add_st_added r)) q = (r = q_add_count q)"
| "writer_counts _ q = True"

fun reader_counts :: "reader_pc \<Rightarrow> queue_t \<Rightarrow> bool" where
  "reader_counts (R_body (Get_st_attempts r)) q = (r = q_get_attempts q)"
| "reader_counts (R_body (Get_st_got v r)) q = (r = q_get_count q)"
| "reader_counts _ q = True"

definition own_counts :: "'y threads \<Rightarrow> bool" where
  "own_counts t \<longleftrightarrow> writer_counts (t_wpc t) (m_q (t_mem t)) \<and> reader_counts (t_rpc t) (m_q (t_mem t))"

lemma add_step_counts:
  assumes "add_step alloc v pc m = Inr (pc', m')" and "writer_counts (W_body pc) (m_q m)"
  shows "writer_counts (W_body pc') (m_q m')" and "below (counters (m_q m)) (counters (m_q m'))"
    and "reader_counts rpc (m_q m') = reader_counts rpc (m_q m)"
proof -
  show "writer_counts (W_body pc') (m_q m')"
    using assms by (cases pc) (auto simp: outcome_simps split: if_splits option.splits)
  show "below (counters (m_q m)) (counters (m_q m'))"
    using assms by (cases pc) (auto simp: below_def counters_def outcome_simps split: if_splits option.splits)
  have "q_get_attempts (m_q m') = q_get_attempts (m_q m)" "q_get_count (m_q m') = q_get_count (m_q m)"
    using assms by (cases pc; auto simp: outcome_simps split: if_splits option.splits)+
  then show "reader_counts rpc (m_q m') = reader_counts rpc (m_q m)"
    by (cases "(rpc, m_q m)" rule: reader_counts.cases) auto
qed

lemma get_step_counts:
  assumes "get_step v0 pc m = Inr (pc', m')" and "reader_counts (R_body pc) (m_q m)"
  shows "reader_counts (R_body pc') (m_q m')" and "below (counters (m_q m)) (counters (m_q m'))"
    and "writer_counts wpc (m_q m') = writer_counts wpc (m_q m)"
proof -
  show "reader_counts (R_body pc') (m_q m')"
    using assms by (cases pc) (auto simp: outcome_simps split: if_splits)
  show "below (counters (m_q m)) (counters (m_q m'))"
    using assms by (cases pc) (auto simp: below_def counters_def outcome_simps split: if_splits)
  have "q_add_attempts (m_q m') = q_add_attempts (m_q m)" "q_add_count (m_q m') = q_add_count (m_q m)"
    using assms by (cases pc; auto simp: outcome_simps split: if_splits)+
  then show "writer_counts wpc (m_q m') = writer_counts wpc (m_q m)"
    by (cases "(wpc, m_q m)" rule: writer_counts.cases) auto
qed

lemma threads_step_counts:
  assumes own: "own_counts t" and st: "threads_step P alloc t e = Inr t'"
  shows "own_counts t' \<and> below (counters (m_q (t_mem t))) (counters (m_q (t_mem t')))"
proof (cases "(P, alloc, t, e)" rule: threads_step.cases)
  case (1 P' alloc' t'')
  show ?thesis
  proof (cases "\<exists>pc. t_rpc t = R_body pc \<and> get_ret pc = None")
    case True
    then obtain pc pc' m where m: "t_rpc t = R_body pc" "get_step (- 1) pc (t_mem t) = Inr (pc', m)"
        "t' = t\<lparr>t_mem := m, t_rpc := R_body pc'\<rparr>"
      using 1 st by (auto simp: bindr_Inr_iff)
    with own get_step_counts [OF m(2)] show ?thesis by (simp add: own_counts_def)
  next
    case False
    with 1 st own show ?thesis
      by (cases "t_rpc t") (auto simp: own_counts_def bindr_Inr_iff Let_def split: if_splits option.splits)
  qed
next
  case (2 P' alloc' t'')
  show ?thesis
  proof (cases "\<exists>pc. t_wpc t = W_body pc \<and> add_ret pc = None")
    case True
    then obtain pc pc' m where m: "t_wpc t = W_body pc" "add_step alloc (t_i t) pc (t_mem t) = Inr (pc', m)"
        "t' = t\<lparr>t_mem := m, t_wpc := W_body pc'\<rparr>"
      using 2 st by (auto simp: bindr_Inr_iff)
    with own add_step_counts [OF m(2)] show ?thesis by (simp add: own_counts_def)
  next
    case False
    with 2 st own show ?thesis
      by (cases "t_wpc t") (auto simp: own_counts_def bindr_Inr_iff split: if_splits option.splits)
  qed
qed (use st own in \<open>auto simp: own_counts_def bindr_Inr_iff\<close>)

text \<open>The counters in a printed line are the first of the two loads of each.\<close>

definition line_counters :: "int list \<Rightarrow> int list" where
  "line_counters xs = [xs ! 1, xs ! 2, xs ! 4, xs ! 5]"

abbreviation counter_fields :: "nat list" where
  "counter_fields \<equiv> [1, 2, 5, 6]"

lemma counters_pick: "counters q = pick counter_fields (stats_fields q)"
  by (simp add: counters_def pick_def stats_fields_def)

lemma line_counters_pick: "stats_values vs = Inr xs \<Longrightarrow> line_counters xs = pick counter_fields vs"
  by (auto simp: line_counters_def pick_def stats_values_def bindr_Inr_iff)

fun mon_watching :: "int list list \<Rightarrow> mon_pc \<Rightarrow> int list \<Rightarrow> bool" where
  "mon_watching los (Mon_load ls) hi = (length ls = 9 \<and> watching counter_fields los ls hi)"
| "mon_watching los _ hi = True"

lemma monitor_step_watched:
  assumes inv: "watched los (counters q)" "mon_watching los pc (counters q)"
    and st: "monitor_step env k pc q = Inr (pc', lines)"
  defines "los' \<equiv> los @ map line_counters (statistics_of lines)"
  shows "watched los' (counters q) \<and> mon_watching los' pc' (counters q)"
proof (cases pc)
  case (Mon_load ls)
  show ?thesis
  proof (cases "None \<in> set ls")
    case True
    with Mon_load inv st show ?thesis
      by (auto simp: los'_def counters_pick intro: watching_load)
  next
    case False
    with Mon_load st obtain xs where xs: "stats_values (map the ls) = Inr xs" "pc' = Mon_sleep" "lines = [Statistics xs]"
      by (auto simp: bindr_Inr_iff)
    with watched_line [OF inv(1) _ False, of counter_fields] inv(2) Mon_load line_counters_pick [OF xs(1)]
    show ?thesis by (simp add: los'_def)
  qed
qed (use inv st in \<open>auto simp: los'_def counters_def intro!: watching_empty\<close>)

lemma mon_watching_grows: "mon_watching los pc hi \<Longrightarrow> below hi hi' \<Longrightarrow> mon_watching los pc hi'"
  by (cases pc) (auto intro: watching_grows)

definition prog_watched :: "'y qprog \<Rightarrow> bool" where
  "prog_watched s \<longleftrightarrow> own_counts (u_threads s) \<and>
     watched (map line_counters (statistics_of (u_out s))) (counters (m_q (t_mem (u_threads s)))) \<and>
     mon_watching (map line_counters (statistics_of (u_out s))) (u_mon s) (counters (m_q (t_mem (u_threads s))))"

interpretation grown: invariant_of "prog_step env cpu P alloc"
    "\<lambda>s. own_counts (u_threads s) \<and> u_mon s = Mon_hello \<and> statistics_of (u_out s) = []" prog_watched
  for env cpu P alloc
proof
  fix s ev s'
  assume old: "prog_watched s" and st: "prog_step env cpu P alloc s ev = Inr s'"
  have threads: "prog_watched (s\<lparr>u_threads := t, u_out := u_out s @ new_errors (u_threads s) t\<rparr>)"
      "prog_watched (s\<lparr>u_threads := t\<rparr>)" if "threads_step P alloc (u_threads s) e = Inr t" for e t
    using threads_step_counts [OF _ that] old watched_grows mon_watching_grows by (auto simp: prog_watched_def)
  from st show "prog_watched s'"
  proof (cases rule: prog_step_cases)
    case (monitor k pc lines)
    with old monitor_step_watched [OF _ _ monitor(2)] show ?thesis by (simp add: prog_watched_def)
  next
    case (bind r line cpus)
    with old set_cpu_line [OF bind(3)] show ?thesis by (simp add: prog_watched_def)
  qed (use old threads in \<open>auto simp: prog_watched_def qmain_out simp del: threads_step.simps\<close>)
qed (simp add: prog_watched_def watched_def)

text \<open>
  Property C12. In every execution, with any protocol or none, the counters that the monitor prints
  never decrease from one line to the next and never exceed the fields of the structure, though
  it takes no lock: the second and third number of a line and the fifth and sixth.
\<close>

theorem statistics_grow:
  assumes "reach (prog_step env cpu P alloc) (prog_start env (threads_start y q)) s"
  shows "sorted_wrt below (map line_counters (statistics_of (u_out s))) \<and>
    (\<forall>xs\<in>set (statistics_of (u_out s)). below (line_counters xs) (counters (m_q (t_mem (u_threads s)))))"
  using grown.reach_good [OF assms]
  by (simp add: prog_start_def threads_start_def own_counts_def prog_watched_def watched_def)

section \<open>Examples\<close>

text \<open>A run of the program of \<^verbatim>\<open>lab2/1\<close>: the monitor prints its statistics before and after the first value is added.\<close>

definition wit_env :: env where
  "wit_env = \<lparr>env_pid = 12, env_ppid = 1, env_main = 12, env_monitor = 13,
     env_tid = (\<lambda>r. case r of Reader \<Rightarrow> 14 | Writer \<Rightarrow> 15), env_setaffinity = (\<lambda>_ _. 0), env_create = (\<lambda>_. 0)\<rparr>"

definition turn :: "'e qevent list" where
  "turn = map Monitor_step [0, 1, 2, 3, 4, 5, 6, 7, 8, 0]"

lemmas prog_eval = prog_step_def prog_start_def launch_def turn_def wit_env_def one_cpu_def set_cpu_def
  new_errors_def stats_values_def stats_fields_def load_field_def

lemma race_statistics:
  "\<exists>t0 s. race_main 0 0 True 0 7 = Inr t0 \<and>
     run (prog_step wit_env one_cpu race_proto (bump_alloc wit_node)) (prog_start wit_env t0)
       (launch @ [Monitor_step 0] @ turn @ replicate 18 (Thread_step Writer) @ [Monitor_step 0] @ turn) = Inr s \<and>
     statistics_of (u_out s) = [[0, 0, 0, 0, 0, 0, 0], [1, 1, 0, 1, 1, 0, 1]]"
  by (simp add: race_eval prog_eval cong: bindr_weak_cong)

lemma statistics_grow_witness:
  "\<exists>t0 s. reach (prog_step wit_env one_cpu race_proto (bump_alloc wit_node)) (prog_start wit_env t0) s \<and>
     statistics_of (u_out s) = [[0, 0, 0, 0, 0, 0, 0], [1, 1, 0, 1, 1, 0, 1]] \<and>
     sorted_wrt below (map line_counters (statistics_of (u_out s)))"
proof -
  obtain t0 s where s: "race_main 0 0 True 0 7 = Inr t0"
      "run (prog_step wit_env one_cpu race_proto (bump_alloc wit_node)) (prog_start wit_env t0)
        (launch @ [Monitor_step 0] @ turn @ replicate 18 (Thread_step Writer) @ [Monitor_step 0] @ turn) = Inr s"
      "statistics_of (u_out s) = [[0, 0, 0, 0, 0, 0, 0], [1, 1, 0, 1, 1, 0, 1]]"
    using race_statistics by blast
  from s(1) obtain q where q: "t0 = threads_start (\<lambda>_. Outside) q"
    by (auto simp: race_main_def threads_main_def bindr_Inr_iff)
  from statistics_grow [OF run_reach [OF s(2) [unfolded q]]] s(3) run_reach [OF s(2)] show ?thesis by blast
qed

lemma programs_stay_typed_witness:
  "\<exists>t0 s. reach (prog_step wit_env one_cpu race_proto (bump_alloc wit_node)) (prog_start wit_env t0) s \<and>
     statistics_of (u_out s) = [[0, 0, 0, 0, 0, 0, 0], [1, 1, 0, 1, 1, 0, 1]] \<and>
     threads_typed (u_threads s) \<and> list_all line_typed (statistics_of (u_out s))"
proof -
  obtain t0 s where s: "race_main 0 0 True 0 7 = Inr t0"
      "run (prog_step wit_env one_cpu race_proto (bump_alloc wit_node)) (prog_start wit_env t0)
        (launch @ [Monitor_step 0] @ turn @ replicate 18 (Thread_step Writer) @ [Monitor_step 0] @ turn) = Inr s"
      "statistics_of (u_out s) = [[0, 0, 0, 0, 0, 0, 0], [1, 1, 0, 1, 1, 0, 1]]"
    using race_statistics by blast
  from s(1) obtain q where q: "queue_init True 0 7 1000000 = Inr q" "t0 = threads_start (\<lambda>_. Outside) q"
    by (auto simp: race_main_def threads_main_def bindr_Inr_iff)
  have ty: "int_typed 1000000" "alloc_typed (bump_alloc wit_node)"
    by (auto simp: int_typed_def alloc_typed_def bump_alloc_def wit_node_def c_limits split: if_splits)
  from programs_stay_typed [OF q(1) ty run_reach [OF s(2) [unfolded q(2)]]] s(3) run_reach [OF s(2)]
  show ?thesis by blast
qed

text \<open>The dangling pointer of the unsynchronised program is reached with the monitor and \<open>main\<close> at work, too.\<close>

lemma programs_project_witness:
  "\<exists>t0 s. race_main 0 0 True 0 7 = Inr t0 \<and>
     reach (prog_step wit_env one_cpu race_proto (bump_alloc wit_node)) (prog_start wit_env t0) s \<and>
     race_step (bump_alloc wit_node) (u_threads s) (Run Writer) = Inl UseAfterFree"
proof -
  obtain t0 where t0: "race_main 0 0 True 0 7 = Inr t0" by (simp add: race_eval)
  from t0 obtain t where t: "run (race_step (bump_alloc wit_node)) t0 dangling_schedule = Inr t"
      "race_step (bump_alloc wit_node) t (Run Writer) = Inl UseAfterFree"
    by (auto simp: race_eval dangling_schedule_def add_first_def)
  have "\<forall>r. env_create wit_env r = 0" by (simp add: wit_env_def)
  from programs_project [OF this, of one_cpu race_proto "bump_alloc wit_node" t0 t] run_reach [OF t(1)]
  have "\<exists>s. reach (prog_step wit_env one_cpu race_proto (bump_alloc wit_node)) (prog_start wit_env t0) s \<and> u_threads s = t"
    by (simp add: race_step_def)
  with t0 t(2) show ?thesis by blast
qed

end
