(* ===== verification/SpinQueue.thy ===== *)
theory SpinQueue
  imports Threads
begin

text \<open>
  \<^verbatim>\<open>lab2/2/a-spinlock\<close>: the queue protected by a hand-written spinlock, and the reader
  and writer threads over it.
\<close>

section \<open>The spinlock\<close>

text \<open>The lock word: 1 is free, 0 is taken. One iteration of the retry loop is one
  compare-and-swap; the loop itself need not end.\<close>

definition spinlock_init :: int where
  "spinlock_init = 1"

definition spinlock_try :: "int \<Rightarrow> bool \<times> int" where
  "spinlock_try lock = atomic_cas lock 1 0"

partial_function (option) spinlock_lock :: "int \<Rightarrow> int option" where
  "spinlock_lock lock =
     (if fst (spinlock_try lock) then Some (snd (spinlock_try lock))
      else spinlock_lock (snd (spinlock_try lock)))"

definition spinlock_unlock :: "int \<Rightarrow> int" where
  "spinlock_unlock lock = snd (atomic_cas lock 0 1)"

section \<open>The operations, run by one thread\<close>

text \<open>
  The global \<open>spin\<close> points to a block from \<open>malloc\<close> whose result is not checked; the lock
  word is part of the state. On every path that returns the lock is released last.
\<close>

definition a_queue_init :: "bool \<Rightarrow> bool \<Rightarrow> int \<Rightarrow> nat \<Rightarrow> int \<Rightarrow> fault + (int \<times> queue_t)" where
  "a_queue_init spin_ok malloc_ok create_err tid max_count =
     (if \<not> spin_ok then Inl NullDeref
      else bindr (queue_init malloc_ok create_err tid max_count) (\<lambda>q. Inr (spinlock_init, q)))"

definition a_queue_add ::
  "qnode allocator \<Rightarrow> int \<Rightarrow> int \<times> qmem \<Rightarrow> (fault + (int \<times> int \<times> qmem)) option" where
  "a_queue_add alloc v s =
     (case spinlock_lock (fst s) of
        None \<Rightarrow> None
      | Some lock \<Rightarrow> Some (bindr (queue_add alloc v (snd s)) (\<lambda>(r, m).
                     Inr (r, spinlock_unlock lock, m))))"

definition a_queue_get ::
  "int \<Rightarrow> int \<times> qmem \<Rightarrow> (fault + (int \<times> int \<times> int \<times> qmem)) option" where
  "a_queue_get v0 s =
     (case spinlock_lock (fst s) of
        None \<Rightarrow> None
      | Some lock \<Rightarrow> Some (bindr (queue_get v0 (snd s)) (\<lambda>(r, v, m).
                     Inr (r, v, spinlock_unlock lock, m))))"

text \<open>
  \<open>queue_destroy\<close>: the argument is NULL or a queue, the lock block is allocated or not. What
  \<open>pthread_join\<close> returns is ignored.
\<close>

definition a_queue_destroy ::
  "int option \<Rightarrow> qmem option \<Rightarrow> (fault + (int option \<times> qnode heap)) option" where
  "a_queue_destroy spin q =
     (case q of
        None \<Rightarrow> Some (Inr (spin, Map.empty))
      | Some m \<Rightarrow>
          (if spin = None then Some (Inl UseAfterFree)
           else (case destroy_nodes (q_first (m_q m)) (m_heap m) of
                   None \<Rightarrow> None
                 | Some (Inl e) \<Rightarrow> Some (Inl e)
                 | Some (Inr h) \<Rightarrow> Some (Inr (None, h)))))"

section \<open>The lock as a protocol\<close>

record 't spin =
  s_lock :: int
  s_phase :: "'t \<Rightarrow> phase"

definition spin_call :: "'t spin \<Rightarrow> 't \<Rightarrow> kind \<Rightarrow> 't spin" where
  "spin_call y t k = y\<lparr>s_phase := (s_phase y)(t := Entering)\<rparr>"

definition spin_leave :: "'t spin \<Rightarrow> 't \<Rightarrow> 't spin" where
  "spin_leave y t = y\<lparr>s_phase := (s_phase y)(t := Leaving)\<rparr>"

definition spin_step :: "'t spin \<Rightarrow> 't \<Rightarrow> fault + 't spin" where
  "spin_step y t =
     (case s_phase y t of
        Entering \<Rightarrow>
          (case spinlock_try (s_lock y) of
             (True, l) \<Rightarrow> Inr (y\<lparr>s_lock := l, s_phase := (s_phase y)(t := Inside)\<rparr>)
           | (False, l) \<Rightarrow> Inr (y\<lparr>s_lock := l\<rparr>))
      | Leaving \<Rightarrow>
          Inr (y\<lparr>s_lock := spinlock_unlock (s_lock y), s_phase := (s_phase y)(t := Outside)\<rparr>)
      | _ \<Rightarrow> Inr y)"

definition spin_proto :: "('t spin, 't, 't) proto" where
  "spin_proto = \<lparr>p_phase = s_phase, p_call = spin_call, p_leave = spin_leave, p_step = spin_step\<rparr>"

definition spin_start :: "'t spin" where
  "spin_start = \<lparr>s_lock = spinlock_init, s_phase = (\<lambda>_. Outside)\<rparr>"

text \<open>The lock word is free exactly when no thread is between lock and unlock.\<close>

definition spin_inv :: "'t spin \<Rightarrow> bool" where
  "spin_inv y \<longleftrightarrow> (s_lock y = 0 \<or> s_lock y = 1) \<and> lock_agrees (s_lock y = 1) (s_phase y)"

lemmas spin_defs = spin_step_def spin_call_def spin_leave_def spin_proto_def
  spinlock_try_def spinlock_unlock_def atomic_cas_def

lemma spin_step_spin_inv:
  assumes inv: "spin_inv y" and st: "spin_step y t = Inr y'"
  shows "spin_inv y'"
proof (cases "s_phase y t")
  case Entering
  then show ?thesis using inv st
    by (auto simp: spin_defs spin_inv_def intro: lock_agrees_enter split: if_splits)
next
  case Leaving
  then have "s_lock y = 0" using inv lock_agrees_free [of "s_lock y = 1" "s_phase y" t]
    by (auto simp: spin_inv_def)
  with Leaving show ?thesis using inv st
    by (auto simp: spin_defs spin_inv_def intro: lock_agrees_exit)
qed (use inv st in \<open>auto simp: spin_defs\<close>)

interpretation spin: sync_protocol spin_proto spin_inv
proof unfold_locales
  fix y :: "'t spin" and t u :: 't and k e y' f
  show "spin_inv y \<Longrightarrow> p_phase spin_proto y t = Outside \<Longrightarrow> spin_inv (p_call spin_proto y t k)"
    by (auto simp: spin_defs spin_inv_def intro: lock_agrees_same)
  show "spin_inv y \<Longrightarrow> p_phase spin_proto y t = Outside \<Longrightarrow>
      p_phase spin_proto (p_call spin_proto y t k) u = (if u = t then Entering else p_phase spin_proto y u)"
    by (simp add: spin_defs)
  show "spin_inv y \<Longrightarrow> p_phase spin_proto y t = Inside \<Longrightarrow> spin_inv (p_leave spin_proto y t)"
    by (auto simp: spin_defs spin_inv_def intro: lock_agrees_same)
  show "spin_inv y \<Longrightarrow> p_phase spin_proto y t = Inside \<Longrightarrow>
      p_phase spin_proto (p_leave spin_proto y t) u = (if u = t then Leaving else p_phase spin_proto y u)"
    by (simp add: spin_defs)
  show "spin_inv y \<Longrightarrow> p_step spin_proto y e = Inr y' \<Longrightarrow> spin_inv y'"
    using spin_step_spin_inv by (simp add: spin_proto_def)
  show "spin_inv y \<Longrightarrow> p_step spin_proto y e = Inr y' \<Longrightarrow>
      p_phase spin_proto y' t = p_phase spin_proto y t \<or>
      p_phase spin_proto y t = Entering \<and> p_phase spin_proto y' t = Inside \<or>
      p_phase spin_proto y t = Leaving \<and> p_phase spin_proto y' t = Outside"
    by (auto simp: spin_defs split: phase.splits if_splits)
  show "spin_inv y \<Longrightarrow> p_phase spin_proto y t = Inside \<Longrightarrow> p_phase spin_proto y u = Inside \<Longrightarrow> t = u"
    by (auto simp: spin_defs spin_inv_def intro: lock_agrees_unique)
  show "spin_inv y \<Longrightarrow> p_step spin_proto y e = Inl f \<Longrightarrow> \<exists>msg. f = Abort msg"
    by (auto simp: spin_defs split: phase.splits if_splits)
qed

section \<open>The program\<close>

definition a_threads_step ::
  "qnode allocator \<Rightarrow> role spin threads \<Rightarrow> role event \<Rightarrow> fault + role spin threads" where
  "a_threads_step alloc = threads_step spin_proto alloc"

definition a_main ::
  "int \<Rightarrow> int \<Rightarrow> bool \<Rightarrow> bool \<Rightarrow> int \<Rightarrow> nat \<Rightarrow> fault + role spin threads" where
  "a_main err_reader err_writer spin_ok malloc_ok create_err tid =
     threads_main err_reader err_writer
       (bindr (a_queue_init spin_ok malloc_ok create_err tid 10000000) (\<lambda>(lock, q).
        Inr (\<lparr>s_lock = lock, s_phase = (\<lambda>_. Outside)\<rparr>, q)))"

interpretation a_threads: queue_threads spin_proto spin_inv
  by unfold_locales

lemma a_main_inv:
  assumes "a_main er ew sok mok cerr tid = Inr s0"
  shows "threads_inv spin_proto spin_inv alloc s0"
proof -
  from assms obtain q where q: "queue_init mok cerr tid 10000000 = Inr q"
      and s0: "s0 = threads_start \<lparr>s_lock = 1, s_phase = (\<lambda>_. Outside)\<rparr> q"
    by (auto simp: a_main_def threads_main_def a_queue_init_def spinlock_init_def outcome_simps
             split: if_splits)
  show ?thesis unfolding s0
    by (rule a_threads.start_inv [OF _ _ _ _ q])
      (auto simp: spin_inv_def spin_defs lock_agrees_start c_limits)
qed

text \<open>
  Property C1. In every execution of the spinlock program, with any allocator that returns
  fresh blocks, the reader never prints an ERROR line: it receives 0, 1, 2, ... in order.
  The two threads are never inside the queue at the same time. No step fails but by the signed
  overflow of a counter or by \<open>malloc\<close> returning NULL: no null or dangling pointer is followed,
  no block is freed twice, no assertion fails.
\<close>

theorem a_threads_fifo:
  assumes "a_main er ew sok mok cerr tid = Inr s0" and "alloc_fresh alloc"
    and "reach (a_threads_step alloc) s0 s"
  shows "t_errors s = [] \<and> \<not> ((\<exists>g. t_rpc s = R_body g) \<and> (\<exists>a. t_wpc s = W_body a)) \<and>
    (\<forall>ev f. a_threads_step alloc s ev = Inl f \<longrightarrow>
      f = SignedOverflow \<or> f = Abort ''Cannot allocate memory for new node'')"
proof -
  from assms(3) have inv: "threads_inv spin_proto spin_inv alloc s"
    unfolding a_threads_step_def
    using a_threads.reach_inv a_main_inv [OF assms(1)] assms(2) by blast
  have "spin_step y e \<noteq> Inl f" for y :: "role spin" and e f
    by (auto simp: spin_defs split: phase.splits if_splits)
  then have "f = SignedOverflow \<or> f = oom" if "a_threads_step alloc s ev = Inl f" for ev f
    using a_threads.threads_fault [OF inv that [unfolded a_threads_step_def]] by (auto simp: spin_proto_def)
  moreover have "t_errors s = []" using inv by (simp add: threads_inv_def)
  ultimately show ?thesis using a_threads.one_inside [OF inv] by (auto simp: oom_def)
qed

definition a_wit_schedule :: "role event list" where
  "a_wit_schedule =
     [Run Writer, Sync Writer, Run Reader, Sync Reader] @ replicate 18 (Run Writer) @
     [Sync Writer, Sync Reader] @ replicate 2 (Run Writer) @ replicate 17 (Run Reader)
     @ [Sync Reader] @ replicate 2 (Run Reader)"

lemmas a_eval = a_main_def threads_main_def a_queue_init_def queue_init_def threads_start_def
  a_threads_step_def fresh_mem_def spinlock_init_def spin_defs bump_alloc_def
  eval_nat_numeral c_int_def c_long_def c_limits

lemma a_wit_run:
  "\<exists>s0 s. a_main 0 0 True True 0 7 = Inr s0 \<and>
     run (a_threads_step (bump_alloc wit_node)) s0 a_wit_schedule = Inr s \<and> t_expected s = 1 \<and> t_i s = 1"
  by (simp add: a_eval a_wit_schedule_def)

lemma a_threads_fifo_witness:
  "\<exists>s0 s. a_main 0 0 True True 0 7 = Inr s0 \<and>
     reach (a_threads_step (bump_alloc wit_node)) s0 s \<and> t_expected s = 1 \<and> t_errors s = []"
proof -
  obtain s0 s where s: "a_main 0 0 True True 0 7 = Inr s0"
      "run (a_threads_step (bump_alloc wit_node)) s0 a_wit_schedule = Inr s" "t_expected s = 1"
    using a_wit_run by blast
  from a_threads_fifo [OF s(1) bump_alloc_fresh run_reach [OF s(2)]] s run_reach [OF s(2)]
  show ?thesis by blast
qed

section \<open>The lock alone\<close>

text \<open>
  Property C30. Any number of threads may use the spinlock: in every reachable state at most
  one is between lock and unlock, and if some thread is in an operation then a thread is
  inside or some thread's next step completes its lock or unlock (no deadlock).
\<close>

theorem spin_lock_correct:
  assumes "reach (drive spin_proto) spin_start y"
  shows "(\<forall>t u. holding (s_phase y t) \<and> holding (s_phase y u) \<longrightarrow> t = u) \<and>
    ((\<exists>t. s_phase y t \<noteq> Outside) \<longrightarrow>
      (\<exists>u. s_phase y u = Inside \<or> (\<exists>y'. spin_step y u = Inr y' \<and> s_phase y' u \<noteq> s_phase y u)))"
proof (intro conjI impI)
  have inv: "spin_inv y"
    using spin.driven.reach_good [OF assms]
    by (simp add: spin_inv_def spin_start_def spinlock_init_def lock_agrees_start)
  then show "\<forall>t u. holding (s_phase y t) \<and> holding (s_phase y u) \<longrightarrow> t = u"
    by (auto simp: spin_inv_def intro: lock_agrees_unique)
  assume "\<exists>t. s_phase y t \<noteq> Outside"
  then obtain t where t: "s_phase y t \<noteq> Outside" by blast
  show "\<exists>u. s_phase y u = Inside \<or> (\<exists>y'. spin_step y u = Inr y' \<and> s_phase y' u \<noteq> s_phase y u)"
  proof (cases "s_lock y = 1")
    case True
    with inv have "\<not> holding (s_phase y t)" by (auto simp: spin_inv_def lock_agrees_def)
    with t have "s_phase y t = Entering" by (cases "s_phase y t") auto
    with True show ?thesis by (intro exI [of _ t]) (simp add: spin_defs)
  next
    case False
    with inv obtain u where "holding (s_phase y u)"
      using lock_agrees_holder by (auto simp: spin_inv_def)
    then show ?thesis by (intro exI [of _ u]) (cases "s_phase y u"; simp add: spin_defs)
  qed
qed

section \<open>Operations of one thread\<close>

lemma spinlock_lock_free: "spinlock_lock 1 = Some 0"
  by (simp add: spinlock_lock.simps spin_defs)

lemma spinlock_lock_returns: "spinlock_lock l = Some l' \<Longrightarrow> l = 1"
proof (rule spinlock_lock.raw_induct [where P = "\<lambda>l l'. l = 1"])
  fix f :: "int \<Rightarrow> int option" and l l'
  assume IH: "\<And>l l'. f l = Some l' \<Longrightarrow> l = 1"
    and eq: "(if fst (spinlock_try l) then Some (snd (spinlock_try l)) else f (snd (spinlock_try l))) = Some l'"
  show "l = 1"
    using eq IH by (cases "l = 1") (auto simp: spin_defs)
qed

text \<open>
  Called with the lock free, \<open>queue_add\<close> and \<open>queue_get\<close> of the spinlock variant
  return with the lock free again on every path, with the result and the contents the
  abstract queue prescribes. Called with the lock taken (by the calling thread, say) they
  never return.
\<close>

lemma a_queue_ops:
  assumes wf: "wfq m xs" and al: "alloc_fresh alloc"
  shows "(\<forall>r l m'. a_queue_add alloc v (1, m) = Some (Inr (r, l, m')) \<longrightarrow>
      l = 1 \<and> (\<exists>ys. (r, ys) = spec_add (q_max_count (m_q m)) xs v \<and> wfq m' ys)) \<and>
    (\<forall>r w l m'. a_queue_get v0 (1, m) = Some (Inr (r, w, l, m')) \<longrightarrow>
      l = 1 \<and> (\<exists>ys. (r, w, ys) = spec_get v0 xs \<and> wfq m' ys)) \<and>
    a_queue_add alloc v (1, m) \<noteq> None \<and> a_queue_get v0 (1, m) \<noteq> None \<and>
    a_queue_add alloc v (0, m) = None \<and> a_queue_get v0 (0, m) = None"
proof -
  have "spinlock_lock 0 = None" using spinlock_lock_returns by (cases "spinlock_lock 0") fastforce+
  then have "a_queue_add alloc v (0, m) = None" "a_queue_get v0 (0, m) = None"
    "a_queue_add alloc v (1, m) \<noteq> None" "a_queue_get v0 (1, m) \<noteq> None"
    by (simp_all add: a_queue_add_def a_queue_get_def spinlock_lock_free)
  moreover have "l = 1 \<and> (\<exists>ys. (r, ys) = spec_add (q_max_count (m_q m)) xs v \<and> wfq m' ys)"
    if "a_queue_add alloc v (1, m) = Some (Inr (r, l, m'))" for r l m'
    using that queue_add_spec [OF wf al]
    by (auto simp: a_queue_add_def spinlock_lock_free outcome_simps spin_defs)
  moreover have "l = 1 \<and> (\<exists>ys. (r, w, ys) = spec_get v0 xs \<and> wfq m' ys)"
    if "a_queue_get v0 (1, m) = Some (Inr (r, w, l, m'))" for r w l m'
    using that queue_get_spec [OF wf]
    by (auto simp: a_queue_get_def spinlock_lock_free outcome_simps spin_defs)
  ultimately show ?thesis by blast
qed

text \<open>
  \<open>queue_destroy\<close> of the spinlock variant frees the lock and every node exactly
  once: nothing stays allocated. A second call with the same (dangling) pointer would free
  the lock block twice.
\<close>

lemma a_queue_destroy_frees:
  assumes "wfq m xs"
  shows "a_queue_destroy (Some l) (Some m) = Some (Inr (None, Map.empty)) \<and>
    a_queue_destroy None (Some m) = Some (Inl UseAfterFree)"
  using destroy_nodes_all [OF assms] by (simp add: a_queue_destroy_def)

lemma spin_lock_correct_witness:
  "\<exists>y :: nat spin. reach (drive spin_proto) spin_start y \<and> s_phase y 0 = Inside \<and> s_phase y 1 = Entering \<and>
     (\<exists>u. s_phase y u = Inside \<or> (\<exists>y'. spin_step y u = Inr y' \<and> s_phase y' u \<noteq> s_phase y u))"
proof -
  obtain y :: "nat spin" where y: "run (drive spin_proto) spin_start [Call 0 AddOp, Call 1 GetOp, Own 0, Own 1] = Inr y"
      "s_phase y 0 = Inside" "s_phase y 1 = Entering"
    by (simp add: spin_start_def spinlock_init_def spin_defs)
  then have "\<exists>t. s_phase y t \<noteq> Outside" by (intro exI [of _ 0]) simp
  with conjunct2 [OF spin_lock_correct [OF run_reach [OF y(1)]]] y run_reach [OF y(1)]
  show ?thesis by blast
qed

end
