(* ===== verification/FutexQueue.thy ===== *)
theory FutexQueue
  imports Threads
begin

text \<open>
  \<^verbatim>\<open>lab2/2/e-mutex\<close>: the queue protected by a mutex built from a compare-and-swap and
  the futex system call, and the reader and writer threads over it. The kernel's part of a
  futex is its documented behaviour: FUTEX_WAIT atomically compares the word with the value
  given and puts the caller to sleep when they are equal (else it fails with EAGAIN); a
  sleeping call may also return early, or fail because a signal interrupted it; FUTEX_WAKE
  with 1 wakes one sleeping thread, any of them, or none if none sleeps.
\<close>

section \<open>The mutex\<close>

text \<open>The lock word: 1 is free, 0 is taken.\<close>

definition mutex_init :: int where
  "mutex_init = 1"

definition mutex_try :: "int \<Rightarrow> bool \<times> int" where
  "mutex_try lock = atomic_cas lock 1 0"

definition mutex_release :: "int \<Rightarrow> bool \<times> int" where
  "mutex_release lock = atomic_cas lock 0 1"

text \<open>Does \<open>futex(&m->lock, FUTEX_WAIT, 0, ...)\<close> put the caller to sleep?\<close>

definition futex_wait_sleeps :: "int \<Rightarrow> int \<Rightarrow> bool" where
  "futex_wait_sleeps word val = (word = val)"

section \<open>The operations, run by one thread\<close>

text \<open>A thread alone that goes to sleep is never woken: the call does not return.\<close>

partial_function (option) mutex_lock :: "int \<Rightarrow> int option" where
  "mutex_lock lock =
     (if fst (mutex_try lock) then Some (snd (mutex_try lock))
      else if futex_wait_sleeps (snd (mutex_try lock)) 0 then None
      else mutex_lock (snd (mutex_try lock)))"

definition mutex_unlock :: "int \<Rightarrow> int" where
  "mutex_unlock lock = snd (mutex_release lock)"

definition e_queue_init :: "bool \<Rightarrow> bool \<Rightarrow> int \<Rightarrow> nat \<Rightarrow> int \<Rightarrow> fault + (int \<times> queue_t)" where
  "e_queue_init mutex_ok malloc_ok create_err tid max_count =
     (if \<not> mutex_ok then Inl NullDeref
      else bindr (queue_init malloc_ok create_err tid max_count) (\<lambda>q. Inr (mutex_init, q)))"

definition e_queue_add ::
  "qnode allocator \<Rightarrow> int \<Rightarrow> int \<times> qmem \<Rightarrow> (fault + (int \<times> int \<times> qmem)) option" where
  "e_queue_add alloc v s =
     (case mutex_lock (fst s) of
        None \<Rightarrow> None
      | Some lock \<Rightarrow> Some (bindr (queue_add alloc v (snd s)) (\<lambda>(r, m).
                     Inr (r, mutex_unlock lock, m))))"

definition e_queue_get ::
  "int \<Rightarrow> int \<times> qmem \<Rightarrow> (fault + (int \<times> int \<times> int \<times> qmem)) option" where
  "e_queue_get v0 s =
     (case mutex_lock (fst s) of
        None \<Rightarrow> None
      | Some lock \<Rightarrow> Some (bindr (queue_get v0 (snd s)) (\<lambda>(r, v, m).
                     Inr (r, v, mutex_unlock lock, m))))"

definition e_queue_destroy ::
  "int option \<Rightarrow> qmem option \<Rightarrow> (fault + (int option \<times> qnode heap)) option" where
  "e_queue_destroy mutex q =
     (case q of
        None \<Rightarrow> Some (Inr (mutex, Map.empty))
      | Some m \<Rightarrow>
          (if mutex = None then Some (Inl UseAfterFree)
           else (case destroy_nodes (q_first (m_q m)) (m_heap m) of
                   None \<Rightarrow> None
                 | Some (Inl e) \<Rightarrow> Some (Inl e)
                 | Some (Inr h) \<Rightarrow> Some (Inr (None, h)))))"

section \<open>The mutex as a protocol\<close>

text \<open>
  Where a thread is: outside, before the compare-and-swap of \<open>mutex_lock\<close>, before FUTEX_WAIT,
  asleep in it, inside, before the compare-and-swap of \<open>mutex_unlock\<close>, before FUTEX_WAKE.
\<close>

datatype futex_pc = X_out | X_cas | X_wait | X_sleep | X_in | X_unlock | X_wake

fun futex_phase :: "futex_pc \<Rightarrow> phase" where
  "futex_phase X_out = Outside"
| "futex_phase X_cas = Entering"
| "futex_phase X_wait = Entering"
| "futex_phase X_sleep = Entering"
| "futex_phase X_in = Inside"
| "futex_phase X_unlock = Leaving"
| "futex_phase X_wake = Leaving"

text \<open>\<open>x_sleepers\<close> is the kernel's list of the threads asleep on the lock word.\<close>

record 't futex =
  x_lock :: int
  x_pc :: "'t \<Rightarrow> futex_pc"
  x_sleepers :: "'t list"

text \<open>
  \<open>XStep t n\<close>: thread \<open>t\<close> moves (\<open>n\<close> chooses the sleeper that a FUTEX_WAKE wakes);
  \<open>XReturn t\<close>: the sleeping \<open>t\<close> returns early with 0; \<open>XFail t\<close>: the futex call of \<open>t\<close> fails
  with another error than EAGAIN.
\<close>

datatype 't futex_event = XStep 't nat | XReturn 't | XFail 't

definition futex_call :: "'t futex \<Rightarrow> 't \<Rightarrow> kind \<Rightarrow> 't futex" where
  "futex_call y t k = y\<lparr>x_pc := (x_pc y)(t := X_cas)\<rparr>"

definition futex_leave :: "'t futex \<Rightarrow> 't \<Rightarrow> 't futex" where
  "futex_leave y t = y\<lparr>x_pc := (x_pc y)(t := X_unlock)\<rparr>"

fun futex_step :: "'t futex \<Rightarrow> 't futex_event \<Rightarrow> fault + 't futex" where
  "futex_step y (XStep t n) =
     (case x_pc y t of
        X_cas \<Rightarrow>
          (case mutex_try (x_lock y) of
             (True, l) \<Rightarrow> Inr (y\<lparr>x_lock := l, x_pc := (x_pc y)(t := X_in)\<rparr>)
           | (False, l) \<Rightarrow> Inr (y\<lparr>x_lock := l, x_pc := (x_pc y)(t := X_wait)\<rparr>))
      | X_wait \<Rightarrow>
          (if futex_wait_sleeps (x_lock y) 0
           then Inr (y\<lparr>x_pc := (x_pc y)(t := X_sleep), x_sleepers := x_sleepers y @ [t]\<rparr>)
           else Inr (y\<lparr>x_pc := (x_pc y)(t := X_cas)\<rparr>))
      | X_unlock \<Rightarrow>
          (case mutex_release (x_lock y) of
             (True, l) \<Rightarrow> Inr (y\<lparr>x_lock := l, x_pc := (x_pc y)(t := X_wake)\<rparr>)
           | (False, l) \<Rightarrow> Inr (y\<lparr>x_lock := l, x_pc := (x_pc y)(t := X_out)\<rparr>))
      | X_wake \<Rightarrow>
          (if x_sleepers y = [] then Inr (y\<lparr>x_pc := (x_pc y)(t := X_out)\<rparr>)
           else let u = x_sleepers y ! (n mod length (x_sleepers y))
                in Inr (y\<lparr>x_pc := (x_pc y)(t := X_out, u := X_cas),
                          x_sleepers := remove1 u (x_sleepers y)\<rparr>))
      | _ \<Rightarrow> Inr y)"
| "futex_step y (XReturn t) =
     (if x_pc y t = X_sleep
      then Inr (y\<lparr>x_pc := (x_pc y)(t := X_cas), x_sleepers := remove1 t (x_sleepers y)\<rparr>)
      else Inr y)"
| "futex_step y (XFail t) =
     (case x_pc y t of
        X_wait \<Rightarrow> Inl (Abort ''Futex wait failed'')
      | X_sleep \<Rightarrow> Inl (Abort ''Futex wait failed'')
      | X_wake \<Rightarrow> Inl (Abort ''Futex wake failed'')
      | _ \<Rightarrow> Inr y)"

definition futex_proto :: "('t futex, 't, 't futex_event) proto" where
  "futex_proto = \<lparr>p_phase = (\<lambda>y t. futex_phase (x_pc y t)), p_call = futex_call,
                  p_leave = futex_leave, p_step = futex_step\<rparr>"

definition futex_start :: "'t futex" where
  "futex_start = \<lparr>x_lock = mutex_init, x_pc = (\<lambda>_. X_out), x_sleepers = []\<rparr>"

text \<open>
  The lock is held from the successful compare-and-swap to the one of the unlock: a thread
  about to wake another has released it already.
\<close>

fun futex_held :: "futex_pc \<Rightarrow> phase" where
  "futex_held X_in = Inside"
| "futex_held X_unlock = Leaving"
| "futex_held _ = Outside"

definition awake :: "'t futex \<Rightarrow> 't \<Rightarrow> bool" where
  "awake y t \<longleftrightarrow> x_pc y t = X_wake \<or> x_pc y t = X_cas \<or> x_pc y t = X_wait"

definition futex_inv :: "'t futex \<Rightarrow> bool" where
  "futex_inv y \<longleftrightarrow>
     (x_lock y = 0 \<or> x_lock y = 1) \<and> lock_agrees (x_lock y = 1) (futex_held \<circ> x_pc y) \<and>
     distinct (x_sleepers y) \<and> (\<forall>t. t \<in> set (x_sleepers y) \<longleftrightarrow> x_pc y t = X_sleep) \<and>
     (x_lock y = 1 \<and> x_sleepers y \<noteq> [] \<longrightarrow> (\<exists>t. awake y t))"

lemmas futex_defs = futex_call_def futex_leave_def futex_proto_def
  mutex_try_def mutex_release_def mutex_unlock_def futex_wait_sleeps_def atomic_cas_def

text \<open>
  The parts of the invariant under a change of one thread's position, each a lemma: the
  holder, the list of sleepers, and the promise that somebody is awake.
\<close>

definition sleepers_ok :: "'t futex \<Rightarrow> bool" where
  "sleepers_ok y \<longleftrightarrow> distinct (x_sleepers y) \<and> (\<forall>t. t \<in> set (x_sleepers y) \<longleftrightarrow> x_pc y t = X_sleep)"

lemma futex_inv_parts:
  "futex_inv y \<longleftrightarrow> (x_lock y = 0 \<or> x_lock y = 1) \<and> lock_agrees (x_lock y = 1) (futex_held \<circ> x_pc y) \<and>
     sleepers_ok y \<and> (x_lock y = 1 \<and> x_sleepers y \<noteq> [] \<longrightarrow> (\<exists>t. awake y t))"
  by (auto simp: futex_inv_def sleepers_ok_def)

lemma futex_inv_call: "futex_inv y \<Longrightarrow> x_pc y t = X_out \<Longrightarrow> futex_inv (futex_call y t k)"
  unfolding futex_inv_parts
  by (auto simp: futex_call_def sleepers_ok_def awake_def fun_upd_comp
            intro!: lock_agrees_same split: if_splits)

lemma futex_inv_leave: "futex_inv y \<Longrightarrow> x_pc y t = X_in \<Longrightarrow> futex_inv (futex_leave y t)"
  unfolding futex_inv_parts
  using lock_agrees_free [of "x_lock y = 1" "futex_held \<circ> x_pc y" t]
  by (auto simp: futex_leave_def sleepers_ok_def awake_def fun_upd_comp
            intro!: lock_agrees_same split: if_splits)

lemma futex_inv_step:
  assumes inv: "futex_inv y" and st: "futex_step y e = Inr y'"
  shows "futex_inv y'"
proof (cases e)
  case (XStep t n)
  show ?thesis
  proof (cases "x_pc y t")
    case X_cas
    show ?thesis
    proof (cases "x_lock y = 1")
      case True
      have "lock_agrees False ((futex_held \<circ> x_pc y)(t := Inside))"
        using inv True by (intro lock_agrees_enter) (simp add: futex_inv_parts)
      with True X_cas XStep inv st show ?thesis
        by (auto simp: futex_inv_parts sleepers_ok_def futex_defs fun_upd_comp split: if_splits)
    next
      case False
      with X_cas XStep inv st show ?thesis
        by (auto simp: futex_inv_parts sleepers_ok_def futex_defs fun_upd_comp
            intro!: lock_agrees_same split: if_splits)
    qed
  next
    case X_wait
    with XStep inv st show ?thesis
      by (auto simp: futex_inv_parts sleepers_ok_def awake_def futex_defs fun_upd_comp
          intro!: lock_agrees_same split: if_splits)
  next
    case X_unlock
    then have hold: "(futex_held \<circ> x_pc y) t = Leaving" by simp
    with inv have l: "x_lock y = 0"
      using lock_agrees_free [of "x_lock y = 1" "futex_held \<circ> x_pc y" t] by (auto simp: futex_inv_parts)
    have "lock_agrees True ((futex_held \<circ> x_pc y)(t := Outside))"
      using inv hold by (intro lock_agrees_exit) (auto simp: futex_inv_parts)
    with l X_unlock XStep inv st show ?thesis
      by (auto simp: futex_inv_parts sleepers_ok_def awake_def futex_defs fun_upd_comp split: if_splits)
  next
    case X_wake
    show ?thesis
    proof (cases "x_sleepers y = []")
      case True
      with X_wake XStep inv st show ?thesis
        by (auto simp: futex_inv_parts sleepers_ok_def futex_defs fun_upd_comp
            intro!: lock_agrees_same split: if_splits)
    next
      case False
      define u where "u = x_sleepers y ! (n mod length (x_sleepers y))"
      have u: "u \<in> set (x_sleepers y)" using False by (simp add: u_def)
      with inv have us: "x_pc y u = X_sleep" and ut: "u \<noteq> t" using X_wake
        by (auto simp: futex_inv_parts sleepers_ok_def)
      have y': "y' = y\<lparr>x_pc := (x_pc y)(t := X_out, u := X_cas), x_sleepers := remove1 u (x_sleepers y)\<rparr>"
        using st XStep X_wake False by (simp add: u_def Let_def)
      have "lock_agrees (x_lock y = 1) ((futex_held \<circ> x_pc y)(t := Outside, u := Outside))"
        using inv us ut X_wake by (intro lock_agrees_same) (auto simp: futex_inv_parts)
      with inv us ut X_wake show ?thesis
        unfolding y' by (auto simp: futex_inv_parts sleepers_ok_def awake_def fun_upd_comp)
    qed
  qed (use XStep inv st in auto)
next
  case (XReturn t)
  with inv st show ?thesis
    by (auto simp: futex_inv_parts sleepers_ok_def awake_def fun_upd_comp
        intro!: lock_agrees_same split: if_splits)
next
  case (XFail t)
  with inv st show ?thesis by (auto split: futex_pc.splits)
qed

lemma futex_step_phase:
  assumes inv: "futex_inv y" and st: "futex_step y e = Inr y'"
  shows "futex_phase (x_pc y' t) = futex_phase (x_pc y t) \<or>
    futex_phase (x_pc y t) = Entering \<and> futex_phase (x_pc y' t) = Inside \<or>
    futex_phase (x_pc y t) = Leaving \<and> futex_phase (x_pc y' t) = Outside"
proof -
  have sleep: "x_pc y (x_sleepers y ! (n mod length (x_sleepers y))) = X_sleep"
    if "x_sleepers y \<noteq> []" for n
  proof -
    have "x_sleepers y ! (n mod length (x_sleepers y)) \<in> set (x_sleepers y)"
      using that by simp
    with inv show ?thesis by (auto simp: futex_inv_def)
  qed
  show ?thesis
    using st sleep
    by (cases e)
      (auto simp: futex_defs Let_def split: futex_pc.splits if_splits)
qed

interpretation futex: sync_protocol futex_proto futex_inv
proof unfold_locales
  fix y :: "'t futex" and t u :: 't and k e y' f
  have phase_out: "futex_phase p = Outside \<longleftrightarrow> p = X_out" for p by (cases p) auto
  have phase_in: "futex_phase p = Inside \<longleftrightarrow> p = X_in" for p by (cases p) auto
  show "futex_inv y \<Longrightarrow> p_phase futex_proto y t = Outside \<Longrightarrow> futex_inv (p_call futex_proto y t k)"
    by (simp add: futex_proto_def phase_out futex_inv_call)
  show "futex_inv y \<Longrightarrow> p_phase futex_proto y t = Outside \<Longrightarrow>
      p_phase futex_proto (p_call futex_proto y t k) u = (if u = t then Entering else p_phase futex_proto y u)"
    by (simp add: futex_defs)
  show "futex_inv y \<Longrightarrow> p_phase futex_proto y t = Inside \<Longrightarrow> futex_inv (p_leave futex_proto y t)"
    by (simp add: futex_proto_def phase_in futex_inv_leave)
  show "futex_inv y \<Longrightarrow> p_phase futex_proto y t = Inside \<Longrightarrow>
      p_phase futex_proto (p_leave futex_proto y t) u = (if u = t then Leaving else p_phase futex_proto y u)"
    by (simp add: futex_defs)
  show "futex_inv y \<Longrightarrow> p_step futex_proto y e = Inr y' \<Longrightarrow> futex_inv y'"
    using futex_inv_step by (simp add: futex_proto_def)
  show "futex_inv y \<Longrightarrow> p_step futex_proto y e = Inr y' \<Longrightarrow>
      p_phase futex_proto y' t = p_phase futex_proto y t \<or>
      p_phase futex_proto y t = Entering \<and> p_phase futex_proto y' t = Inside \<or>
      p_phase futex_proto y t = Leaving \<and> p_phase futex_proto y' t = Outside"
    using futex_step_phase by (simp add: futex_proto_def)
  show "futex_inv y \<Longrightarrow> p_phase futex_proto y t = Inside \<Longrightarrow> p_phase futex_proto y u = Inside \<Longrightarrow> t = u"
    using lock_agrees_unique [of "x_lock y = 1" "futex_held \<circ> x_pc y" t u]
    by (simp add: futex_proto_def phase_in futex_inv_parts)
  show "futex_inv y \<Longrightarrow> p_step futex_proto y e = Inl f \<Longrightarrow> \<exists>msg. f = Abort msg"
    by (cases e) (auto simp: futex_proto_def Let_def split: futex_pc.splits if_splits prod.splits bool.splits)
qed

section \<open>The mutex alone\<close>

lemma futex_start_inv: "futex_inv futex_start"
  using lock_agrees_start
  by (simp add: futex_inv_def futex_start_def mutex_init_def comp_def)

text \<open>
  Property C6. Any number of threads may use the futex mutex: in every reachable state at most
  one holds it, and no wake-up is lost. Whenever a thread is in an operation, some thread is
  inside the queue or can make a step of its own that is not a blocked sleep; in particular
  threads never all sleep while the lock is free.
\<close>

theorem futex_mutex_correct:
  assumes "reach (drive futex_proto) futex_start y"
  shows "(\<forall>t u. x_pc y t = X_in \<and> x_pc y u = X_in \<longrightarrow> t = u) \<and>
    ((\<exists>t. x_pc y t \<noteq> X_out) \<longrightarrow>
      (\<exists>u. x_pc y u = X_in \<or> x_pc y u = X_unlock \<or> awake y u)) \<and>
    ((\<exists>t. x_pc y t = X_sleep) \<and> x_lock y = 1 \<longrightarrow> (\<exists>u. awake y u))"
proof (intro conjI impI)
  have inv: "futex_inv y"
    by (rule futex.driven.reach_good [OF assms futex_start_inv])
  then have agree: "lock_agrees (x_lock y = 1) (futex_held \<circ> x_pc y)" by (simp add: futex_inv_def)
  from lock_agrees_unique [OF agree]
  show "\<forall>t u. x_pc y t = X_in \<and> x_pc y u = X_in \<longrightarrow> t = u" by fastforce
  show sl: "\<exists>u. awake y u" if "(\<exists>t. x_pc y t = X_sleep) \<and> x_lock y = 1"
    using inv that by (auto simp: futex_inv_def)
  assume "\<exists>t. x_pc y t \<noteq> X_out"
  then obtain t where t: "x_pc y t \<noteq> X_out" by blast
  show "\<exists>u. x_pc y u = X_in \<or> x_pc y u = X_unlock \<or> awake y u"
  proof (cases "x_pc y t = X_sleep \<and> x_lock y \<noteq> 1")
    case True
    with agree obtain u where "holding ((futex_held \<circ> x_pc y) u)"
      using lock_agrees_holder [of "futex_held \<circ> x_pc y"] by auto
    then show ?thesis by (intro exI [of _ u]) (cases "x_pc y u"; simp)
  next
    case False
    with t sl show ?thesis by (cases "x_pc y t") (auto simp: awake_def)
  qed
qed

text \<open>
  A run in which thread 1 falls asleep and is woken: thread 0 takes the lock, 1 fails its
  compare-and-swap and sleeps, 0 unlocks (the lock is then free while 1 sleeps).
\<close>

lemma futex_mutex_correct_witness:
  "\<exists>y :: nat futex. reach (drive futex_proto) futex_start y \<and> x_pc y 1 = X_sleep \<and> x_lock y = 1 \<and>
     (\<exists>u. awake y u)"
proof -
  obtain y :: "nat futex" where y: "run (drive futex_proto) futex_start
      [Call 0 AddOp, Own (XStep 0 0), Call 1 GetOp, Own (XStep 1 0), Own (XStep 1 0),
       Leave 0, Own (XStep 0 0)] = Inr y" "x_pc y 1 = X_sleep" "x_lock y = 1"
    by (simp add: futex_start_def mutex_init_def futex_defs)
  from futex_mutex_correct [OF run_reach [OF y(1)]] y run_reach [OF y(1)] show ?thesis by blast
qed

section \<open>The program\<close>

definition e_threads_step ::
  "qnode allocator \<Rightarrow> role futex threads \<Rightarrow> role futex_event event \<Rightarrow> fault + role futex threads" where
  "e_threads_step alloc = threads_step futex_proto alloc"

definition e_main ::
  "int \<Rightarrow> int \<Rightarrow> bool \<Rightarrow> bool \<Rightarrow> int \<Rightarrow> nat \<Rightarrow> fault + role futex threads" where
  "e_main err_reader err_writer mutex_ok malloc_ok create_err tid =
     threads_main err_reader err_writer
       (bindr (e_queue_init mutex_ok malloc_ok create_err tid 1000000) (\<lambda>(lock, q).
        Inr (\<lparr>x_lock = lock, x_pc = (\<lambda>_. X_out), x_sleepers = []\<rparr>, q)))"

interpretation e_threads: queue_threads futex_proto futex_inv
  by unfold_locales

lemma e_main_inv:
  assumes "e_main er ew xok mok cerr tid = Inr s0"
  shows "threads_inv futex_proto futex_inv alloc s0"
proof -
  from assms obtain q where q: "queue_init mok cerr tid 1000000 = Inr q"
      and s0: "s0 = threads_start futex_start q"
    by (auto simp: e_main_def threads_main_def e_queue_init_def futex_start_def outcome_simps
             split: if_splits)
  show ?thesis unfolding s0
    by (rule e_threads.start_inv [OF futex_start_inv _ _ _ q])
      (auto simp: futex_start_def futex_proto_def c_limits)
qed

lemma futex_step_faults:
  "futex_step y e = Inl f \<Longrightarrow> f = Abort ''Futex wait failed'' \<or> f = Abort ''Futex wake failed''"
  by (cases e) (auto simp: Let_def split: futex_pc.splits if_splits prod.splits bool.splits)

text \<open>
  In every execution of the futex-mutex program the reader receives 0, 1, 2, ...
  in order and never prints an ERROR line, and the threads are never both inside the queue. No
  step fails but by signed overflow, by \<open>malloc\<close> returning NULL or by a futex call that returns
  an error.
\<close>

theorem e_threads_fifo:
  assumes "e_main er ew xok mok cerr tid = Inr s0" and "alloc_fresh alloc"
    and "reach (e_threads_step alloc) s0 s"
  shows "t_errors s = [] \<and> \<not> ((\<exists>g. t_rpc s = R_body g) \<and> (\<exists>a. t_wpc s = W_body a)) \<and>
    (\<forall>ev f. e_threads_step alloc s ev = Inl f \<longrightarrow>
      f = SignedOverflow \<or> f = Abort ''Cannot allocate memory for new node'' \<or>
      f = Abort ''Futex wait failed'' \<or> f = Abort ''Futex wake failed'')"
proof -
  from assms(3) have inv: "threads_inv futex_proto futex_inv alloc s"
    unfolding e_threads_step_def
    using e_threads.reach_inv e_main_inv [OF assms(1)] assms(2) by blast
  have "f = SignedOverflow \<or> f = Abort ''Cannot allocate memory for new node'' \<or>
      f = Abort ''Futex wait failed'' \<or> f = Abort ''Futex wake failed''"
    if "e_threads_step alloc s ev = Inl f" for ev f
    using e_threads.threads_fault [OF inv that [unfolded e_threads_step_def]]
    by (auto simp: futex_proto_def oom_def dest: futex_step_faults)
  moreover have "t_errors s = []" using inv by (simp add: threads_inv_def)
  ultimately show ?thesis using e_threads.one_inside [OF inv] by auto
qed

text \<open>
  The writer takes the lock, the reader goes to sleep on it, the writer leaves and wakes the
  reader, which then takes the value 0.
\<close>

definition e_wit_schedule :: "role futex_event event list" where
  "e_wit_schedule =
     [Run Writer, Sync (XStep Writer 0), Run Reader, Sync (XStep Reader 0), Sync (XStep Reader 0)] @
     replicate 18 (Run Writer) @
     [Sync (XStep Writer 0), Sync (XStep Writer 0), Sync (XStep Reader 0)] @
     replicate 2 (Run Writer) @ replicate 17 (Run Reader) @
     [Sync (XStep Reader 0), Sync (XStep Reader 0)] @ replicate 2 (Run Reader)"

lemmas e_eval = e_main_def threads_main_def e_queue_init_def queue_init_def threads_start_def
  e_threads_step_def fresh_mem_def mutex_init_def futex_defs bump_alloc_def
  eval_nat_numeral c_int_def c_long_def c_limits

lemma e_wit_run:
  "\<exists>s0 s. e_main 0 0 True True 0 7 = Inr s0 \<and>
     run (e_threads_step (bump_alloc wit_node)) s0 e_wit_schedule = Inr s \<and> t_expected s = 1 \<and> t_i s = 1"
  by (simp add: e_eval e_wit_schedule_def)

lemma e_threads_fifo_witness:
  "\<exists>s0 s. e_main 0 0 True True 0 7 = Inr s0 \<and>
     reach (e_threads_step (bump_alloc wit_node)) s0 s \<and> t_expected s = 1 \<and> t_errors s = []"
proof -
  obtain s0 s where s: "e_main 0 0 True True 0 7 = Inr s0"
      "run (e_threads_step (bump_alloc wit_node)) s0 e_wit_schedule = Inr s" "t_expected s = 1"
    using e_wit_run by blast
  from e_threads_fifo [OF s(1) bump_alloc_fresh run_reach [OF s(2)]] s run_reach [OF s(2)]
  show ?thesis by blast
qed

section \<open>Operations of one thread\<close>

text \<open>
  Property C31. \<open>queue_add\<close> and \<open>queue_get\<close> of the mutex variant, called with the mutex free,
  return with it free on every path, with the abstract queue's result and contents; called
  with it taken by the calling thread they sleep for ever.
\<close>

theorem e_queue_ops:
  assumes wf: "wfq m xs" and al: "alloc_fresh alloc"
  shows "(\<forall>r l m'. e_queue_add alloc v (1, m) = Some (Inr (r, l, m')) \<longrightarrow>
      l = 1 \<and> (\<exists>ys. (r, ys) = spec_add (q_max_count (m_q m)) xs v \<and> wfq m' ys)) \<and>
    (\<forall>r w l m'. e_queue_get v0 (1, m) = Some (Inr (r, w, l, m')) \<longrightarrow>
      l = 1 \<and> (\<exists>ys. (r, w, ys) = spec_get v0 xs \<and> wfq m' ys)) \<and>
    e_queue_add alloc v (1, m) \<noteq> None \<and> e_queue_get v0 (1, m) \<noteq> None \<and>
    e_queue_add alloc v (0, m) = None \<and> e_queue_get v0 (0, m) = None"
proof -
  have lock: "mutex_lock 1 = Some 0" "mutex_lock 0 = None"
    by (simp_all add: mutex_lock.simps futex_defs)
  have "l = 1 \<and> (\<exists>ys. (r, ys) = spec_add (q_max_count (m_q m)) xs v \<and> wfq m' ys)"
    if "e_queue_add alloc v (1, m) = Some (Inr (r, l, m'))" for r l m'
    using that queue_add_spec [OF wf al]
    by (auto simp: e_queue_add_def lock outcome_simps futex_defs)
  moreover have "l = 1 \<and> (\<exists>ys. (r, w, ys) = spec_get v0 xs \<and> wfq m' ys)"
    if "e_queue_get v0 (1, m) = Some (Inr (r, w, l, m'))" for r w l m'
    using that queue_get_spec [OF wf]
    by (auto simp: e_queue_get_def lock outcome_simps futex_defs)
  ultimately show ?thesis by (simp add: e_queue_add_def e_queue_get_def lock)
qed

lemma e_queue_ops_witness:
  "\<exists>l m'. e_queue_get (-1) (1, two_values) = Some (Inr (1, 4, l, m')) \<and> l = 1 \<and> wfq m' [9]"
proof -
  obtain l m' where g: "e_queue_get (-1) (1, two_values) = Some (Inr (1, 4, l, m'))"
    by (simp add: e_queue_get_def mutex_lock.simps futex_defs two_values_def queue_get_def
      c_int_def c_long_def c_limits)
  from e_queue_ops [OF two_values_wf bump_alloc_fresh, of wit_node 0 "-1"] g
  have "l = 1 \<and> (\<exists>ys. (1, 4, ys) = spec_get (-1) [4, 9] \<and> wfq m' ys)" by blast
  with g show ?thesis by auto
qed

text \<open>
  \<open>queue_destroy\<close> of the mutex variant frees the mutex and every node; a second
  call would free the mutex twice.
\<close>

lemma e_queue_destroy_frees:
  assumes "wfq m xs"
  shows "e_queue_destroy (Some l) (Some m) = Some (Inr (None, Map.empty)) \<and>
    e_queue_destroy None (Some m) = Some (Inl UseAfterFree)"
  using destroy_nodes_all [OF assms] by (simp add: e_queue_destroy_def)

end
