(* ===== verification/CondQueue.thy ===== *)
theory CondQueue
  imports Threads
begin

text \<open>
  \<^verbatim>\<open>lab2/2/f-cond_var\<close>: the queue protected by a pthread mutex, with a condition variable
  and the variable \<open>operation\<close> that makes additions and removals take turns. POSIX gives the
  behaviour of the library calls: a mutex has at most one owner; \<open>pthread_cond_wait\<close> releases
  it and blocks in one atomic step, and owns it again when it returns; \<open>pthread_cond_signal\<close>
  unblocks a blocked thread, any of them; a wait may also end spuriously.
\<close>

section \<open>The turn variable\<close>

definition READ :: int where "READ = 1"
definition WRITE :: int where "WRITE = 0"

text \<open>The value each operation waits for, and the value it sets before it signals.\<close>

fun waits_for :: "kind \<Rightarrow> int" where
  "waits_for AddOp = WRITE"
| "waits_for GetOp = READ"

fun hands_to :: "kind \<Rightarrow> int" where
  "hands_to AddOp = READ"
| "hands_to GetOp = WRITE"

section \<open>The operations, run by one thread\<close>

text \<open>
  A thread alone that waits for its turn is never signalled: the call does not return. The lemma
  \<open>lone_call\<close> below derives this use of the turn from the calls to the mutex and the condition
  variable.
\<close>

definition f_queue_init :: "bool \<Rightarrow> int \<Rightarrow> nat \<Rightarrow> int \<Rightarrow> fault + queue_t" where
  "f_queue_init malloc_ok create_err tid max_count = queue_init malloc_ok create_err tid max_count"

definition f_queue_add ::
  "qnode allocator \<Rightarrow> int \<Rightarrow> int \<times> qmem \<Rightarrow> (fault + (int \<times> int \<times> qmem)) option" where
  "f_queue_add alloc v s =
     (if fst s \<noteq> WRITE then None
      else Some (bindr (queue_add alloc v (snd s)) (\<lambda>(r, m). Inr (r, READ, m))))"

definition f_queue_get ::
  "int \<Rightarrow> int \<times> qmem \<Rightarrow> (fault + (int \<times> int \<times> int \<times> qmem)) option" where
  "f_queue_get v0 s =
     (if fst s \<noteq> READ then None
      else Some (bindr (queue_get v0 (snd s)) (\<lambda>(r, v, m). Inr (r, v, WRITE, m))))"

definition f_queue_destroy :: "qmem option \<Rightarrow> (fault + qnode heap) option" where
  "f_queue_destroy q =
     (case q of
        None \<Rightarrow> Some (Inr Map.empty)
      | Some m \<Rightarrow> destroy_nodes (q_first (m_q m)) (m_heap m))"

section \<open>The bracket as a protocol\<close>

datatype cond_pc =
  F_out | F_lock | F_test | F_wait | F_relock | F_in | F_set | F_signal | F_unlock

fun cond_phase :: "cond_pc \<Rightarrow> phase" where
  "cond_phase F_out = Outside"
| "cond_phase F_lock = Entering"
| "cond_phase F_test = Entering"
| "cond_phase F_wait = Entering"
| "cond_phase F_relock = Entering"
| "cond_phase F_in = Inside"
| "cond_phase F_set = Leaving"
| "cond_phase F_signal = Leaving"
| "cond_phase F_unlock = Leaving"

record 't cond =
  c_operation :: int
  c_owner :: "'t option"
  c_waiting :: "'t list"
  c_pc :: "'t \<Rightarrow> cond_pc"
  c_kind :: "'t \<Rightarrow> kind"

text \<open>\<open>FStep t n\<close>: thread \<open>t\<close> moves, \<open>n\<close> chooses whom a signal unblocks; \<open>FSpurious t\<close>: the
  wait of \<open>t\<close> ends without a signal.\<close>

datatype 't cond_event = FStep 't nat | FSpurious 't

definition cond_call :: "'t cond \<Rightarrow> 't \<Rightarrow> kind \<Rightarrow> 't cond" where
  "cond_call y t k = y\<lparr>c_pc := (c_pc y)(t := F_lock), c_kind := (c_kind y)(t := k)\<rparr>"

definition cond_leave :: "'t cond \<Rightarrow> 't \<Rightarrow> 't cond" where
  "cond_leave y t = y\<lparr>c_pc := (c_pc y)(t := F_set)\<rparr>"

fun cond_step :: "'t cond \<Rightarrow> 't cond_event \<Rightarrow> fault + 't cond" where
  "cond_step y (FStep t n) =
     (case c_pc y t of
        F_lock \<Rightarrow>
          (if c_owner y = None then Inr (y\<lparr>c_owner := Some t, c_pc := (c_pc y)(t := F_test)\<rparr>)
           else Inr y)
      | F_test \<Rightarrow>
          (if c_operation y \<noteq> waits_for (c_kind y t)
           then Inr (y\<lparr>c_owner := None, c_waiting := c_waiting y @ [t],
                       c_pc := (c_pc y)(t := F_wait)\<rparr>)
           else Inr (y\<lparr>c_pc := (c_pc y)(t := F_in)\<rparr>))
      | F_relock \<Rightarrow>
          (if c_owner y = None then Inr (y\<lparr>c_owner := Some t, c_pc := (c_pc y)(t := F_test)\<rparr>)
           else Inr y)
      | F_set \<Rightarrow>
          Inr (y\<lparr>c_operation := hands_to (c_kind y t), c_pc := (c_pc y)(t := F_signal)\<rparr>)
      | F_signal \<Rightarrow>
          (if c_waiting y = [] then Inr (y\<lparr>c_pc := (c_pc y)(t := F_unlock)\<rparr>)
           else let u = c_waiting y ! (n mod length (c_waiting y))
                in Inr (y\<lparr>c_waiting := remove1 u (c_waiting y),
                          c_pc := (c_pc y)(t := F_unlock, u := F_relock)\<rparr>))
      | F_unlock \<Rightarrow> Inr (y\<lparr>c_owner := None, c_pc := (c_pc y)(t := F_out)\<rparr>)
      | _ \<Rightarrow> Inr y)"
| "cond_step y (FSpurious t) =
     (if c_pc y t = F_wait
      then Inr (y\<lparr>c_waiting := remove1 t (c_waiting y), c_pc := (c_pc y)(t := F_relock)\<rparr>)
      else Inr y)"

definition cond_proto :: "('t cond, 't, 't cond_event) proto" where
  "cond_proto = \<lparr>p_phase = (\<lambda>y t. cond_phase (c_pc y t)), p_call = cond_call,
                 p_leave = cond_leave, p_step = cond_step\<rparr>"

definition cond_start :: "'t cond" where
  "cond_start = \<lparr>c_operation = WRITE, c_owner = None, c_waiting = [], c_pc = (\<lambda>_. F_out),
                 c_kind = (\<lambda>_. AddOp)\<rparr>"

fun owns :: "cond_pc \<Rightarrow> bool" where
  "owns F_test = True"
| "owns F_in = True"
| "owns F_set = True"
| "owns F_signal = True"
| "owns F_unlock = True"
| "owns _ = False"

text \<open>
  The invariant: the owner of the mutex is the thread whose position says so, the blocked
  threads are those in the wait, and a thread that passed the test still has the turn.
\<close>

definition cond_inv :: "'t cond \<Rightarrow> bool" where
  "cond_inv y \<longleftrightarrow>
     (\<forall>t. c_owner y = Some t \<longleftrightarrow> owns (c_pc y t)) \<and>
     distinct (c_waiting y) \<and> (\<forall>t. t \<in> set (c_waiting y) \<longleftrightarrow> c_pc y t = F_wait) \<and>
     (\<forall>t. c_pc y t = F_in \<or> c_pc y t = F_set \<longrightarrow> c_operation y = waits_for (c_kind y t)) \<and>
     (c_operation y = READ \<or> c_operation y = WRITE)"

lemmas cond_defs = cond_call_def cond_leave_def cond_proto_def READ_def WRITE_def

lemma cond_phase_simps [simp]:
  "cond_phase p = Outside \<longleftrightarrow> p = F_out" "cond_phase p = Inside \<longleftrightarrow> p = F_in"
  by (cases p; simp)+

lemma cond_waiting_nth:
  "cond_inv y \<Longrightarrow> c_waiting y \<noteq> [] \<Longrightarrow> c_pc y (c_waiting y ! (n mod length (c_waiting y))) = F_wait"
  unfolding cond_inv_def by (metis length_greater_0_conv mod_less_divisor nth_mem)

lemma cond_owner_unique: "cond_inv y \<Longrightarrow> owns (c_pc y t) \<Longrightarrow> owns (c_pc y u) \<Longrightarrow> u = t"
  unfolding cond_inv_def by (metis option.inject)

lemma cond_inv_step_t:
  assumes inv: "cond_inv y" and st: "cond_step y (FStep t n) = Inr y'"
  shows "cond_inv y'"
proof (cases "c_pc y t")
  case F_lock
  with inv st show ?thesis by (auto simp: cond_inv_def split: if_splits)
next
  case F_test
  with cond_owner_unique [OF inv, of t] inv st show ?thesis
    by (auto simp: cond_inv_def split: if_splits)
next
  case F_relock
  with inv st show ?thesis by (auto simp: cond_inv_def split: if_splits)
next
  case F_set
  have "c_pc y u \<noteq> F_in" "u \<noteq> t \<Longrightarrow> c_pc y u \<noteq> F_set" for u
    using cond_owner_unique [OF inv, of t u] F_set by auto
  with F_set inv st show ?thesis
    by (cases "c_kind y t") (auto simp: cond_inv_def split: if_splits)
next
  case F_signal
  show ?thesis
  proof (cases "c_waiting y = []")
    case True
    with F_signal inv st show ?thesis by (auto simp: cond_inv_def split: if_splits)
  next
    case False
    with F_signal inv st cond_waiting_nth [OF inv False, of n] show ?thesis
      by (auto simp: cond_inv_def Let_def split: if_splits)
  qed
next
  case F_unlock
  with cond_owner_unique [OF inv, of t] inv st show ?thesis
    by (auto simp: cond_inv_def split: if_splits)
qed (use inv st in auto)

lemma cond_inv_step: "cond_inv y \<Longrightarrow> cond_step y e = Inr y' \<Longrightarrow> cond_inv y'"
proof (cases e)
  case (FSpurious t)
  assume "cond_inv y" "cond_step y e = Inr y'"
  with FSpurious show ?thesis by (auto simp: cond_inv_def split: if_splits)
qed (simp add: cond_inv_step_t)

lemma cond_step_phase:
  assumes inv: "cond_inv y" and st: "cond_step y e = Inr y'"
  shows "cond_phase (c_pc y' t) = cond_phase (c_pc y t) \<or>
    cond_phase (c_pc y t) = Entering \<and> cond_phase (c_pc y' t) = Inside \<or>
    cond_phase (c_pc y t) = Leaving \<and> cond_phase (c_pc y' t) = Outside"
  using st cond_waiting_nth [OF inv]
  by (cases e) (auto simp: Let_def split: cond_pc.splits if_splits)

lemma cond_step_total: "cond_step y e \<noteq> Inl f"
  by (cases e) (auto simp: Let_def split: cond_pc.splits)

interpretation cond: sync_protocol cond_proto cond_inv
proof unfold_locales
  fix y :: "'t cond" and t u :: 't and k e y' f
  show "cond_inv y \<Longrightarrow> p_phase cond_proto y t = Outside \<Longrightarrow> cond_inv (p_call cond_proto y t k)"
    by (auto simp: cond_proto_def cond_call_def cond_inv_def)
  show "cond_inv y \<Longrightarrow> p_phase cond_proto y t = Outside \<Longrightarrow>
      p_phase cond_proto (p_call cond_proto y t k) u = (if u = t then Entering else p_phase cond_proto y u)"
    by (simp add: cond_proto_def cond_call_def)
  show "cond_inv y \<Longrightarrow> p_phase cond_proto y t = Inside \<Longrightarrow> cond_inv (p_leave cond_proto y t)"
    by (auto simp: cond_proto_def cond_leave_def cond_inv_def)
  show "cond_inv y \<Longrightarrow> p_phase cond_proto y t = Inside \<Longrightarrow>
      p_phase cond_proto (p_leave cond_proto y t) u = (if u = t then Leaving else p_phase cond_proto y u)"
    by (simp add: cond_proto_def cond_leave_def)
  show "cond_inv y \<Longrightarrow> p_step cond_proto y e = Inr y' \<Longrightarrow> cond_inv y'"
    by (simp add: cond_proto_def cond_inv_step)
  show "cond_inv y \<Longrightarrow> p_step cond_proto y e = Inr y' \<Longrightarrow>
      p_phase cond_proto y' t = p_phase cond_proto y t \<or>
      p_phase cond_proto y t = Entering \<and> p_phase cond_proto y' t = Inside \<or>
      p_phase cond_proto y t = Leaving \<and> p_phase cond_proto y' t = Outside"
    using cond_step_phase by (simp add: cond_proto_def)
  show "cond_inv y \<Longrightarrow> p_phase cond_proto y t = Inside \<Longrightarrow> p_phase cond_proto y u = Inside \<Longrightarrow> t = u"
    using cond_owner_unique [of y u t] by (simp add: cond_proto_def)
  show "cond_inv y \<Longrightarrow> p_step cond_proto y e = Inl f \<Longrightarrow> \<exists>msg. f = Abort msg"
    by (simp add: cond_proto_def cond_step_total)
qed

lemma cond_start_inv: "cond_inv cond_start"
  by (simp add: cond_inv_def cond_start_def)

section \<open>The program\<close>

definition f_threads_step ::
  "qnode allocator \<Rightarrow> role cond threads \<Rightarrow> role cond_event event \<Rightarrow> fault + role cond threads" where
  "f_threads_step alloc = threads_step cond_proto alloc"

definition f_main :: "int \<Rightarrow> int \<Rightarrow> bool \<Rightarrow> int \<Rightarrow> nat \<Rightarrow> fault + role cond threads" where
  "f_main err_reader err_writer malloc_ok create_err tid =
     threads_main err_reader err_writer
       (bindr (f_queue_init malloc_ok create_err tid 1000000) (\<lambda>q. Inr (cond_start, q)))"

interpretation f_threads: queue_threads cond_proto cond_inv
  by unfold_locales

lemma f_mainE:
  assumes "f_main er ew mok cerr tid = Inr s0"
  obtains q where "queue_init mok cerr tid 1000000 = Inr q" "s0 = threads_start cond_start q"
  using assms
  by (auto simp: f_main_def threads_main_def f_queue_init_def outcome_simps split: if_splits)

lemma f_main_inv:
  assumes "f_main er ew mok cerr tid = Inr s0"
  shows "threads_inv cond_proto cond_inv alloc s0"
proof -
  from assms obtain q where q: "queue_init mok cerr tid 1000000 = Inr q"
      and s0: "s0 = threads_start cond_start q" by (rule f_mainE)
  show ?thesis unfolding s0
    by (rule f_threads.start_inv [OF cond_start_inv _ _ _ q])
      (auto simp: cond_start_def cond_proto_def c_limits)
qed

lemma f_reach_inv:
  assumes "f_main er ew mok cerr tid = Inr s0" and "alloc_fresh alloc"
    and "reach (f_threads_step alloc) s0 s"
  shows "threads_inv cond_proto cond_inv alloc s"
  using f_threads.reach_inv [OF assms(3) [unfolded f_threads_step_def] f_main_inv [OF assms(1)] assms(2)] .

text \<open>
  In every execution of the condition-variable program the reader receives 0, 1,
  2, ... in order and prints no ERROR line, and no step fails but by signed overflow or by
  \<open>malloc\<close> returning NULL.
\<close>

theorem f_threads_fifo:
  assumes "f_main er ew mok cerr tid = Inr s0" and "alloc_fresh alloc"
    and "reach (f_threads_step alloc) s0 s"
  shows "t_errors s = [] \<and> (\<forall>ev f. f_threads_step alloc s ev = Inl f \<longrightarrow>
    f = SignedOverflow \<or> f = Abort ''Cannot allocate memory for new node'')"
proof -
  note inv = f_reach_inv [OF assms]
  have "f = SignedOverflow \<or> f = oom" if "f_threads_step alloc s ev = Inl f" for ev f
    using f_threads.threads_fault [OF inv that [unfolded f_threads_step_def]] cond_step_total
    by (auto simp: cond_proto_def)
  with inv show ?thesis by (auto simp: threads_inv_def oom_def)
qed

definition f_wit_schedule :: "role cond_event event list" where
  "f_wit_schedule =
     [Run Reader, Sync (FStep Reader 0), Sync (FStep Reader 0),
      Run Writer, Sync (FStep Writer 0), Sync (FStep Writer 0)] @ replicate 18 (Run Writer) @
     replicate 3 (Sync (FStep Writer 0)) @ replicate 2 (Run Writer) @
     replicate 2 (Sync (FStep Reader 0)) @ replicate 17 (Run Reader) @
     replicate 3 (Sync (FStep Reader 0)) @ replicate 2 (Run Reader)"

lemmas f_eval = f_main_def threads_main_def f_queue_init_def queue_init_def threads_start_def
  f_threads_step_def fresh_mem_def cond_start_def cond_defs bump_alloc_def
  eval_nat_numeral c_int_def c_long_def c_limits

lemma f_wit_run:
  "\<exists>s0 s. f_main 0 0 True 0 7 = Inr s0 \<and>
     run (f_threads_step (bump_alloc wit_node)) s0 f_wit_schedule = Inr s \<and> t_expected s = 1 \<and> t_i s = 1"
  by (simp add: f_eval f_wit_schedule_def)

lemma f_threads_fifo_witness:
  "\<exists>s0 s. f_main 0 0 True 0 7 = Inr s0 \<and>
     reach (f_threads_step (bump_alloc wit_node)) s0 s \<and> t_expected s = 1 \<and> t_errors s = []"
proof -
  obtain s0 s where s: "f_main 0 0 True 0 7 = Inr s0"
      "run (f_threads_step (bump_alloc wit_node)) s0 f_wit_schedule = Inr s" "t_expected s = 1"
    using f_wit_run by blast
  from f_threads_fifo [OF s(1) bump_alloc_fresh run_reach [OF s(2)]] s run_reach [OF s(2)]
  show ?thesis by blast
qed

section \<open>Reads and writes take turns\<close>

text \<open>
  Whose turn it will be once the thread that is inside, or is about to set \<open>operation\<close>, has
  done so.
\<close>

definition turn :: "role cond threads \<Rightarrow> int" where
  "turn s =
     (if (\<exists>g. t_rpc s = R_body g) \<or> c_pc (t_sync s) Reader = F_set then WRITE
      else if (\<exists>a. t_wpc s = W_body a) \<or> c_pc (t_sync s) Writer = F_set then READ
      else c_operation (t_sync s))"

definition kinds_ok :: "role cond \<Rightarrow> bool" where
  "kinds_ok y \<longleftrightarrow> (c_pc y Reader \<noteq> F_out \<longrightarrow> c_kind y Reader = GetOp) \<and>
                (c_pc y Writer \<noteq> F_out \<longrightarrow> c_kind y Writer = AddOp)"

definition in_turn :: "int \<Rightarrow> queue_t \<Rightarrow> bool" where
  "in_turn op q \<longleftrightarrow>
     (if op = READ then q_add_attempts q = q_get_attempts q + 1 \<and> q_count q \<le> 1
      else q_add_attempts q = q_get_attempts q \<and> q_count q = 0)"

definition turns_inv :: "qnode allocator \<Rightarrow> role cond threads \<Rightarrow> bool" where
  "turns_inv alloc s \<longleftrightarrow> kinds_ok (t_sync s) \<and>
     (\<forall>m. settled_mem alloc s = Inr m \<longrightarrow> in_turn (turn s) (m_q m))"

lemma cond_step_kind: "cond_step y e = Inr y' \<Longrightarrow> c_kind y' = c_kind y"
  by (cases e) (auto simp: Let_def split: cond_pc.splits if_splits)

lemma kinds_ok_step: "cond_inv y \<Longrightarrow> kinds_ok y \<Longrightarrow> cond_step y e = Inr y' \<Longrightarrow> kinds_ok y'"
  using cond_step_kind [of y e y'] cond_step_phase [of y e y' Reader] cond_step_phase [of y e y' Writer]
  by (auto simp: kinds_ok_def)

lemma cond_step_operation:
  "cond_step y (FStep t n) = Inr y' \<Longrightarrow>
   c_operation y' = (if c_pc y t = F_set then hands_to (c_kind y t) else c_operation y)"
  by (auto simp: Let_def split: cond_pc.splits if_splits)

lemma cond_step_set:
  "cond_inv y \<Longrightarrow> cond_step y e = Inr y' \<Longrightarrow>
   c_pc y' u = F_set \<longleftrightarrow> c_pc y u = F_set \<and> (\<forall>n. e \<noteq> FStep u n)"
  using cond_waiting_nth [of y]
  by (cases e) (auto simp: Let_def split: cond_pc.splits if_splits)

lemma turn_sync:
  assumes inv: "threads_inv cond_proto cond_inv alloc s" and k: "kinds_ok (t_sync s)"
    and st: "cond_step (t_sync s) e = Inr y"
  shows "turn (s\<lparr>t_sync := y\<rparr>) = turn s"
proof -
  have ci: "cond_inv (t_sync s)" using inv by (simp add: threads_inv_def)
  have body: "t_rpc s = R_body g \<Longrightarrow> c_pc (t_sync s) Reader = F_in"
      "t_wpc s = W_body a \<Longrightarrow> c_pc (t_sync s) Writer = F_in" for g a
    using inv by (auto simp: threads_inv_def cond_proto_def)
  have uniq: "\<not> (owns (c_pc (t_sync s) Reader) \<and> owns (c_pc (t_sync s) Writer))"
    using cond_owner_unique [OF ci, of Reader Writer] by auto
  note set = cond_step_set [OF ci st]
  show ?thesis
  proof (cases e)
    case (FSpurious t)
    with st have "c_operation y = c_operation (t_sync s)" by (auto split: if_splits)
    with set FSpurious show ?thesis by (simp add: turn_def)
  next
    case (FStep t n)
    have op: "c_operation y =
        (if c_pc (t_sync s) t = F_set then hands_to (c_kind (t_sync s) t) else c_operation (t_sync s))"
      using st unfolding FStep by (rule cond_step_operation)
    show ?thesis
    proof (cases "c_pc (t_sync s) t = F_set")
      case False
      then have "c_pc y u = F_set \<longleftrightarrow> c_pc (t_sync s) u = F_set" for u
        using set [of u] FStep by auto
      with op False show ?thesis by (simp add: turn_def)
    next
      case True
      have no_r: "t_rpc s \<noteq> R_body g" and no_w: "t_wpc s \<noteq> W_body a" for g a
        using body uniq True by (cases t; force)+
      show ?thesis
        using True set [of Reader] set [of Writer] op FStep k no_r no_w uniq
        by (cases t) (auto simp: turn_def kinds_ok_def)
    qed
  qed
qed

lemma turns_start_get:
  assumes inv: "threads_inv cond_proto cond_inv alloc s" and t: "turns_inv alloc s"
    and g: "starts_get cond_proto alloc s s'"
  shows "turns_inv alloc s'"
proof -
  have ci: "cond_inv (t_sync s)" using inv by (simp add: threads_inv_def)
  have in_r: "c_pc (t_sync s) Reader = F_in" and en: "t_rpc s = R_enter"
      and s': "s' = s\<lparr>t_rpc := R_body Get_ld_attempts\<rparr>"
      and m: "settled_mem alloc s = Inr (t_mem s)"
      and m': "settled_mem alloc s' = bindr (queue_get (-1) (t_mem s)) (\<lambda>(r, v, m). Inr m)"
    using g by (auto simp: starts_get_def cond_proto_def)
  have w: "\<not> owns (c_pc (t_sync s) Writer)" using cond_owner_unique [OF ci, of Reader Writer] in_r by auto
  then have "t_wpc s \<noteq> W_body a" for a using inv by (auto simp: threads_inv_def cond_proto_def)
  moreover have "c_operation (t_sync s) = READ"
    using ci in_r t by (auto simp: cond_inv_def turns_inv_def kinds_ok_def)
  ultimately have "turn s = READ" using en in_r w by (auto simp: turn_def)
  with t m have q: "q_add_attempts (m_q (t_mem s)) = q_get_attempts (m_q (t_mem s)) + 1"
      "q_count (m_q (t_mem s)) \<le> 1" by (auto simp: turns_inv_def in_turn_def)
  obtain xs where wf: "wfq (t_mem s) xs" using f_threads.settled_contents [OF inv m] by blast
  have "in_turn WRITE (m_q m')" if "settled_mem alloc s' = Inr m'" for m'
  proof -
    from that m' obtain r v where ret: "queue_get (-1) (t_mem s) = Inr (r, v, m')"
      by (auto simp: outcome_simps)
    obtain ys where ys: "(r, v, ys) = spec_get (-1) xs" "wfq m' ys"
      using queue_get_spec [OF wf ret] by blast
    have "length xs \<le> 1" using wfq_length [OF wf] q by simp
    then have "ys = []" using ys(1) by (cases xs) auto
    with queue_get_refines(4,5) [OF wf ret] q wfq_length [OF ys(2)] show ?thesis
      by (simp add: in_turn_def READ_def WRITE_def)
  qed
  with t s' show ?thesis by (simp add: turns_inv_def turn_def)
qed

lemma turns_start_add:
  assumes inv: "threads_inv cond_proto cond_inv alloc s" and t: "turns_inv alloc s"
    and al: "alloc_fresh alloc" and g: "starts_add cond_proto alloc s s'"
  shows "turns_inv alloc s'"
proof -
  have ci: "cond_inv (t_sync s)" using inv by (simp add: threads_inv_def)
  have in_w: "c_pc (t_sync s) Writer = F_in" and en: "t_wpc s = W_enter"
      and s': "s' = s\<lparr>t_wpc := W_body Add_ld_attempts\<rparr>"
      and m: "settled_mem alloc s = Inr (t_mem s)"
      and m': "settled_mem alloc s' = bindr (queue_add alloc (t_i s) (t_mem s)) (\<lambda>(r, m). Inr m)"
    using g by (auto simp: starts_add_def cond_proto_def)
  have r: "\<not> owns (c_pc (t_sync s) Reader)" using cond_owner_unique [OF ci, of Reader Writer] in_w by auto
  then have nr: "t_rpc s \<noteq> R_body a" for a using inv by (auto simp: threads_inv_def cond_proto_def)
  moreover have "c_operation (t_sync s) = WRITE"
    using ci in_w t by (auto simp: cond_inv_def turns_inv_def kinds_ok_def)
  ultimately have "turn s = WRITE" using en in_w r by (auto simp: turn_def)
  with t m have q: "q_add_attempts (m_q (t_mem s)) = q_get_attempts (m_q (t_mem s))"
      "q_count (m_q (t_mem s)) = 0" by (auto simp: turns_inv_def in_turn_def READ_def WRITE_def)
  obtain xs where wf: "wfq (t_mem s) xs" using f_threads.settled_contents [OF inv m] by blast
  have "in_turn READ (m_q m')" if "settled_mem alloc s' = Inr m'" for m'
  proof -
    from that m' obtain ret where ret: "queue_add alloc (t_i s) (t_mem s) = Inr (ret, m')"
      by (auto simp: outcome_simps)
    obtain ys where ys: "(ret, ys) = spec_add (q_max_count (m_q (t_mem s))) xs (t_i s)" "wfq m' ys"
      using queue_add_spec [OF wf al ret] by blast
    have "xs = []" using wfq_length [OF wf] q by simp
    then have "length ys \<le> 1" using ys(1) by (auto simp: spec_add_def split: if_splits)
    with queue_add_refines(4,5) [OF wf al ret] q wfq_length [OF ys(2)] show ?thesis
      by (simp add: in_turn_def)
  qed
  moreover have "turn s' = READ" using nr r s' by (auto simp: turn_def)
  ultimately show ?thesis using t s' by (simp add: turns_inv_def)
qed

text \<open>Moves of the threads other than the start of a body.\<close>

lemma kinds_ok_client:
  "kinds_ok y \<Longrightarrow> kinds_ok (cond_call y Reader GetOp)"
  "kinds_ok y \<Longrightarrow> kinds_ok (cond_call y Writer AddOp)"
  "kinds_ok y \<Longrightarrow> c_pc y t \<noteq> F_out \<Longrightarrow> kinds_ok (cond_leave y t)"
  by (cases t; auto simp: kinds_ok_def cond_call_def cond_leave_def)+

lemma turn_reader:
  assumes inv: "threads_inv cond_proto cond_inv alloc s" and k: "kinds_ok (t_sync s)"
    and st: "reader_step cond_proto (t_rpc s) s = Inr s'" and no: "\<not> starts_get cond_proto alloc s s'"
  shows "turn s' = turn s \<and> kinds_ok (t_sync s')"
proof (cases "t_rpc s")
  case R_call
  with inv st k show ?thesis
    by (auto simp: turn_def threads_inv_def cond_proto_def kinds_ok_client) (simp_all add: cond_call_def)
next
  case R_enter
  with f_threads.reader_enters [OF inv R_enter] no st k show ?thesis by (auto split: if_splits)
next
  case (R_body pc)
  show ?thesis
  proof (cases "get_ret pc")
    case None
    with R_body st k show ?thesis by (auto simp: outcome_simps turn_def)
  next
    case (Some rv)
    then obtain r v where pc: "pc = Get_ret r v" by (auto elim: get_ret.elims)
    have "c_pc (t_sync s) Reader = F_in" using inv R_body by (simp add: threads_inv_def cond_proto_def)
    with R_body pc st k show ?thesis
      by (auto simp: turn_def cond_proto_def kinds_ok_client) (simp_all add: cond_leave_def)
  qed
next
  case (R_exit r v)
  with st k show ?thesis by (auto simp: turn_def split: if_splits)
next
  case (R_test ok v)
  with st k show ?thesis by (auto simp: turn_def outcome_simps Let_def split: if_splits)
qed

lemma turn_writer:
  assumes inv: "threads_inv cond_proto cond_inv alloc s" and k: "kinds_ok (t_sync s)"
    and st: "writer_step cond_proto alloc (t_wpc s) s = Inr s'" and no: "\<not> starts_add cond_proto alloc s s'"
  shows "turn s' = turn s \<and> kinds_ok (t_sync s')"
proof (cases "t_wpc s")
  case W_call
  with inv st k show ?thesis
    by (auto simp: turn_def threads_inv_def cond_proto_def kinds_ok_client) (simp_all add: cond_call_def)
next
  case W_enter
  with f_threads.writer_enters [OF inv W_enter] no st k show ?thesis by (auto split: if_splits)
next
  case (W_body pc)
  show ?thesis
  proof (cases "add_ret pc")
    case None
    with W_body st k show ?thesis by (auto simp: outcome_simps turn_def)
  next
    case (Some r)
    then have pc: "pc = Add_ret r" by (auto elim: add_ret.elims)
    have "c_pc (t_sync s) Writer = F_in" using inv W_body by (simp add: threads_inv_def cond_proto_def)
    with W_body pc st k show ?thesis
      by (auto simp: turn_def cond_proto_def kinds_ok_client) (simp_all add: cond_leave_def)
  qed
next
  case (W_exit r)
  with st k show ?thesis by (auto simp: turn_def split: if_splits)
next
  case (W_test ok)
  with st k show ?thesis by (auto simp: turn_def outcome_simps split: if_splits)
qed

lemma turns_step:
  assumes inv: "threads_inv cond_proto cond_inv alloc s" and al: "alloc_fresh alloc"
    and t: "turns_inv alloc s" and st: "f_threads_step alloc s ev = Inr s'"
  shows "turns_inv alloc s'"
proof -
  from f_threads.threads_atomic [OF inv st [unfolded f_threads_step_def]]
  consider "starts_get cond_proto alloc s s'" | "starts_add cond_proto alloc s s'"
    | "settled_mem alloc s' = settled_mem alloc s" "\<not> starts_get cond_proto alloc s s'"
      "\<not> starts_add cond_proto alloc s s'" by blast
  then show ?thesis
  proof cases
    case 1
    then show ?thesis by (rule turns_start_get [OF inv t])
  next
    case 2
    then show ?thesis by (rule turns_start_add [OF inv t al])
  next
    case 3
    have k: "kinds_ok (t_sync s)" using t by (simp add: turns_inv_def)
    have "turn s' = turn s \<and> kinds_ok (t_sync s')"
    proof (cases ev)
      case (Run r)
      show ?thesis
      proof (cases r)
        case Reader
        with Run st have "reader_step cond_proto (t_rpc s) s = Inr s'" by (simp add: f_threads_step_def)
        then show ?thesis by (rule turn_reader [OF inv k _ 3(2)])
      next
        case Writer
        with Run st have "writer_step cond_proto alloc (t_wpc s) s = Inr s'" by (simp add: f_threads_step_def)
        then show ?thesis by (rule turn_writer [OF inv k _ 3(3)])
      qed
    next
      case (Sync e)
      with st obtain y where y: "cond_step (t_sync s) e = Inr y" and s': "s' = s\<lparr>t_sync := y\<rparr>"
        by (auto simp: f_threads_step_def outcome_simps cond_proto_def)
      have "cond_inv (t_sync s)" using inv by (simp add: threads_inv_def)
      from turn_sync [OF inv k y] kinds_ok_step [OF this k y] s' show ?thesis by simp
    qed
    with t 3(1) show ?thesis by (simp add: turns_inv_def)
  qed
qed


lemma f_reach_turns:
  assumes m: "f_main er ew mok cerr tid = Inr s0" and al: "alloc_fresh alloc"
    and "reach (f_threads_step alloc) s0 s"
  shows "turns_inv alloc s"
  using assms(3)
proof (induction rule: reach.induct)
  case start
  from m obtain q where "queue_init mok cerr tid 1000000 = Inr q" "s0 = threads_start cond_start q"
    by (rule f_mainE)
  then show ?case
    by (auto simp: turns_inv_def turn_def kinds_ok_def cond_start_def threads_start_def settled_mem_def
      settle_def fresh_mem_def in_turn_def queue_init_def READ_def WRITE_def split: if_splits)
next
  case (step s e t)
  show ?case by (rule turns_step [OF f_reach_inv [OF m al step.hyps(1)] al step.IH step.hyps(2)])
qed

text \<open>
  Property C22. Additions and removals strictly alternate, starting with an addition: whenever
  no thread is inside the queue, the numbers of attempts differ by one or are equal,
  according to whose turn it is, and the queue holds at most one value, whatever its
  capacity.
\<close>

theorem f_threads_alternate:
  assumes "f_main er ew mok cerr tid = Inr s0" and "alloc_fresh alloc"
    and "reach (f_threads_step alloc) s0 s"
    and quiet: "\<forall>g. t_rpc s \<noteq> R_body g" "\<forall>a. t_wpc s \<noteq> W_body a"
  shows "q_count (m_q (t_mem s)) \<le> 1 \<and>
    q_add_attempts (m_q (t_mem s)) - q_get_attempts (m_q (t_mem s)) = (if turn s = READ then 1 else 0)"
proof -
  have "settled_mem alloc s = Inr (t_mem s)"
    using quiet by (simp add: settled_mem_def settle_quiet)
  with f_reach_turns [OF assms(1-3)] show ?thesis
    by (auto simp: turns_inv_def in_turn_def split: if_splits)
qed

definition f_alt_schedule :: "role cond_event event list" where
  "f_alt_schedule = take 29 f_wit_schedule"

lemma f_threads_alternate_witness:
  "\<exists>s0 s. f_main 0 0 True 0 7 = Inr s0 \<and> reach (f_threads_step (bump_alloc wit_node)) s0 s \<and>
     q_count (m_q (t_mem s)) = 1 \<and> turn s = READ \<and>
     q_add_attempts (m_q (t_mem s)) - q_get_attempts (m_q (t_mem s)) = 1"
proof -
  obtain s0 s where s: "f_main 0 0 True 0 7 = Inr s0"
      "run (f_threads_step (bump_alloc wit_node)) s0 f_alt_schedule = Inr s"
      "t_rpc s = R_enter" "t_wpc s = W_call" "q_count (m_q (t_mem s)) = 1" "turn s = READ"
    by (simp add: f_eval f_wit_schedule_def f_alt_schedule_def turn_def)
  then have "\<forall>g. t_rpc s \<noteq> R_body g" "\<forall>a. t_wpc s \<noteq> W_body a" by simp_all
  from f_threads_alternate [OF s(1) bump_alloc_fresh run_reach [OF s(2)] this] s run_reach [OF s(2)]
  show ?thesis by auto
qed

section \<open>No deadlock with one reader and one writer\<close>

text \<open>
  A thread asleep does not have the turn, or somebody is about to signal. Signalling one
  thread is enough because there is only one other thread.
\<close>

definition asleep_ok :: "role cond \<Rightarrow> bool" where
  "asleep_ok y \<longleftrightarrow> (\<forall>t. c_pc y t = F_wait \<longrightarrow>
     c_operation y \<noteq> waits_for (c_kind y t) \<or> (\<exists>u. c_pc y u = F_signal))"

lemma asleep_ok_mono:
  assumes ok: "asleep_ok y" and op: "c_operation y' = c_operation y"
    and sig: "\<And>u. c_pc y u = F_signal \<Longrightarrow> c_pc y' u = F_signal"
    and wait: "\<And>u. c_pc y' u = F_wait \<Longrightarrow>
          c_kind y' u = c_kind y u \<and> c_pc y u = F_wait \<or> c_operation y \<noteq> waits_for (c_kind y' u)"
  shows "asleep_ok y'"
  using assms unfolding asleep_ok_def by metis

lemma asleep_ok_step:
  assumes inv: "cond_inv y" and ok: "asleep_ok y" and st: "cond_step y e = Inr y'"
  shows "asleep_ok y'"
proof (cases e)
  case (FStep t n)
  show ?thesis
  proof (cases "c_pc y t")
    case F_signal
    show ?thesis
    proof (cases "c_waiting y = []")
      case True
      then have "c_pc y u \<noteq> F_wait" for u using inv by (auto simp: cond_inv_def)
      with True F_signal FStep st show ?thesis by (auto simp: asleep_ok_def split: if_splits)
    next
      case False
      let ?u = "c_waiting y ! (n mod length (c_waiting y))"
      have "?u \<noteq> t" using cond_waiting_nth [OF inv False, of n] F_signal by auto
      then have two: "v = t \<or> v = ?u" for v by (cases v; cases t; cases ?u) auto
      have "c_pc y' v \<noteq> F_wait" for v
        using two [of v] \<open>?u \<noteq> t\<close> False F_signal FStep st by (auto simp: Let_def split: if_splits)
      then show ?thesis by (simp add: asleep_ok_def)
    qed
  next
    case F_set
    with FStep st have "c_pc y' t = F_signal" by auto
    then show ?thesis by (auto simp: asleep_ok_def)
  next
    case F_lock
    from F_lock FStep st have ops: "c_operation y' = c_operation y" and kinds: "c_kind y' = c_kind y"
        and pcs: "u \<noteq> t \<Longrightarrow> c_pc y' u = c_pc y u"
        and pct: "c_pc y' t = F_wait \<Longrightarrow> c_operation y \<noteq> waits_for (c_kind y t)" for u
      by (auto split: if_splits)
    show ?thesis
      by (rule asleep_ok_mono [OF ok ops]) (use kinds pcs pct F_lock in \<open>metis cond_pc.distinct\<close>)+
  next
    case F_test
    from F_test FStep st have ops: "c_operation y' = c_operation y" and kinds: "c_kind y' = c_kind y"
        and pcs: "u \<noteq> t \<Longrightarrow> c_pc y' u = c_pc y u"
        and pct: "c_pc y' t = F_wait \<Longrightarrow> c_operation y \<noteq> waits_for (c_kind y t)" for u
      by (auto split: if_splits)
    show ?thesis
      by (rule asleep_ok_mono [OF ok ops]) (use kinds pcs pct F_test in \<open>metis cond_pc.distinct\<close>)+
  next
    case F_relock
    from F_relock FStep st have ops: "c_operation y' = c_operation y" and kinds: "c_kind y' = c_kind y"
        and pcs: "u \<noteq> t \<Longrightarrow> c_pc y' u = c_pc y u"
        and pct: "c_pc y' t = F_wait \<Longrightarrow> c_operation y \<noteq> waits_for (c_kind y t)" for u
      by (auto split: if_splits)
    show ?thesis
      by (rule asleep_ok_mono [OF ok ops]) (use kinds pcs pct F_relock in \<open>metis cond_pc.distinct\<close>)+
  next
    case F_unlock
    from F_unlock FStep st have ops: "c_operation y' = c_operation y" and kinds: "c_kind y' = c_kind y"
        and pcs: "u \<noteq> t \<Longrightarrow> c_pc y' u = c_pc y u"
        and pct: "c_pc y' t = F_wait \<Longrightarrow> c_operation y \<noteq> waits_for (c_kind y t)" for u
      by (auto split: if_splits)
    show ?thesis
      by (rule asleep_ok_mono [OF ok ops]) (use kinds pcs pct F_unlock in \<open>metis cond_pc.distinct\<close>)+
  qed (use FStep ok st in auto)
next
  case (FSpurious t)
  show ?thesis by (rule asleep_ok_mono [OF ok]) (use FSpurious st in \<open>auto split: if_splits\<close>)
qed

lemma asleep_ok_client:
  "asleep_ok y \<Longrightarrow> c_pc y t = F_out \<Longrightarrow> asleep_ok (cond_call y t k)"
  "asleep_ok y \<Longrightarrow> c_pc y t = F_in \<Longrightarrow> asleep_ok (cond_leave y t)"
proof -
  assume ok: "asleep_ok y"
  show "c_pc y t = F_out \<Longrightarrow> asleep_ok (cond_call y t k)"
    by (rule asleep_ok_mono [OF ok]) (auto simp: cond_call_def split: if_splits)
  show "c_pc y t = F_in \<Longrightarrow> asleep_ok (cond_leave y t)"
    by (rule asleep_ok_mono [OF ok]) (auto simp: cond_leave_def split: if_splits)
qed

lemma asleep_threads_step:
  assumes inv: "threads_inv cond_proto cond_inv alloc s" and ok: "asleep_ok (t_sync s)"
    and st: "f_threads_step alloc s ev = Inr s'"
  shows "asleep_ok (t_sync s')"
proof -
  have ci: "cond_inv (t_sync s)" using inv by (simp add: threads_inv_def)
  consider "t_sync s' = t_sync s" | e where "cond_step (t_sync s) e = Inr (t_sync s')"
    | t k where "t_sync s' = cond_call (t_sync s) t k" "c_pc (t_sync s) t = F_out"
    | t where "t_sync s' = cond_leave (t_sync s) t" "c_pc (t_sync s) t = F_in"
    using f_threads.sync_changes [OF inv st [unfolded f_threads_step_def]]
    by (auto simp: cond_proto_def)
  then show ?thesis
    by cases (use ok asleep_ok_step [OF ci ok] asleep_ok_client in auto)
qed

lemma cond_progress:
  assumes ci: "cond_inv y" and k: "kinds_ok y" and ok: "asleep_ok y"
  shows "\<exists>u. cond_phase (c_pc y u) = Outside \<or> cond_phase (c_pc y u) = Inside \<or>
    cond_step y (FStep u 0) \<noteq> Inr y"
proof (cases "\<exists>u. c_pc y u = F_out \<or> c_pc y u = F_in")
  case True
  then show ?thesis by auto
next
  case False
  then have k': "c_kind y Reader = GetOp" "c_kind y Writer = AddOp" using k by (auto simp: kinds_ok_def)
  show ?thesis
  proof (cases "\<exists>u. owns (c_pc y u)")
    case True
    then obtain u where u: "owns (c_pc y u)" by blast
    have "cond_step y (FStep u 0) \<noteq> Inr y"
      using u False cond_waiting_nth [OF ci, of 0]
      by (cases "c_pc y u")
        (auto simp: Let_def dest!: arg_cong [where f = "\<lambda>y. c_pc y u"] split: if_splits)
    then show ?thesis by blast
  next
    case no: False
    then have free: "c_owner y = None" using ci by (metis cond_inv_def not_None_eq)
    show ?thesis
    proof (cases "\<exists>u. c_pc y u = F_lock \<or> c_pc y u = F_relock")
      case True
      then obtain u where u: "c_pc y u = F_lock \<or> c_pc y u = F_relock" by blast
      with free have "cond_step y (FStep u 0) \<noteq> Inr y"
        by (auto dest!: arg_cong [where f = c_owner])
      then show ?thesis by blast
    next
      case nl: False
      have "c_pc y u = F_wait" for u
      proof (cases "c_pc y u")
        case F_wait
        then show ?thesis .
      qed (use no nl False in \<open>metis owns.simps\<close>)+
      then have "c_operation y \<noteq> READ" "c_operation y \<noteq> WRITE"
        using ok k' unfolding asleep_ok_def by (metis cond_pc.distinct waits_for.simps)+
      with ci show ?thesis by (simp add: cond_inv_def)
    qed
  qed
qed


text \<open>
  Property C15. The condition-variable program with its one reader and one writer never
  deadlocks: in every reachable state some step other than a spurious wake-up makes
  progress.
\<close>

theorem f_threads_no_deadlock:
  assumes m: "f_main er ew mok cerr tid = Inr s0" and al: "alloc_fresh alloc"
    and r: "reach (f_threads_step alloc) s0 s"
  shows "\<exists>ev. (\<forall>t. ev \<noteq> Sync (FSpurious t)) \<and> f_threads_step alloc s ev \<noteq> Inr s"
proof -
  note inv = f_reach_inv [OF m al r]
  have "asleep_ok (t_sync s)"
    using r
  proof (induction rule: reach.induct)
    case start
    from m obtain q where "s0 = threads_start cond_start q" by (rule f_mainE)
    then show ?case by (simp add: threads_start_def asleep_ok_def cond_start_def)
  next
    case (step s e t)
    show ?case by (rule asleep_threads_step [OF f_reach_inv [OF m al step.hyps(1)] step.IH step.hyps(2)])
  qed
  moreover have "kinds_ok (t_sync s)" "cond_inv (t_sync s)"
    using f_reach_turns [OF m al r] inv by (auto simp: turns_inv_def threads_inv_def)
  ultimately obtain u where "cond_phase (c_pc (t_sync s) u) = Outside \<or> cond_phase (c_pc (t_sync s) u) = Inside \<or>
      cond_step (t_sync s) (FStep u 0) \<noteq> Inr (t_sync s)"
    using cond_progress by blast
  then consider "p_phase cond_proto (t_sync s) u = Inside \<or> p_phase cond_proto (t_sync s) u = Outside"
    | "cond_step (t_sync s) (FStep u 0) \<noteq> Inr (t_sync s)" by (auto simp: cond_proto_def)
  then show ?thesis
  proof cases
    case 1
    from f_threads.role_moves [OF inv this] show ?thesis
      unfolding f_threads_step_def by (intro exI [of _ "Run u"]) simp
  next
    case 2
    then have "f_threads_step alloc s (Sync (FStep u 0)) \<noteq> Inr s"
      unfolding f_threads_step_def by (intro f_threads.sync_moves) (simp add: cond_proto_def)
    then show ?thesis by (intro exI [of _ "Sync (FStep u 0)"]) simp
  qed
qed

lemma f_threads_no_deadlock_witness:
  "\<exists>s0 s. f_main 0 0 True 0 7 = Inr s0 \<and> reach (f_threads_step (bump_alloc wit_node)) s0 s \<and>
     t_i s = 1 \<and> (\<exists>ev. f_threads_step (bump_alloc wit_node) s ev \<noteq> Inr s)"
proof -
  obtain s0 s where s: "f_main 0 0 True 0 7 = Inr s0"
      "run (f_threads_step (bump_alloc wit_node)) s0 f_wit_schedule = Inr s" "t_i s = 1"
    using f_wit_run by blast
  from f_threads_no_deadlock [OF s(1) bump_alloc_fresh run_reach [OF s(2)]] s run_reach [OF s(2)]
  show ?thesis by blast
qed

section \<open>A lost wake-up with two writers\<close>

definition lost_schedule :: "(nat, nat cond_event) drive_event list" where
  "lost_schedule =
     [Call 2 GetOp, Own (FStep 2 0), Own (FStep 2 0),
      Call 0 AddOp, Own (FStep 0 0), Own (FStep 0 0), Call 1 AddOp,
      Leave 0, Own (FStep 0 0), Own (FStep 0 0), Own (FStep 0 0),
      Own (FStep 1 0), Own (FStep 1 0), Call 0 AddOp, Own (FStep 0 0), Own (FStep 0 0),
      Own (FStep 2 0), Own (FStep 2 0), Leave 2, Own (FStep 2 0), Own (FStep 2 0), Own (FStep 2 0),
      Call 2 GetOp, Own (FStep 2 0), Own (FStep 2 0),
      Own (FStep 1 0), Own (FStep 1 0), Leave 1, Own (FStep 1 0), Own (FStep 1 0), Own (FStep 1 0),
      Own (FStep 0 0), Own (FStep 0 0), Call 1 AddOp, Own (FStep 1 0), Own (FStep 1 0)]"

text \<open>
  Property C29. The library is not safe for more threads: \<open>pthread_cond_signal\<close> may wake a
  thread of the wrong kind. With two writers (0 and 1) and one reader (2) there is an
  execution after which all three wait on the condition variable, although it is the
  reader's turn, and nothing but a spurious wake-up can ever happen again.
\<close>

theorem cond_lost_wakeup:
  "\<exists>y :: nat cond. reach (drive cond_proto) cond_start y \<and>
     c_operation y = READ \<and> c_kind y 2 = GetOp \<and>
     (\<forall>t. c_pc y t = (if t \<le> 2 then F_wait else F_out)) \<and>
     (\<forall>t n. cond_step y (FStep t n) = Inr y)"
proof -
  obtain y :: "nat cond" where y: "run (drive cond_proto) cond_start lost_schedule = Inr y"
      "c_operation y = READ" "c_kind y 2 = GetOp"
      "c_pc y = (\<lambda>_. F_out)(0 := F_wait, 1 := F_wait, 2 := F_wait)"
    by (simp add: lost_schedule_def cond_start_def cond_defs eval_nat_numeral fun_eq_iff)
  have pc: "c_pc y t = (if t \<le> 2 then F_wait else F_out)" for t
    using y(4) by (auto simp: fun_eq_iff)
  then have "cond_step y (FStep t n) = Inr y" for t n by simp
  with y pc run_reach [OF y(1)] show ?thesis by blast
qed

section \<open>Operations of one thread\<close>

text \<open>
  What the test of \<open>f_queue_add\<close> and \<open>f_queue_get\<close> stands for: a thread that calls while the
  mutex is free and nobody waits passes the loop in its turn, and hands the turn on when it
  leaves; out of turn it goes to sleep, and no step of its own changes anything.
\<close>

lemma lone_call:
  assumes "c_owner y = None" and "c_waiting y = []"
  shows "\<exists>z. run cond_step (cond_call y t k) (replicate 2 (FStep t n)) = Inr z \<and>
    (if c_operation y = waits_for k
     then c_pc z t = F_in \<and>
       (\<exists>z'. run cond_step (cond_leave z t) (replicate 3 (FStep t n)) = Inr z' \<and>
         c_pc z' t = F_out \<and> c_owner z' = None \<and> c_operation z' = hands_to k)
     else c_pc z t = F_wait \<and> cond_step z (FStep t n') = Inr z)"
  using assms by (simp add: cond_call_def cond_leave_def numeral_eq_Suc)

text \<open>
  Property C32. An addition by a lone thread returns exactly when it is the turn of the
  additions, and a removal exactly when it is the turn of the removals; out of turn the thread
  sleeps and never returns. A call that returns has the result and the contents of the
  abstract queue and hands the turn to the other kind, so that the same call made again
  blocks; it fails only when the counter of its attempts is at \<open>LONG_MAX\<close> or, for an addition
  to a queue with room, when \<open>malloc\<close> returns NULL. The calls to the mutex and the condition
  variable do the same: in its turn the thread gets inside in two steps and leaves the mutex
  free and the turn handed on, out of turn it ends up in the wait, where its own steps change
  nothing.
\<close>

theorem f_queue_ops:
  assumes wf: "wfq m xs" and al: "alloc_fresh alloc"
    and lone: "c_owner y = None" "c_waiting y = []"
  shows "(case f_queue_add alloc v (op, m) of
      None \<Rightarrow> op \<noteq> WRITE
    | Some (Inr (r, op', m')) \<Rightarrow> op = WRITE \<and> op' = READ \<and>
        (\<exists>ys. (r, ys) = spec_add (q_max_count (m_q m)) xs v \<and> wfq m' ys) \<and>
        f_queue_add alloc w (op', m') = None
    | Some (Inl e) \<Rightarrow> op = WRITE \<and>
        (e = SignedOverflow \<and> q_add_attempts (m_q m) = LONG_MAX \<or>
         e = Abort ''Cannot allocate memory for new node'' \<and>
           int (length xs) < q_max_count (m_q m) \<and> alloc (m_mallocs m) (m_heap m) = None)) \<and>
    (case f_queue_get x (op, m) of
      None \<Rightarrow> op \<noteq> READ
    | Some (Inr (r, u, op', m')) \<Rightarrow> op = READ \<and> op' = WRITE \<and>
        (\<exists>ys. (r, u, ys) = spec_get x xs \<and> wfq m' ys) \<and> f_queue_get x (op', m') = None
    | Some (Inl e) \<Rightarrow> op = READ \<and> e = SignedOverflow \<and> q_get_attempts (m_q m) = LONG_MAX) \<and>
    (\<exists>z. run cond_step (cond_call y t k) (replicate 2 (FStep t n)) = Inr z \<and>
      (if c_operation y = waits_for k
       then c_pc z t = F_in \<and>
         (\<exists>z'. run cond_step (cond_leave z t) (replicate 3 (FStep t n)) = Inr z' \<and>
           c_pc z' t = F_out \<and> c_owner z' = None \<and> c_operation z' = hands_to k)
       else c_pc z t = F_wait \<and> cond_step z (FStep t n') = Inr z))"
  using queue_add_spec [OF wf al, of v] queue_add_faults [OF wf al, of v]
    queue_get_spec [OF wf, of x] queue_get_faults [OF wf, of x] lone_call [OF lone, of t k n n']
  by (auto simp: f_queue_add_def f_queue_get_def outcome_simps READ_def WRITE_def
      split: option.splits sum.splits)

lemma f_queue_ops_witness:
  "\<exists>l m' z. f_queue_get (-1) (READ, two_values) = Some (Inr (1, 4, l, m')) \<and> l = WRITE \<and> wfq m' [9] \<and>
    run cond_step (cond_call cond_start (7 :: nat) GetOp) (replicate 2 (FStep 7 0)) = Inr z \<and>
    c_pc z 7 = F_wait \<and> cond_step z (FStep 7 0) = Inr z"
proof -
  have lone: "c_owner (cond_start :: nat cond) = None" "c_waiting (cond_start :: nat cond) = []"
    and out: "c_operation (cond_start :: nat cond) \<noteq> waits_for GetOp"
    by (simp_all add: cond_start_def READ_def WRITE_def)
  obtain l m' where g: "f_queue_get (-1) (READ, two_values) = Some (Inr (1, 4, l, m'))"
    by (simp add: f_queue_get_def two_values_def queue_get_def c_int_def c_long_def c_limits)
  note f = f_queue_ops [OF two_values_wf bump_alloc_fresh [of wit_node] lone,
      where op = READ and v = 0 and w = 0 and x = "-1" and t = 7 and k = GetOp and n = 0 and n' = 0]
  from f g have "l = WRITE" "\<exists>ys. (1, 4, ys) = spec_get (-1) [4, 9] \<and> wfq m' ys" by simp_all
  moreover from f out obtain z where
    "run cond_step (cond_call cond_start (7 :: nat) GetOp) (replicate 2 (FStep 7 0)) = Inr z"
    "c_pc z 7 = F_wait" "cond_step z (FStep 7 0) = Inr z" by auto
  ultimately show ?thesis using g by auto
qed

end
