(* ===== verification/SemQueue.thy ===== *)
theory SemQueue
  imports Threads
begin

text \<open>
  \<^verbatim>\<open>lab2/2/g-semaphore\<close>: the queue protected by a pthread mutex, with one semaphore that
  counts the values and one that counts the free places. POSIX gives the behaviour of the
  calls: \<open>sem_wait\<close> blocks while the value is 0 and then decrements it, \<open>sem_post\<close> increments
  it, or fails with EOVERFLOW at the maximum (the code does not test its result). The program
  installs no signal handler, so \<open>sem_wait\<close> is not interrupted.
\<close>

section \<open>The operations, run by one thread\<close>

definition SEM_VALUE_MAX :: int where "SEM_VALUE_MAX = INT_MAX"

definition sem_post :: "int \<Rightarrow> int" where
  "sem_post v = (if v < SEM_VALUE_MAX then v + 1 else v)"

record sems =
  items_available :: int
  space_available :: int

definition g_queue_init :: "bool \<Rightarrow> int \<Rightarrow> nat \<Rightarrow> int \<Rightarrow> fault + (sems \<times> queue_t)" where
  "g_queue_init malloc_ok create_err tid max_count =
     bindr (queue_init malloc_ok create_err tid max_count) (\<lambda>q.
     Inr (\<lparr>items_available = 0, space_available = max_count\<rparr>, q))"



text \<open>
  \<open>queue_destroy\<close> destroys the mutex and the semaphores before it looks at its argument; the
  first component says whether they exist.
\<close>

definition g_queue_destroy :: "bool \<Rightarrow> qmem option \<Rightarrow> (fault + bool \<times> qnode heap) option" where
  "g_queue_destroy alive q =
     (if \<not> alive then Some (Inl UseAfterFree)
      else (case q of
              None \<Rightarrow> Some (Inr (False, Map.empty))
            | Some m \<Rightarrow>
                (case destroy_nodes (q_first (m_q m)) (m_heap m) of
                   None \<Rightarrow> None
                 | Some (Inl e) \<Rightarrow> Some (Inl e)
                 | Some (Inr h) \<Rightarrow> Some (Inr (False, h)))))"

section \<open>The bracket as a protocol\<close>

datatype sem_pc = G_out | G_sem | G_lock | G_in | G_unlock | G_post

fun sem_phase :: "sem_pc \<Rightarrow> phase" where
  "sem_phase G_out = Outside"
| "sem_phase G_sem = Entering"
| "sem_phase G_lock = Entering"
| "sem_phase G_in = Inside"
| "sem_phase G_unlock = Leaving"
| "sem_phase G_post = Leaving"

record 't sem =
  g_sems :: sems
  g_owner :: "'t option"
  g_pc :: "'t \<Rightarrow> sem_pc"
  g_kind :: "'t \<Rightarrow> kind"

definition sem_call :: "'t sem \<Rightarrow> 't \<Rightarrow> kind \<Rightarrow> 't sem" where
  "sem_call y t k = y\<lparr>g_pc := (g_pc y)(t := G_sem), g_kind := (g_kind y)(t := k)\<rparr>"

definition sem_leave :: "'t sem \<Rightarrow> 't \<Rightarrow> 't sem" where
  "sem_leave y t = y\<lparr>g_pc := (g_pc y)(t := G_unlock)\<rparr>"

text \<open>An addition waits for a place and posts a value; a removal the other way round.\<close>

fun take_token :: "kind \<Rightarrow> sems \<Rightarrow> sems option" where
  "take_token AddOp s = (if 0 < space_available s
     then Some (s\<lparr>space_available := space_available s - 1\<rparr>) else None)"
| "take_token GetOp s = (if 0 < items_available s
     then Some (s\<lparr>items_available := items_available s - 1\<rparr>) else None)"

fun post_token :: "kind \<Rightarrow> sems \<Rightarrow> sems" where
  "post_token AddOp s = s\<lparr>items_available := sem_post (items_available s)\<rparr>"
| "post_token GetOp s = s\<lparr>space_available := sem_post (space_available s)\<rparr>"

definition sem_step :: "'t sem \<Rightarrow> 't \<Rightarrow> fault + 't sem" where
  "sem_step y t =
     (case g_pc y t of
        G_sem \<Rightarrow>
          (case take_token (g_kind y t) (g_sems y) of
             None \<Rightarrow> Inr y
           | Some s \<Rightarrow> Inr (y\<lparr>g_sems := s, g_pc := (g_pc y)(t := G_lock)\<rparr>))
      | G_lock \<Rightarrow>
          (if g_owner y = None then Inr (y\<lparr>g_owner := Some t, g_pc := (g_pc y)(t := G_in)\<rparr>)
           else Inr y)
      | G_unlock \<Rightarrow> Inr (y\<lparr>g_owner := None, g_pc := (g_pc y)(t := G_post)\<rparr>)
      | G_post \<Rightarrow>
          Inr (y\<lparr>g_sems := post_token (g_kind y t) (g_sems y), g_pc := (g_pc y)(t := G_out)\<rparr>)
      | _ \<Rightarrow> Inr y)"

definition sem_proto :: "('t sem, 't, 't) proto" where
  "sem_proto = \<lparr>p_phase = (\<lambda>y t. sem_phase (g_pc y t)), p_call = sem_call,
                p_leave = sem_leave, p_step = sem_step\<rparr>"

definition sem_inv :: "'t sem \<Rightarrow> bool" where
  "sem_inv y \<longleftrightarrow> (\<forall>t. g_owner y = Some t \<longleftrightarrow> g_pc y t = G_in \<or> g_pc y t = G_unlock)"

lemmas sem_defs = sem_call_def sem_leave_def sem_proto_def sem_step_def

lemma sem_phase_simps [simp]:
  "sem_phase p = Outside \<longleftrightarrow> p = G_out" "sem_phase p = Inside \<longleftrightarrow> p = G_in"
  by (cases p; simp)+

lemma sem_owner_unique:
  "sem_inv y \<Longrightarrow> g_pc y t = G_in \<or> g_pc y t = G_unlock \<Longrightarrow> g_pc y u = G_in \<or> g_pc y u = G_unlock \<Longrightarrow> u = t"
  unfolding sem_inv_def by (metis option.inject)

lemma sem_inv_step:
  assumes inv: "sem_inv y" and st: "sem_step y t = Inr y'"
  shows "sem_inv y'"
proof (cases "g_pc y t")
  case G_unlock
  with sem_owner_unique [OF inv, of t] inv st show ?thesis
    by (auto simp: sem_inv_def sem_step_def split: if_splits)
qed (use inv st in \<open>auto simp: sem_inv_def sem_step_def split: if_splits option.splits\<close>)

lemma sem_step_total: "sem_step y t \<noteq> Inl f"
  by (auto simp: sem_step_def split: sem_pc.splits option.splits)

interpretation sem: sync_protocol sem_proto sem_inv
proof unfold_locales
  fix y :: "'t sem" and t u :: 't and k e y' f
  show "sem_inv y \<Longrightarrow> p_phase sem_proto y t = Outside \<Longrightarrow> sem_inv (p_call sem_proto y t k)"
    by (auto simp: sem_proto_def sem_call_def sem_inv_def)
  show "sem_inv y \<Longrightarrow> p_phase sem_proto y t = Outside \<Longrightarrow>
      p_phase sem_proto (p_call sem_proto y t k) u = (if u = t then Entering else p_phase sem_proto y u)"
    by (simp add: sem_proto_def sem_call_def)
  show "sem_inv y \<Longrightarrow> p_phase sem_proto y t = Inside \<Longrightarrow> sem_inv (p_leave sem_proto y t)"
    by (auto simp: sem_proto_def sem_leave_def sem_inv_def)
  show "sem_inv y \<Longrightarrow> p_phase sem_proto y t = Inside \<Longrightarrow>
      p_phase sem_proto (p_leave sem_proto y t) u = (if u = t then Leaving else p_phase sem_proto y u)"
    by (simp add: sem_proto_def sem_leave_def)
  show "sem_inv y \<Longrightarrow> p_step sem_proto y e = Inr y' \<Longrightarrow> sem_inv y'"
    by (simp add: sem_proto_def sem_inv_step)
  show "sem_inv y \<Longrightarrow> p_step sem_proto y e = Inr y' \<Longrightarrow>
      p_phase sem_proto y' t = p_phase sem_proto y t \<or>
      p_phase sem_proto y t = Entering \<and> p_phase sem_proto y' t = Inside \<or>
      p_phase sem_proto y t = Leaving \<and> p_phase sem_proto y' t = Outside"
    by (auto simp: sem_defs split: sem_pc.splits if_splits option.splits)
  show "sem_inv y \<Longrightarrow> p_phase sem_proto y t = Inside \<Longrightarrow> p_phase sem_proto y u = Inside \<Longrightarrow> t = u"
    using sem_owner_unique [of y u t] by (simp add: sem_proto_def)
  show "sem_inv y \<Longrightarrow> p_step sem_proto y e = Inl f \<Longrightarrow> \<exists>msg. f = Abort msg"
    by (simp add: sem_proto_def sem_step_total)
qed

section \<open>The program\<close>

definition g_threads_step ::
  "qnode allocator \<Rightarrow> role sem threads \<Rightarrow> role event \<Rightarrow> fault + role sem threads" where
  "g_threads_step alloc = threads_step sem_proto alloc"

definition g_main :: "int \<Rightarrow> int \<Rightarrow> bool \<Rightarrow> int \<Rightarrow> nat \<Rightarrow> fault + role sem threads" where
  "g_main err_reader err_writer malloc_ok create_err tid =
     threads_main err_reader err_writer
       (bindr (g_queue_init malloc_ok create_err tid 1000000) (\<lambda>(y, q).
        Inr (\<lparr>g_sems = y, g_owner = None, g_pc = (\<lambda>_. G_out), g_kind = (\<lambda>_. AddOp)\<rparr>, q)))"

interpretation g_threads: queue_threads sem_proto sem_inv
  by unfold_locales

definition sem_start :: "'t sem" where
  "sem_start = \<lparr>g_sems = \<lparr>items_available = 0, space_available = 1000000\<rparr>, g_owner = None,
                g_pc = (\<lambda>_. G_out), g_kind = (\<lambda>_. AddOp)\<rparr>"

lemma g_mainE:
  assumes "g_main er ew mok cerr tid = Inr s0"
  obtains q where "queue_init mok cerr tid 1000000 = Inr q" "s0 = threads_start sem_start q"
  using assms
  by (auto simp: g_main_def threads_main_def g_queue_init_def sem_start_def outcome_simps split: if_splits)

lemma g_main_inv:
  assumes "g_main er ew mok cerr tid = Inr s0"
  shows "threads_inv sem_proto sem_inv alloc s0"
proof -
  from assms obtain q where q: "queue_init mok cerr tid 1000000 = Inr q"
      and s0: "s0 = threads_start sem_start q" by (rule g_mainE)
  show ?thesis unfolding s0
    by (rule g_threads.start_inv [OF _ _ _ _ q])
      (auto simp: sem_start_def sem_proto_def sem_inv_def c_limits)
qed

lemma g_reach_inv:
  assumes "g_main er ew mok cerr tid = Inr s0" and "alloc_fresh alloc"
    and "reach (g_threads_step alloc) s0 s"
  shows "threads_inv sem_proto sem_inv alloc s"
  using g_threads.reach_inv [OF assms(3) [unfolded g_threads_step_def] g_main_inv [OF assms(1)] assms(2)] .

text \<open>
  In every execution of the semaphore program the reader receives 0, 1, 2, ...
  in order and prints no ERROR line, and no step fails but by signed overflow or by \<open>malloc\<close>
  returning NULL.
\<close>

theorem g_threads_fifo:
  assumes "g_main er ew mok cerr tid = Inr s0" and "alloc_fresh alloc"
    and "reach (g_threads_step alloc) s0 s"
  shows "t_errors s = [] \<and> (\<forall>ev f. g_threads_step alloc s ev = Inl f \<longrightarrow>
    f = SignedOverflow \<or> f = Abort ''Cannot allocate memory for new node'')"
proof -
  note inv = g_reach_inv [OF assms]
  have "f = SignedOverflow \<or> f = oom" if "g_threads_step alloc s ev = Inl f" for ev f
    using g_threads.threads_fault [OF inv that [unfolded g_threads_step_def]]
    by (auto simp: sem_proto_def sem_step_total)
  with inv show ?thesis by (auto simp: threads_inv_def oom_def)
qed

definition g_wit_schedule :: "role event list" where
  "g_wit_schedule =
     [Run Reader, Sync Reader, Run Writer, Sync Writer, Sync Writer] @ replicate 18 (Run Writer) @
     replicate 2 (Sync Writer) @ replicate 2 (Run Writer) @
     replicate 2 (Sync Reader) @ replicate 17 (Run Reader) @
     replicate 2 (Sync Reader) @ replicate 2 (Run Reader)"

lemmas g_eval = g_main_def threads_main_def g_queue_init_def queue_init_def threads_start_def
  g_threads_step_def fresh_mem_def sem_defs sem_post_def SEM_VALUE_MAX_def bump_alloc_def
  eval_nat_numeral c_int_def c_long_def c_limits

lemma g_wit_run:
  "\<exists>s0 s. g_main 0 0 True 0 7 = Inr s0 \<and>
     run (g_threads_step (bump_alloc wit_node)) s0 g_wit_schedule = Inr s \<and> t_expected s = 1 \<and> t_i s = 1"
  by (simp add: g_eval g_wit_schedule_def)

lemma g_threads_fifo_witness:
  "\<exists>s0 s. g_main 0 0 True 0 7 = Inr s0 \<and>
     reach (g_threads_step (bump_alloc wit_node)) s0 s \<and> t_expected s = 1 \<and> t_errors s = []"
proof -
  obtain s0 s where s: "g_main 0 0 True 0 7 = Inr s0"
      "run (g_threads_step (bump_alloc wit_node)) s0 g_wit_schedule = Inr s" "t_expected s = 1"
    using g_wit_run by blast
  from g_threads_fifo [OF s(1) bump_alloc_fresh run_reach [OF s(2)]] s run_reach [OF s(2)]
  show ?thesis by blast
qed

section \<open>The semaphores count the values and the places\<close>

text \<open>
  \<open>kinds\<close> is what the thread asked for. A thread holds a token from \<open>sem_wait\<close> until it
  starts the body (it has \<open>taken\<close> it), and owes one from then until \<open>sem_post\<close>.
\<close>

definition g_kinds_ok :: "role sem \<Rightarrow> bool" where
  "g_kinds_ok y \<longleftrightarrow> (\<forall>r. g_pc y r \<noteq> G_out \<longrightarrow> g_kind y r = op_of r)"

fun in_body :: "role \<Rightarrow> 'y threads \<Rightarrow> bool" where
  "in_body Reader s = (\<exists>g. t_rpc s = R_body g)"
| "in_body Writer s = (\<exists>a. t_wpc s = W_body a)"

definition taken :: "role \<Rightarrow> role sem threads \<Rightarrow> int" where
  "taken r s = (if g_pc (t_sync s) r = G_lock \<or> g_pc (t_sync s) r = G_in \<and> \<not> in_body r s then 1 else 0)"

definition owed :: "role \<Rightarrow> role sem threads \<Rightarrow> int" where
  "owed r s = (if in_body r s \<or> g_pc (t_sync s) r = G_unlock \<or> g_pc (t_sync s) r = G_post then 1 else 0)"

definition value_tokens :: "role sem threads \<Rightarrow> int" where
  "value_tokens s = items_available (g_sems (t_sync s)) + taken Reader s + owed Writer s"

definition place_tokens :: "role sem threads \<Rightarrow> int" where
  "place_tokens s = space_available (g_sems (t_sync s)) + taken Writer s + owed Reader s"

definition tokens_ok :: "role sem threads \<Rightarrow> queue_t \<Rightarrow> bool" where
  "tokens_ok s q \<longleftrightarrow>
     value_tokens s = q_count q \<and> place_tokens s = q_max_count q - q_count q \<and>
     q_max_count q = 1000000 \<and>
     q_add_attempts q = q_add_count q \<and> q_get_attempts q = q_get_count q"

definition tokens_inv :: "qnode allocator \<Rightarrow> role sem threads \<Rightarrow> bool" where
  "tokens_inv alloc s \<longleftrightarrow> g_kinds_ok (t_sync s) \<and>
     0 \<le> items_available (g_sems (t_sync s)) \<and> 0 \<le> space_available (g_sems (t_sync s)) \<and>
     (\<forall>m. settled_mem alloc s = Inr m \<longrightarrow> tokens_ok s (m_q m))"

lemmas tokens_defs = value_tokens_def place_tokens_def taken_def owed_def

lemma token_nonneg: "0 \<le> taken r s" "0 \<le> owed r s"
  by (simp_all add: taken_def owed_def)

lemma take_token_nonneg:
  "take_token k s = Some s' \<Longrightarrow> 0 \<le> items_available s \<Longrightarrow> 0 \<le> space_available s \<Longrightarrow>
   0 \<le> items_available s' \<and> 0 \<le> space_available s'"
  by (cases k) (auto split: if_splits)

lemma post_token_nonneg:
  "0 \<le> items_available s \<Longrightarrow> 0 \<le> space_available s \<Longrightarrow>
   0 \<le> items_available (post_token k s) \<and> 0 \<le> space_available (post_token k s)"
  by (cases k) (auto simp: sem_post_def)

lemma sem_step_nonneg:
  "sem_step y t = Inr y' \<Longrightarrow> 0 \<le> items_available (g_sems y) \<Longrightarrow> 0 \<le> space_available (g_sems y) \<Longrightarrow>
   0 \<le> items_available (g_sems y') \<and> 0 \<le> space_available (g_sems y')"
  by (auto simp: sem_step_def take_token_nonneg post_token_nonneg
      split: sem_pc.splits if_splits option.splits)

lemma g_kinds_ok_step: "g_kinds_ok y \<Longrightarrow> sem_step y t = Inr y' \<Longrightarrow> g_kinds_ok y'"
  by (auto simp: sem_step_def g_kinds_ok_def split: sem_pc.splits if_splits option.splits)

lemma in_body_pc: "threads_inv sem_proto sem_inv alloc s \<Longrightarrow> in_body r s \<Longrightarrow> g_pc (t_sync s) r = G_in"
  by (cases r) (auto simp: threads_inv_def sem_proto_def)

lemma in_body_sync [simp]: "in_body r (s\<lparr>t_sync := y\<rparr>) = in_body r s"
  by (cases r) auto

text \<open>A step of the protocol moves tokens between the semaphores and the threads.\<close>

lemma tokens_sync:
  assumes inv: "threads_inv sem_proto sem_inv alloc s" and k: "g_kinds_ok (t_sync s)"
    and pos: "0 \<le> items_available (g_sems (t_sync s))" "0 \<le> space_available (g_sems (t_sync s))"
    and bound: "value_tokens s + place_tokens s = 1000000"
    and st: "sem_step (t_sync s) t = Inr y"
  shows "value_tokens (s\<lparr>t_sync := y\<rparr>) = value_tokens s \<and> place_tokens (s\<lparr>t_sync := y\<rparr>) = place_tokens s"
proof (cases "g_pc (t_sync s) t")
  case G_sem
  have nb: "\<not> in_body t s" using in_body_pc [OF inv, of t] G_sem by auto
  have kd: "g_kind (t_sync s) t = op_of t" using k G_sem by (simp add: g_kinds_ok_def)
  show ?thesis
  proof (cases "take_token (op_of t) (g_sems (t_sync s))")
    case None
    with G_sem kd st have "t_sync s = y" by (simp add: sem_step_def)
    then show ?thesis by (simp add: tokens_defs)
  next
    case (Some ss)
    with G_sem kd st have "y = (t_sync s)\<lparr>g_sems := ss, g_pc := (g_pc (t_sync s))(t := G_lock)\<rparr>"
      by (simp add: sem_step_def)
    with Some G_sem nb show ?thesis
      by (cases t) (simp_all add: tokens_defs split: if_splits, force+)
  qed
next
  case G_lock
  have nb: "\<not> in_body t s" using in_body_pc [OF inv, of t] G_lock by auto
  show ?thesis
  proof (cases "g_owner (t_sync s) = None")
    case True
    with G_lock st have "y = (t_sync s)\<lparr>g_owner := Some t, g_pc := (g_pc (t_sync s))(t := G_in)\<rparr>"
      by (simp add: sem_step_def)
    with G_lock nb show ?thesis by (cases t) (simp_all add: tokens_defs)
  next
    case False
    with G_lock st have "t_sync s = y" by (simp add: sem_step_def)
    then show ?thesis by (simp add: tokens_defs)
  qed
next
  case G_unlock
  have nb: "\<not> in_body t s" using in_body_pc [OF inv, of t] G_unlock by auto
  from G_unlock st have "y = (t_sync s)\<lparr>g_owner := None, g_pc := (g_pc (t_sync s))(t := G_post)\<rparr>"
    by (simp add: sem_step_def)
  with G_unlock nb show ?thesis by (cases t) (simp_all add: tokens_defs)
next
  case G_post
  have nb: "\<not> in_body t s" using in_body_pc [OF inv, of t] G_post by auto
  have "items_available (g_sems (t_sync s)) < SEM_VALUE_MAX" "space_available (g_sems (t_sync s)) < SEM_VALUE_MAX"
    using bound pos token_nonneg [of Reader s] token_nonneg [of Writer s]
    by (simp_all add: value_tokens_def place_tokens_def SEM_VALUE_MAX_def c_limits)
  moreover have "g_kind (t_sync s) t = op_of t" using k G_post by (simp add: g_kinds_ok_def)
  moreover from calculation G_post st
  have "y = (t_sync s)\<lparr>g_sems := post_token (op_of t) (g_sems (t_sync s)), g_pc := (g_pc (t_sync s))(t := G_out)\<rparr>"
    by (simp add: sem_step_def)
  ultimately show ?thesis using G_post nb by (cases t) (simp_all add: tokens_defs sem_post_def)
qed (use st in \<open>auto simp: sem_step_def tokens_defs\<close>)

lemma tokens_start_get:
  assumes inv: "threads_inv sem_proto sem_inv alloc s" and t: "tokens_inv alloc s"
    and g: "starts_get sem_proto alloc s s'"
  shows "tokens_inv alloc s'"
proof -
  have in_r: "g_pc (t_sync s) Reader = G_in" and en: "t_rpc s = R_enter"
      and s': "s' = s\<lparr>t_rpc := R_body Get_ld_attempts\<rparr>"
      and m: "settled_mem alloc s = Inr (t_mem s)"
      and m': "settled_mem alloc s' = bindr (queue_get (-1) (t_mem s)) (\<lambda>(r, v, m). Inr m)"
    using g by (auto simp: starts_get_def sem_proto_def)
  from t m have ok: "tokens_ok s (m_q (t_mem s))" and pos: "0 \<le> items_available (g_sems (t_sync s))"
    by (auto simp: tokens_inv_def)
  have moved: "value_tokens s' = value_tokens s - 1" "place_tokens s' = place_tokens s + 1"
    using in_r en s' by (simp_all add: tokens_defs)
  have one: "1 \<le> q_count (m_q (t_mem s))"
  proof -
    have "taken Reader s = 1" using in_r en by (simp add: taken_def)
    with ok pos token_nonneg [of Writer s] show ?thesis by (simp add: tokens_ok_def value_tokens_def)
  qed
  obtain xs where wf: "wfq (t_mem s) xs" using g_threads.settled_contents [OF inv m] by blast
  then obtain x rest where xs: "xs = x # rest" using one wfq_length [OF wf] by (cases xs) auto
  have "tokens_ok s' (m_q m')" if sm: "settled_mem alloc s' = Inr m'" for m'
  proof -
    from sm m' obtain r v where ret: "queue_get (-1) (t_mem s) = Inr (r, v, m')"
      by (auto simp: outcome_simps)
    note ref = queue_get_refines [OF wf ret]
    have r: "r = 1" "v = x" using ref(2) xs by auto
    then have "q_count (m_q m') = q_count (m_q (t_mem s)) - 1"
      using wfq_length [OF wf] wfq_length [OF ref(1), of rest] xs by simp
    with ref(3-5) queue_get_counts [OF ret] r moved ok show ?thesis
      by (simp add: tokens_ok_def same_shape_def)
  qed
  with t s' show ?thesis by (simp add: tokens_inv_def)
qed

lemma tokens_start_add:
  assumes inv: "threads_inv sem_proto sem_inv alloc s" and t: "tokens_inv alloc s"
    and al: "alloc_fresh alloc" and g: "starts_add sem_proto alloc s s'"
  shows "tokens_inv alloc s'"
proof -
  have in_w: "g_pc (t_sync s) Writer = G_in" and en: "t_wpc s = W_enter"
      and s': "s' = s\<lparr>t_wpc := W_body Add_ld_attempts\<rparr>"
      and m: "settled_mem alloc s = Inr (t_mem s)"
      and m': "settled_mem alloc s' = bindr (queue_add alloc (t_i s) (t_mem s)) (\<lambda>(r, m). Inr m)"
    using g by (auto simp: starts_add_def sem_proto_def)
  from t m have ok: "tokens_ok s (m_q (t_mem s))" and pos: "0 \<le> space_available (g_sems (t_sync s))"
    by (auto simp: tokens_inv_def)
  have moved: "value_tokens s' = value_tokens s + 1" "place_tokens s' = place_tokens s - 1"
    using in_w en s' by (simp_all add: tokens_defs)
  have room: "q_count (m_q (t_mem s)) < q_max_count (m_q (t_mem s))"
  proof -
    have "taken Writer s = 1" using in_w en by (simp add: taken_def)
    with ok pos token_nonneg [of Reader s] show ?thesis by (simp add: tokens_ok_def place_tokens_def)
  qed
  obtain xs where wf: "wfq (t_mem s) xs" using g_threads.settled_contents [OF inv m] by blast
  have "tokens_ok s' (m_q m')" if sm: "settled_mem alloc s' = Inr m'" for m'
  proof -
    from sm m' obtain r where ret: "queue_add alloc (t_i s) (t_mem s) = Inr (r, m')"
      by (auto simp: outcome_simps)
    note ref = queue_add_refines [OF wf al ret]
    have sp: "spec_add (q_max_count (m_q (t_mem s))) xs (t_i s) = (1, xs @ [t_i s])"
      using room wfq_length [OF wf] by (simp add: spec_add_def)
    with ref(2) have r: "r = 1" by simp
    with ref(1) sp wfq_length [OF wf] have "q_count (m_q m') = q_count (m_q (t_mem s)) + 1"
      using wfq_length [of m' "xs @ [t_i s]"] by simp
    with ref(3-5) queue_add_counts [OF ret] r moved ok show ?thesis
      by (simp add: tokens_ok_def same_shape_def)
  qed
  with t s' show ?thesis by (simp add: tokens_inv_def)
qed

text \<open>The other moves of the threads.\<close>

definition quiet_move :: "role sem threads \<Rightarrow> role sem threads \<Rightarrow> bool" where
  "quiet_move s s' \<longleftrightarrow> g_sems (t_sync s') = g_sems (t_sync s) \<and> g_kinds_ok (t_sync s') \<and>
     (\<forall>r. taken r s' = taken r s \<and> owed r s' = owed r s)"

lemma quiet_same:
  "g_kinds_ok (t_sync s) \<Longrightarrow> t_sync s' = t_sync s \<Longrightarrow> (\<And>r. in_body r s' = in_body r s) \<Longrightarrow> quiet_move s s'"
  by (simp add: quiet_move_def taken_def owed_def)

lemma in_body_locals [simp]:
  "in_body r (s\<lparr>t_mem := m\<rparr>) = in_body r s"
  "in_body r (s\<lparr>t_i := i\<rparr>) = in_body r s"
  "in_body r (s\<lparr>t_expected := e\<rparr>) = in_body r s"
  "in_body r (s\<lparr>t_errors := x\<rparr>) = in_body r s"
  "in_body r (s\<lparr>t_rpc := rpc\<rparr>) = (if r = Reader then \<exists>g. rpc = R_body g else in_body r s)"
  "in_body r (s\<lparr>t_wpc := wpc\<rparr>) = (if r = Writer then \<exists>a. wpc = W_body a else in_body r s)"
  by (cases r; simp)+

lemma g_kinds_ok_client:
  "g_kinds_ok y \<Longrightarrow> g_kinds_ok (sem_call y t (op_of t))"
  "g_kinds_ok y \<Longrightarrow> g_pc y t = G_in \<Longrightarrow> g_kinds_ok (sem_leave y t)"
  by (auto simp: g_kinds_ok_def sem_call_def sem_leave_def)

lemma quiet_reader:
  assumes inv: "threads_inv sem_proto sem_inv alloc s" and k: "g_kinds_ok (t_sync s)"
    and st: "reader_step sem_proto (t_rpc s) s = Inr s'" and no: "\<not> starts_get sem_proto alloc s s'"
  shows "quiet_move s s'"
proof (cases "t_rpc s")
  case R_call
  with inv have "g_pc (t_sync s) Reader = G_out" by (simp add: threads_inv_def sem_proto_def)
  moreover from R_call st have "s' = s\<lparr>t_sync := sem_call (t_sync s) Reader GetOp, t_rpc := R_enter\<rparr>"
    by (simp add: sem_proto_def)
  ultimately show ?thesis using R_call g_kinds_ok_client(1) [OF k, of Reader]
    by (simp add: quiet_move_def all_roles taken_def owed_def) (simp add: sem_call_def)
next
  case R_enter
  with g_threads.reader_enters [OF inv R_enter] no st k show ?thesis
    by (auto simp: quiet_move_def split: if_splits)
next
  case (R_body pc)
  show ?thesis
  proof (cases "get_ret pc")
    case None
    with R_body st k show ?thesis by (intro quiet_same [OF k]) (auto simp: outcome_simps split: if_splits)
  next
    case (Some rv)
    then obtain r v where pc: "pc = Get_ret r v" by (auto elim: get_ret.elims)
    have g_in: "g_pc (t_sync s) Reader = G_in" using inv R_body by (simp add: threads_inv_def sem_proto_def)
    from R_body pc st have "s' = s\<lparr>t_sync := sem_leave (t_sync s) Reader, t_rpc := R_exit r v\<rparr>"
      by (simp add: sem_proto_def)
    with R_body g_in g_kinds_ok_client(2) [OF k g_in] show ?thesis
      by (simp add: quiet_move_def all_roles taken_def owed_def) (simp add: sem_leave_def)
  qed
next
  case (R_exit r v)
  with st k show ?thesis
    by (intro quiet_same [OF k]) (auto split: if_splits)
next
  case (R_test ok v)
  with st k show ?thesis
    by (intro quiet_same [OF k]) (auto simp: outcome_simps Let_def split: if_splits)
qed

lemma quiet_writer:
  assumes inv: "threads_inv sem_proto sem_inv alloc s" and k: "g_kinds_ok (t_sync s)"
    and st: "writer_step sem_proto alloc (t_wpc s) s = Inr s'" and no: "\<not> starts_add sem_proto alloc s s'"
  shows "quiet_move s s'"
proof (cases "t_wpc s")
  case W_call
  with inv have "g_pc (t_sync s) Writer = G_out" by (simp add: threads_inv_def sem_proto_def)
  moreover from W_call st have "s' = s\<lparr>t_sync := sem_call (t_sync s) Writer AddOp, t_wpc := W_enter\<rparr>"
    by (simp add: sem_proto_def)
  ultimately show ?thesis using W_call g_kinds_ok_client(1) [OF k, of Writer]
    by (simp add: quiet_move_def all_roles taken_def owed_def) (simp add: sem_call_def)
next
  case W_enter
  with g_threads.writer_enters [OF inv W_enter] no st k show ?thesis
    by (auto simp: quiet_move_def split: if_splits)
next
  case (W_body pc)
  show ?thesis
  proof (cases "add_ret pc")
    case None
    with W_body st k show ?thesis by (intro quiet_same [OF k]) (auto simp: outcome_simps split: if_splits)
  next
    case (Some r)
    then have pc: "pc = Add_ret r" by (auto elim: add_ret.elims)
    have g_in: "g_pc (t_sync s) Writer = G_in" using inv W_body by (simp add: threads_inv_def sem_proto_def)
    from W_body pc st have "s' = s\<lparr>t_sync := sem_leave (t_sync s) Writer, t_wpc := W_exit r\<rparr>"
      by (simp add: sem_proto_def)
    with W_body g_in g_kinds_ok_client(2) [OF k g_in] show ?thesis
      by (simp add: quiet_move_def all_roles taken_def owed_def) (simp add: sem_leave_def)
  qed
next
  case (W_exit r)
  with st k show ?thesis
    by (intro quiet_same [OF k]) (auto split: if_splits)
next
  case (W_test ok)
  with st k show ?thesis
    by (intro quiet_same [OF k]) (auto simp: outcome_simps split: if_splits)
qed

lemma tokens_step:
  assumes inv: "threads_inv sem_proto sem_inv alloc s" and al: "alloc_fresh alloc"
    and t: "tokens_inv alloc s" and st: "g_threads_step alloc s ev = Inr s'"
  shows "tokens_inv alloc s'"
proof -
  from g_threads.threads_atomic [OF inv st [unfolded g_threads_step_def]]
  consider "starts_get sem_proto alloc s s'" | "starts_add sem_proto alloc s s'"
    | "settled_mem alloc s' = settled_mem alloc s" "\<not> starts_get sem_proto alloc s s'"
      "\<not> starts_add sem_proto alloc s s'" by blast
  then show ?thesis
  proof cases
    case 1
    then show ?thesis by (rule tokens_start_get [OF inv t])
  next
    case 2
    then show ?thesis by (rule tokens_start_add [OF inv t al])
  next
    case 3
    have k: "g_kinds_ok (t_sync s)" using t by (simp add: tokens_inv_def)
    show ?thesis
    proof (cases ev)
      case (Run r)
      have "quiet_move s s'"
      proof (cases r)
        case Reader
        with Run st have "reader_step sem_proto (t_rpc s) s = Inr s'" by (simp add: g_threads_step_def)
        then show ?thesis by (rule quiet_reader [OF inv k _ 3(2)])
      next
        case Writer
        with Run st have "writer_step sem_proto alloc (t_wpc s) s = Inr s'" by (simp add: g_threads_step_def)
        then show ?thesis by (rule quiet_writer [OF inv k _ 3(3)])
      qed
      with t 3(1) show ?thesis
        by (simp add: tokens_inv_def tokens_ok_def value_tokens_def place_tokens_def quiet_move_def)
    next
      case (Sync e)
      with st obtain y where y: "sem_step (t_sync s) e = Inr y" and s': "s' = s\<lparr>t_sync := y\<rparr>"
        by (auto simp: g_threads_step_def outcome_simps sem_proto_def)
      have pos: "0 \<le> items_available (g_sems (t_sync s))" "0 \<le> space_available (g_sems (t_sync s))"
        using t by (simp_all add: tokens_inv_def)
      have "tokens_ok s' (m_q m)" if "settled_mem alloc s = Inr m" for m
      proof -
        from that t have ok: "tokens_ok s (m_q m)" by (simp add: tokens_inv_def)
        then have "value_tokens s + place_tokens s = 1000000" by (simp add: tokens_ok_def)
        from tokens_sync [OF inv k pos this y] ok s' show ?thesis by (simp add: tokens_ok_def)
      qed
      with sem_step_nonneg [OF y pos] g_kinds_ok_step [OF k y] 3(1) s' show ?thesis
        by (simp add: tokens_inv_def)
    qed
  qed
qed

lemma g_reach_tokens:
  assumes m: "g_main er ew mok cerr tid = Inr s0" and al: "alloc_fresh alloc"
    and "reach (g_threads_step alloc) s0 s"
  shows "tokens_inv alloc s"
  using assms(3)
proof (induction rule: reach.induct)
  case start
  from m obtain q where "queue_init mok cerr tid 1000000 = Inr q" "s0 = threads_start sem_start q"
    by (rule g_mainE)
  then show ?case
    by (auto simp: tokens_inv_def tokens_ok_def tokens_defs g_kinds_ok_def sem_start_def
      threads_start_def settled_mem_def settle_def fresh_mem_def queue_init_def split: if_splits)
next
  case (step s e t)
  show ?case by (rule tokens_step [OF g_reach_inv [OF m al step.hyps(1)] al step.IH step.hyps(2)])
qed

text \<open>
  Property C16. No operation of the semaphore program ever finds the queue full or empty:
  whenever no thread is inside, every attempt so far has succeeded. While both threads are
  outside, the two semaphores count exactly the stored values and the free places.
\<close>

theorem g_threads_never_fail:
  assumes "g_main er ew mok cerr tid = Inr s0" and "alloc_fresh alloc"
    and "reach (g_threads_step alloc) s0 s"
    and quiet: "\<forall>g. t_rpc s \<noteq> R_body g" "\<forall>a. t_wpc s \<noteq> W_body a"
  shows "q_add_attempts (m_q (t_mem s)) = q_add_count (m_q (t_mem s)) \<and>
    q_get_attempts (m_q (t_mem s)) = q_get_count (m_q (t_mem s)) \<and>
    ((\<forall>r. g_pc (t_sync s) r = G_out) \<longrightarrow>
      items_available (g_sems (t_sync s)) = q_count (m_q (t_mem s)) \<and>
      space_available (g_sems (t_sync s)) = 1000000 - q_count (m_q (t_mem s)))"
proof -
  have "settled_mem alloc s = Inr (t_mem s)"
    using quiet by (simp add: settled_mem_def settle_quiet)
  with g_reach_tokens [OF assms(1-3)] have ok: "tokens_ok s (m_q (t_mem s))"
    by (simp add: tokens_inv_def)
  have nb: "\<not> in_body r s" for r using quiet by (cases r) auto
  show ?thesis
  proof (intro conjI impI)
    assume "\<forall>r. g_pc (t_sync s) r = G_out"
    then have "taken r s = 0" "owed r s = 0" for r using nb by (simp_all add: taken_def owed_def)
    with ok show "items_available (g_sems (t_sync s)) = q_count (m_q (t_mem s))"
        "space_available (g_sems (t_sync s)) = 1000000 - q_count (m_q (t_mem s))"
      by (simp_all add: tokens_ok_def value_tokens_def place_tokens_def)
  qed (use ok in \<open>simp_all add: tokens_ok_def\<close>)
qed

definition g_out_schedule :: "role event list" where
  "g_out_schedule =
     [Run Writer, Sync Writer, Sync Writer] @ replicate 18 (Run Writer) @
     replicate 2 (Sync Writer) @ replicate 2 (Run Writer)"

lemma g_out_run:
  "\<exists>s0 s. g_main 0 0 True 0 7 = Inr s0 \<and>
     run (g_threads_step (bump_alloc wit_node)) s0 g_out_schedule = Inr s \<and>
     t_rpc s = R_call \<and> t_wpc s = W_call \<and> (\<forall>r. g_pc (t_sync s) r = G_out) \<and> t_i s = 1 \<and>
     q_count (m_q (t_mem s)) = 1"
  by (simp add: g_eval g_out_schedule_def all_roles)

lemma g_threads_never_fail_witness:
  "\<exists>s0 s. g_main 0 0 True 0 7 = Inr s0 \<and> reach (g_threads_step (bump_alloc wit_node)) s0 s \<and>
     q_count (m_q (t_mem s)) = 1 \<and> items_available (g_sems (t_sync s)) = 1 \<and>
     space_available (g_sems (t_sync s)) = 999999"
proof -
  obtain s0 s where s: "g_main 0 0 True 0 7 = Inr s0"
      "run (g_threads_step (bump_alloc wit_node)) s0 g_out_schedule = Inr s"
      "t_rpc s = R_call" "t_wpc s = W_call" "\<forall>r. g_pc (t_sync s) r = G_out"
      "q_count (m_q (t_mem s)) = 1"
    using g_out_run by blast
  then have "\<forall>g. t_rpc s \<noteq> R_body g" "\<forall>a. t_wpc s \<noteq> W_body a" by simp_all
  from g_threads_never_fail [OF s(1) bump_alloc_fresh run_reach [OF s(2)] this] s run_reach [OF s(2)]
  show ?thesis by (intro exI [of _ s0] exI [of _ s]) simp
qed

section \<open>No deadlock\<close>

lemma sem_moves:
  assumes inv: "sem_inv y" and busy: "\<And>u. g_pc y u \<noteq> G_out \<and> g_pc y u \<noteq> G_in"
    and stuck: "\<And>u. sem_step y u = Inr y"
  shows "g_pc y t = G_sem \<and> take_token (g_kind y t) (g_sems y) = None"
proof -
  have post: "g_pc y u \<noteq> G_unlock \<and> g_pc y u \<noteq> G_post" for u
    using stuck [of u] by (auto simp: sem_step_def dest!: arg_cong [where f = "\<lambda>y. g_pc y u"])
  then have "g_owner y = None" using inv busy by (metis sem_inv_def not_None_eq)
  then have "g_pc y t \<noteq> G_lock"
    using stuck [of t] by (auto simp: sem_step_def dest!: arg_cong [where f = g_owner])
  then have "g_pc y t = G_sem" using busy [of t] post [of t] by (cases "g_pc y t") auto
  with stuck [of t] show ?thesis
    by (cases "take_token (g_kind y t) (g_sems y)")
      (auto simp: sem_step_def dest!: arg_cong [where f = "\<lambda>y. g_pc y t"])
qed

text \<open>
  Property C21. The semaphore program never deadlocks: in every reachable state some step
  makes progress.
\<close>

theorem g_threads_no_deadlock:
  assumes m: "g_main er ew mok cerr tid = Inr s0" and al: "alloc_fresh alloc"
    and r: "reach (g_threads_step alloc) s0 s"
  shows "\<exists>ev. g_threads_step alloc s ev \<noteq> Inr s"
proof (rule ccontr)
  note inv = g_reach_inv [OF m al r]
  assume "\<nexists>ev. g_threads_step alloc s ev \<noteq> Inr s"
  then have stuck: "threads_step sem_proto alloc s ev = Inr s" for ev by (simp add: g_threads_step_def)
  have busy: "g_pc (t_sync s) u \<noteq> G_out \<and> g_pc (t_sync s) u \<noteq> G_in" for u
    using g_threads.role_moves [OF inv, of u] stuck by (auto simp: sem_proto_def)
  have "sem_step (t_sync s) u = Inr (t_sync s)" for u
    using g_threads.sync_moves [of s u alloc] stuck [of "Sync u"] by (auto simp: sem_proto_def)
  then have sem: "g_pc (t_sync s) u = G_sem \<and> take_token (g_kind (t_sync s) u) (g_sems (t_sync s)) = None" for u
    using sem_moves [of "t_sync s"] inv busy by (auto simp: threads_inv_def)
  have tk: "tokens_inv alloc s" by (rule g_reach_tokens [OF m al r])
  have nb: "\<not> in_body u s" for u using in_body_pc [OF inv, of u] busy by auto
  from nb [of Reader] nb [of Writer] have "settled_mem alloc s = Inr (t_mem s)"
    by (simp add: settled_mem_def settle_quiet)
  with tk have ok: "tokens_ok s (m_q (t_mem s))" by (simp add: tokens_inv_def)
  have none: "taken u s = 0" "owed u s = 0" for u using sem [of u] nb [of u] by (simp_all add: taken_def owed_def)
  have "g_kind (t_sync s) Reader = GetOp" "g_kind (t_sync s) Writer = AddOp"
    using tk busy [of Reader] busy [of Writer] by (auto simp: tokens_inv_def g_kinds_ok_def)
  with sem [of Reader] sem [of Writer] tk
  have "items_available (g_sems (t_sync s)) = 0" "space_available (g_sems (t_sync s)) = 0"
    by (auto simp: tokens_inv_def split: if_splits)
  with ok none show False by (auto simp: tokens_ok_def value_tokens_def place_tokens_def)
qed

lemma g_threads_no_deadlock_witness:
  "\<exists>s0 s. g_main 0 0 True 0 7 = Inr s0 \<and> reach (g_threads_step (bump_alloc wit_node)) s0 s \<and>
     t_i s = 1 \<and> (\<exists>ev. g_threads_step (bump_alloc wit_node) s ev \<noteq> Inr s)"
proof -
  obtain s0 s where s: "g_main 0 0 True 0 7 = Inr s0"
      "run (g_threads_step (bump_alloc wit_node)) s0 g_wit_schedule = Inr s" "t_i s = 1"
    using g_wit_run by blast
  from g_threads_no_deadlock [OF s(1) bump_alloc_fresh run_reach [OF s(2)]] s run_reach [OF s(2)]
  show ?thesis by blast
qed

section \<open>Operations of one thread\<close>




end
