(* ===== verification/QueueVariants.thy ===== *)
theory QueueVariants
  imports QueuePrograms SpinQueue FutexQueue CondQueue SemQueue
begin

text \<open>
  The complete programs of \<^verbatim>\<open>lab2/2\<close>: over a protocol, the number of values in the queue is
  between zero and the capacity at every moment, in the middle of the operations too, so
  that is what the monitor prints; and no ERROR line is printed.
\<close>

section \<open>The size of the queue in the middle of an operation\<close>

fun writer_size :: "writer_pc \<Rightarrow> queue_t \<Rightarrow> bool" where
  "writer_size (W_body (Add_st_count r)) q = (r = q_count q \<and> q_count q < q_max_count q)"
| "writer_size (W_body Add_ld_attempts) q = True"
| "writer_size (W_body (Add_st_attempts r)) q = True"
| "writer_size (W_body Add_assert) q = True"
| "writer_size (W_body Add_full) q = True"
| "writer_size (W_body Add_ld_added) q = True"
| "writer_size (W_body (Add_st_added r)) q = True"
| "writer_size (W_body (Add_ret r)) q = True"
| "writer_size (W_body _) q = (q_count q < q_max_count q)"
| "writer_size _ q = True"

fun reader_size :: "reader_pc \<Rightarrow> queue_t \<Rightarrow> bool" where
  "reader_size (R_body (Get_st_count v r)) q = (r = q_count q \<and> 0 < q_count q)"
| "reader_size (R_body Get_ld_attempts) q = True"
| "reader_size (R_body (Get_st_attempts r)) q = True"
| "reader_size (R_body Get_assert) q = True"
| "reader_size (R_body Get_empty) q = True"
| "reader_size (R_body (Get_ld_got v)) q = True"
| "reader_size (R_body (Get_st_got v r)) q = True"
| "reader_size (R_body (Get_ret r v)) q = True"
| "reader_size (R_body _) q = (0 < q_count q)"
| "reader_size _ q = True"

definition sized :: "int \<Rightarrow> queue_t \<Rightarrow> bool" where
  "sized cap q \<longleftrightarrow> q_max_count q = cap \<and> 0 \<le> q_count q \<and> q_count q \<le> cap"

definition threads_sized :: "int \<Rightarrow> 'y threads \<Rightarrow> bool" where
  "threads_sized cap t \<longleftrightarrow> sized cap (m_q (t_mem t)) \<and>
     writer_size (t_wpc t) (m_q (t_mem t)) \<and> reader_size (t_rpc t) (m_q (t_mem t))"

lemma add_step_size:
  assumes "add_step alloc v pc m = Inr (pc', m')" and "writer_size (W_body pc) (m_q m)" and "sized cap (m_q m)"
  shows "writer_size (W_body pc') (m_q m') \<and> sized cap (m_q m')"
  using assms by (cases pc) (auto simp: sized_def outcome_simps split: if_splits option.splits)

lemma get_step_size:
  assumes "get_step v0 pc m = Inr (pc', m')" and "reader_size (R_body pc) (m_q m)" and "sized cap (m_q m)"
  shows "reader_size (R_body pc') (m_q m') \<and> sized cap (m_q m')"
  using assms by (cases pc) (auto simp: sized_def outcome_simps split: if_splits)

lemma size_outside:
  "\<forall>pc. wpc \<noteq> W_body pc \<Longrightarrow> writer_size wpc q" "\<forall>pc. rpc \<noteq> R_body pc \<Longrightarrow> reader_size rpc q"
  by (cases wpc; simp) (cases rpc; simp)

fun mon_sized :: "int \<Rightarrow> mon_pc \<Rightarrow> bool" where
  "mon_sized cap (Mon_load ls) = (length ls = 9 \<and> (\<forall>x. ls ! 0 = Some x \<longrightarrow> 0 \<le> x \<and> x \<le> cap))"
| "mon_sized cap _ = True"

definition line_sized :: "int \<Rightarrow> int list \<Rightarrow> bool" where
  "line_sized cap xs \<longleftrightarrow> 0 \<le> xs ! 0 \<and> xs ! 0 \<le> cap"

lemma monitor_step_size:
  assumes st: "monitor_step env k pc q = Inr (pc', lines)" and mon: "mon_sized cap pc" and size: "sized cap q"
  shows "mon_sized cap pc' \<and> list_all (line_sized cap) (statistics_of lines)"
proof (cases "\<exists>ls. pc = Mon_load ls \<and> None \<notin> set ls")
  case True
  then obtain ls where ls: "pc = Mon_load ls" "None \<notin> set ls" by blast
  with mon have "length ls = 9" "ls ! 0 \<noteq> None" by (auto simp: in_set_conv_nth)
  with ls mon st show ?thesis by (auto simp: bindr_Inr_iff stats_values_def line_sized_def)
next
  case False
  with st mon size show ?thesis
    by (cases pc) (auto simp: sized_def stats_fields_def dest!: load_field_new)
qed

text \<open>
  What a complete program promises: no ERROR line, sizes between 0 and the capacity, and no fault
  but signed overflow, a failed \<open>malloc\<close> and what the protocol itself aborts with.
\<close>

definition prog_safe ::
  "int \<Rightarrow> string set \<Rightarrow> ('y qprog \<Rightarrow> 'ev \<Rightarrow> fault + 'y qprog) \<Rightarrow> 'y qprog \<Rightarrow> bool" where
  "prog_safe cap msgs step s0 \<longleftrightarrow> (\<forall>s. reach step s0 s \<longrightarrow>
     errors_of (u_out s) = [] \<and>
     list_all (line_sized cap) (statistics_of (u_out s)) \<and>
     (\<forall>ev f. step s ev = Inl f \<longrightarrow>
       f = SignedOverflow \<or> f = Abort ''Cannot allocate memory for new node'' \<or> f \<in> Abort ` msgs))"

context queue_threads
begin

lemma reader_step_size:
  assumes inv: "threads_inv P pinv alloc t" and size: "threads_sized cap t" and st: "reader_step P (t_rpc t) t = Inr t'"
  shows "threads_sized cap t'"
proof (cases "\<exists>pc. t_rpc t = R_body pc \<and> get_ret pc = None")
  case True
  then obtain pc pc' m where m: "t_rpc t = R_body pc" "get_step (- 1) pc (t_mem t) = Inr (pc', m)"
      "t' = t\<lparr>t_mem := m, t_rpc := R_body pc'\<rparr>"
    using st by (auto simp: bindr_Inr_iff)
  have "\<forall>pc. t_wpc t \<noteq> W_body pc" using one_inside [OF inv] m(1) by blast
  with size m(1,3) get_step_size [OF m(2), of cap] size_outside(1) show ?thesis by (simp add: threads_sized_def)
next
  case False
  with st size show ?thesis
    by (cases "t_rpc t") (auto simp: threads_sized_def bindr_Inr_iff Let_def split: if_splits option.splits)
qed

lemma writer_step_size:
  assumes inv: "threads_inv P pinv alloc t" and size: "threads_sized cap t"
    and st: "writer_step P alloc (t_wpc t) t = Inr t'"
  shows "threads_sized cap t'"
proof (cases "\<exists>pc. t_wpc t = W_body pc \<and> add_ret pc = None")
  case True
  then obtain pc pc' m where m: "t_wpc t = W_body pc" "add_step alloc (t_i t) pc (t_mem t) = Inr (pc', m)"
      "t' = t\<lparr>t_mem := m, t_wpc := W_body pc'\<rparr>"
    using st by (auto simp: bindr_Inr_iff)
  have "\<forall>pc. t_rpc t \<noteq> R_body pc" using one_inside [OF inv] m(1) by blast
  with size m(1,3) add_step_size [OF m(2), of cap] size_outside(2) show ?thesis by (simp add: threads_sized_def)
next
  case False
  with st size show ?thesis
    by (cases "t_wpc t") (auto simp: threads_sized_def bindr_Inr_iff split: if_splits option.splits)
qed

lemma threads_step_size:
  assumes "threads_inv P pinv alloc t" and "threads_sized cap t" and "threads_step P alloc t e = Inr t'"
  shows "threads_sized cap t'"
proof (cases "(P, alloc, t, e)" rule: threads_step.cases)
  case 1
  with assms reader_step_size show ?thesis by simp
next
  case 2
  with assms writer_step_size show ?thesis by simp
qed (use assms in \<open>auto simp: threads_sized_def bindr_Inr_iff\<close>)

lemma program_size:
  assumes "reach (prog_step env cpu P alloc) (prog_start env t0) s"
    and t0: "threads_inv P pinv alloc t0" "alloc_fresh alloc" "threads_sized cap t0"
  shows "threads_sized cap (u_threads s) \<and> mon_sized cap (u_mon s) \<and>
    list_all (line_sized cap) (statistics_of (u_out s))"
  using assms(1)
proof (induction rule: reach.induct)
  case start
  show ?case using t0(3) by (simp add: prog_start_def)
next
  case (step s ev s')
  have "reach (threads_step P alloc) t0 (u_threads s)"
    using prog_reach_threads [OF step.hyps(1)] by (simp add: prog_start_def)
  then have inv: "threads_inv P pinv alloc (u_threads s)" using t0 reach_inv by blast
  have "threads_sized cap (u_threads s')"
    using prog_step_threads [OF step.hyps(2)] threads_step_size [OF inv] step.IH by auto
  moreover have "mon_sized cap (u_mon s') \<and> list_all (line_sized cap) (statistics_of (u_out s'))"
    using step.hyps(2)
  proof (cases rule: prog_step_cases)
    case (monitor k pc lines)
    with monitor_step_size [OF monitor(2), of cap] step.IH show ?thesis by (simp add: threads_sized_def)
  next
    case (bind r line cpus)
    with set_cpu_line [OF bind(3)] step.IH show ?thesis by simp
  qed (use step.IH in \<open>auto simp: qmain_out\<close>)
  ultimately show ?case by blast
qed

lemma program_safe:
  assumes t0: "threads_inv P pinv alloc t0" "alloc_fresh alloc" "threads_sized cap t0"
    and msgs: "\<And>y e f. p_step P y e = Inl f \<Longrightarrow> f \<in> Abort ` msgs"
  shows "prog_safe cap msgs (prog_step env cpu P alloc) (prog_start env t0)"
  unfolding prog_safe_def
proof (intro allI impI conjI)
  fix s assume r: "reach (prog_step env cpu P alloc) (prog_start env t0) s"
  have "reach (threads_step P alloc) t0 (u_threads s)"
    using prog_reach_threads [OF r] by (simp add: prog_start_def)
  then have inv: "threads_inv P pinv alloc (u_threads s)" using t0 reach_inv by blast
  have "t_errors t0 = []" using t0(1) by (simp add: threads_inv_def)
  then have "errors_of (u_out s) = t_errors (u_threads s)"
    using printed.reach_good [OF r] by (simp add: prog_start_def)
  with inv show "errors_of (u_out s) = []" by (simp add: threads_inv_def)
  show "list_all (line_sized cap) (statistics_of (u_out s))" using program_size [OF r t0] by blast
  fix ev f assume "prog_step env cpu P alloc s ev = Inl f"
  then show "f = SignedOverflow \<or> f = Abort ''Cannot allocate memory for new node'' \<or> f \<in> Abort ` msgs"
  proof (cases rule: prog_step_fault)
    case (threads e)
    with threads_fault [OF inv threads(1)] msgs show ?thesis by (auto simp: oom_def)
  qed simp
qed

end

section \<open>The four programs\<close>

lemma start_sized:
  "queue_init mok cerr tid cap = Inr q \<Longrightarrow> 0 \<le> cap \<Longrightarrow> threads_sized cap (threads_start y q)"
  by (auto simp: queue_init_def threads_start_def fresh_mem_def threads_sized_def sized_def split: if_splits)

lemma mains_sized:
  "a_main er ew sok mok cerr tid = Inr ta \<Longrightarrow> threads_sized 10000000 ta"
  "e_main er ew sok mok cerr tid = Inr te \<Longrightarrow> threads_sized 1000000 te"
  "f_main er ew mok cerr tid = Inr tf \<Longrightarrow> threads_sized 1000000 tf"
  "g_main er ew mok cerr tid = Inr tg \<Longrightarrow> threads_sized 1000000 tg"
  by (auto simp: a_main_def a_queue_init_def e_main_def e_queue_init_def f_main_def f_queue_init_def
      g_main_def g_queue_init_def threads_main_def bindr_Inr_iff start_sized split: if_splits)

text \<open>
  Property C9. The complete programs of the spinlock, the futex mutex, the condition variable and the
  semaphores, with \<open>main\<close>, the monitor and both threads: under every schedule no ERROR line is
  printed, every size the monitor prints is between 0 and the capacity, though it reads in the
  middle of the operations of others, and the program fails only by signed
  overflow, a failed \<open>malloc\<close> or a failed futex call.
\<close>

theorem programs_safe:
  assumes "alloc_fresh alloc"
  shows "(a_main 0 0 sok mok cerr tid = Inr ta \<longrightarrow>
      prog_safe 10000000 {} (prog_step env two_cpus spin_proto alloc) (prog_start env ta)) \<and>
    (e_main 0 0 xok mok cerr tid = Inr te \<longrightarrow>
      prog_safe 1000000 {''Futex wait failed'', ''Futex wake failed''}
        (prog_step env two_cpus futex_proto alloc) (prog_start env te)) \<and>
    (f_main 0 0 mok cerr tid = Inr tf \<longrightarrow>
      prog_safe 1000000 {} (prog_step env one_cpu cond_proto alloc) (prog_start env tf)) \<and>
    (g_main 0 0 mok cerr tid = Inr tg \<longrightarrow>
      prog_safe 1000000 {} (prog_step env one_cpu sem_proto alloc) (prog_start env tg))"
proof (intro conjI impI)
  assume "a_main 0 0 sok mok cerr tid = Inr ta"
  then show "prog_safe 10000000 {} (prog_step env two_cpus spin_proto alloc) (prog_start env ta)"
    using assms by (intro a_threads.program_safe a_main_inv mains_sized)
      (auto simp: spin_defs split: phase.splits if_splits)
next
  assume "e_main 0 0 xok mok cerr tid = Inr te"
  then show "prog_safe 1000000 {''Futex wait failed'', ''Futex wake failed''}
      (prog_step env two_cpus futex_proto alloc) (prog_start env te)"
    using assms by (intro e_threads.program_safe e_main_inv mains_sized) (auto simp: futex_proto_def dest: futex_step_faults)
next
  assume "f_main 0 0 mok cerr tid = Inr tf"
  then show "prog_safe 1000000 {} (prog_step env one_cpu cond_proto alloc) (prog_start env tf)"
    using assms by (intro f_threads.program_safe f_main_inv mains_sized) (auto simp: cond_proto_def cond_step_total)
next
  assume "g_main 0 0 mok cerr tid = Inr tg"
  then show "prog_safe 1000000 {} (prog_step env one_cpu sem_proto alloc) (prog_start env tg)"
    using assms by (intro g_threads.program_safe g_main_inv mains_sized) (auto simp: sem_proto_def sem_step_total)
qed

section \<open>Torn statistics\<close>

text \<open>
  The monitor does not take the lock. It has loaded \<open>add_count\<close> for the second difference when the
  writer adds a value and the reader removes it; then it loads the rest. The line says that
  one value more has been removed than added.
\<close>

fun in_prog :: "'e event \<Rightarrow> 'e qevent" where
  "in_prog (Run r) = Thread_step r"
| "in_prog (Sync e) = Sync_step e"

definition torn_schedule :: "role qevent list" where
  "torn_schedule = launch @ [Monitor_step 0, Monitor_step 7] @ map in_prog a_wit_schedule @
     map Monitor_step [0, 1, 2, 3, 4, 5, 6, 8, 0]"

lemma statistics_torn:
  "\<exists>t0 s. a_main 0 0 True True 0 7 = Inr t0 \<and>
     reach (prog_step wit_env two_cpus spin_proto (bump_alloc wit_node)) (prog_start wit_env t0) s \<and>
     statistics_of (u_out s) = [[0, 1, 1, 0, 1, 1, - 1]]"
proof -
  obtain t0 s where "a_main 0 0 True True 0 7 = Inr t0"
      "run (prog_step wit_env two_cpus spin_proto (bump_alloc wit_node)) (prog_start wit_env t0) torn_schedule = Inr s"
      "statistics_of (u_out s) = [[0, 1, 1, 0, 1, 1, - 1]]"
    by (simp add: a_eval prog_eval torn_schedule_def a_wit_schedule_def cong: bindr_weak_cong)
  then show ?thesis by (blast intro: run_reach)
qed

lemma torn_line:
  "line_text ''(dif:)'' (Statistics [0, 1, 1, 0, 1, 1, - 1]) =
     ''queue stats: current size 0; attempts: (1 1 (dif:)0); counts (1 1 (dif:)-1)''"
  by (simp add: decimal.simps digit_def char_of_def bit_simps)

lemma programs_safe_witness:
  "\<exists>t0 s. a_main 0 0 True True 0 7 = Inr t0 \<and>
     reach (prog_step wit_env two_cpus spin_proto (bump_alloc wit_node)) (prog_start wit_env t0) s \<and>
     errors_of (u_out s) = [] \<and> list_all (line_sized 10000000) (statistics_of (u_out s)) \<and>
     statistics_of (u_out s) = [[0, 1, 1, 0, 1, 1, - 1]]"
proof -
  obtain t0 s where s: "a_main 0 0 True True 0 7 = Inr t0"
      "reach (prog_step wit_env two_cpus spin_proto (bump_alloc wit_node)) (prog_start wit_env t0) s"
      "statistics_of (u_out s) = [[0, 1, 1, 0, 1, 1, - 1]]"
    using statistics_torn by blast
  note safe = programs_safe [OF bump_alloc_fresh [of wit_node], of True True 0 7 t0 wit_env True _ _ _]
  from conjunct1 [OF safe] s(1) have
    "prog_safe 10000000 {} (prog_step wit_env two_cpus spin_proto (bump_alloc wit_node)) (prog_start wit_env t0)"
    by (rule mp)
  with s show ?thesis unfolding prog_safe_def by blast
qed

end
