(* ===== verification/Lab4Locks.thy ===== *)
theory Lab4Locks
  imports Threads
begin

text \<open>
  \<^verbatim>\<open>lab2/4/4.c\<close>: a spinlock made of an atomic exchange with an inner read-only loop, and a
  futex mutex made of \<open>__sync_lock_test_and_set\<close>. Here 0 is free and 1 is taken, the other
  way round than in \<^verbatim>\<open>lab2/2\<close>.
\<close>

section \<open>The functions, run by one thread\<close>

definition atomic_exchange :: "int \<Rightarrow> int \<Rightarrow> int \<times> int" where
  "atomic_exchange obj desired = (obj, desired)"

definition xspin_init :: int where
  "xspin_init = 0"

partial_function (option) xspin_pause :: "int \<Rightarrow> int option" where
  "xspin_pause lock = (if lock \<noteq> 0 then xspin_pause lock else Some lock)"

partial_function (option) xspin_lock :: "int \<Rightarrow> int option" where
  "xspin_lock lock =
     (let (old, lock) = atomic_exchange lock 1
      in if old \<noteq> 0 then (case xspin_pause lock of None \<Rightarrow> None | Some lock \<Rightarrow> xspin_lock lock)
         else Some lock)"

definition xspin_unlock :: "int \<Rightarrow> int" where
  "xspin_unlock lock = 0"

definition futex_mutex_init :: int where
  "futex_mutex_init = 0"

text \<open>FUTEX_WAIT returns at once with EAGAIN unless the word still has the given value.\<close>

definition wait_sleeps :: "int \<Rightarrow> int \<Rightarrow> bool" where
  "wait_sleeps lock val \<longleftrightarrow> lock = val"

text \<open>A thread alone that goes to sleep is never woken.\<close>

partial_function (option) futex_mutex_lock :: "int \<Rightarrow> int option" where
  "futex_mutex_lock mutex =
     (let (old, mutex) = atomic_exchange mutex 1
      in if old \<noteq> 0 then (if wait_sleeps mutex 1 then None else futex_mutex_lock mutex)
         else Some mutex)"

definition futex_mutex_unlock :: "int \<Rightarrow> int" where
  "futex_mutex_unlock mutex = 0"

definition lab4_main :: "string list option" where
  "lab4_main =
     (case xspin_lock xspin_init of
        None \<Rightarrow> None
      | Some spinlock \<Rightarrow>
          (let spinlock = xspin_unlock spinlock
           in case futex_mutex_lock futex_mutex_init of
                None \<Rightarrow> None
              | Some mutex \<Rightarrow>
                  (let mutex = futex_mutex_unlock mutex
                   in Some [''Spinlock acquired'', ''Spinlock released'',
                            ''Futex mutex acquired'', ''Futex mutex released''])))"

section \<open>The spinlock as a protocol\<close>

datatype xspin_pc = P_out | P_swap | P_load | P_in | P_store

fun xspin_phase :: "xspin_pc \<Rightarrow> phase" where
  "xspin_phase P_out = Outside"
| "xspin_phase P_swap = Entering"
| "xspin_phase P_load = Entering"
| "xspin_phase P_in = Inside"
| "xspin_phase P_store = Leaving"

record 't xspin =
  p_lock :: int
  p_pc :: "'t \<Rightarrow> xspin_pc"

definition xspin_call :: "'t xspin \<Rightarrow> 't \<Rightarrow> kind \<Rightarrow> 't xspin" where
  "xspin_call y t k = y\<lparr>p_pc := (p_pc y)(t := P_swap)\<rparr>"

definition xspin_leave :: "'t xspin \<Rightarrow> 't \<Rightarrow> 't xspin" where
  "xspin_leave y t = y\<lparr>p_pc := (p_pc y)(t := P_store)\<rparr>"

definition xspin_step :: "'t xspin \<Rightarrow> 't \<Rightarrow> fault + 't xspin" where
  "xspin_step y t =
     (case p_pc y t of
        P_swap \<Rightarrow>
          (let (old, lock) = atomic_exchange (p_lock y) 1
           in Inr (y\<lparr>p_lock := lock, p_pc := (p_pc y)(t := if old \<noteq> 0 then P_load else P_in)\<rparr>))
      | P_load \<Rightarrow> Inr (if p_lock y \<noteq> 0 then y else y\<lparr>p_pc := (p_pc y)(t := P_swap)\<rparr>)
      | P_store \<Rightarrow> Inr (y\<lparr>p_lock := xspin_unlock (p_lock y), p_pc := (p_pc y)(t := P_out)\<rparr>)
      | _ \<Rightarrow> Inr y)"

definition xspin_proto :: "('t xspin, 't, 't) proto" where
  "xspin_proto = \<lparr>p_phase = (\<lambda>y t. xspin_phase (p_pc y t)), p_call = xspin_call,
                  p_leave = xspin_leave, p_step = xspin_step\<rparr>"

definition xspin_start :: "'t xspin" where
  "xspin_start = \<lparr>p_lock = xspin_init, p_pc = (\<lambda>_. P_out)\<rparr>"

definition xspin_inv :: "'t xspin \<Rightarrow> bool" where
  "xspin_inv y \<longleftrightarrow> (p_lock y = 0 \<or> p_lock y = 1) \<and> lock_agrees (p_lock y = 0) (xspin_phase \<circ> p_pc y)"

lemmas xspin_defs = xspin_step_def xspin_call_def xspin_leave_def xspin_proto_def
  xspin_unlock_def atomic_exchange_def

lemma xspin_phase_simps [simp]:
  "xspin_phase p = Outside \<longleftrightarrow> p = P_out" "xspin_phase p = Inside \<longleftrightarrow> p = P_in"
  "xspin_phase p = Leaving \<longleftrightarrow> p = P_store"
  by (cases p; simp)+

lemma xspin_inv_step:
  assumes inv: "xspin_inv y" and st: "xspin_step y t = Inr y'"
  shows "xspin_inv y'"
proof (cases "p_pc y t")
  case P_swap
  show ?thesis
  proof (cases "p_lock y = 0")
    case True
    then have "lock_agrees False ((xspin_phase \<circ> p_pc y)(t := Inside))"
      using inv by (intro lock_agrees_enter) (simp add: xspin_inv_def)
    with P_swap True inv st show ?thesis by (auto simp: xspin_inv_def xspin_defs fun_upd_comp)
  next
    case False
    with P_swap inv st show ?thesis
      by (auto simp: xspin_inv_def xspin_defs fun_upd_comp intro!: lock_agrees_same)
  qed
next
  case P_load
  with inv st show ?thesis
    by (auto simp: xspin_inv_def xspin_defs fun_upd_comp intro!: lock_agrees_same split: if_splits)
next
  case P_store
  have "lock_agrees True ((xspin_phase \<circ> p_pc y)(t := Outside))"
    using inv P_store by (intro lock_agrees_exit) (auto simp: xspin_inv_def)
  with P_store inv st show ?thesis by (auto simp: xspin_inv_def xspin_defs fun_upd_comp)
qed (use inv st in \<open>auto simp: xspin_defs\<close>)

interpretation xspin: sync_protocol xspin_proto xspin_inv
proof unfold_locales
  fix y :: "'t xspin" and t u :: 't and k e y' f
  show "xspin_inv y \<Longrightarrow> p_phase xspin_proto y t = Outside \<Longrightarrow> xspin_inv (p_call xspin_proto y t k)"
    by (auto simp: xspin_defs xspin_inv_def fun_upd_comp intro!: lock_agrees_same)
  show "xspin_inv y \<Longrightarrow> p_phase xspin_proto y t = Outside \<Longrightarrow>
      p_phase xspin_proto (p_call xspin_proto y t k) u = (if u = t then Entering else p_phase xspin_proto y u)"
    by (simp add: xspin_defs)
  show "xspin_inv y \<Longrightarrow> p_phase xspin_proto y t = Inside \<Longrightarrow> xspin_inv (p_leave xspin_proto y t)"
    by (auto simp: xspin_defs xspin_inv_def fun_upd_comp intro!: lock_agrees_same)
  show "xspin_inv y \<Longrightarrow> p_phase xspin_proto y t = Inside \<Longrightarrow>
      p_phase xspin_proto (p_leave xspin_proto y t) u = (if u = t then Leaving else p_phase xspin_proto y u)"
    by (simp add: xspin_defs)
  show "xspin_inv y \<Longrightarrow> p_step xspin_proto y e = Inr y' \<Longrightarrow> xspin_inv y'"
    by (simp add: xspin_proto_def xspin_inv_step)
  show "xspin_inv y \<Longrightarrow> p_step xspin_proto y e = Inr y' \<Longrightarrow>
      p_phase xspin_proto y' t = p_phase xspin_proto y t \<or>
      p_phase xspin_proto y t = Entering \<and> p_phase xspin_proto y' t = Inside \<or>
      p_phase xspin_proto y t = Leaving \<and> p_phase xspin_proto y' t = Outside"
    by (auto simp: xspin_defs split: xspin_pc.splits if_splits)
  show "xspin_inv y \<Longrightarrow> p_phase xspin_proto y t = Inside \<Longrightarrow> p_phase xspin_proto y u = Inside \<Longrightarrow> t = u"
    using lock_agrees_unique [of "p_lock y = 0" "xspin_phase \<circ> p_pc y" t u]
    by (simp add: xspin_proto_def xspin_inv_def)
  show "xspin_inv y \<Longrightarrow> p_step xspin_proto y e = Inl f \<Longrightarrow> \<exists>msg. f = Abort msg"
    by (auto simp: xspin_defs split: xspin_pc.splits)
qed

lemma xspin_start_inv: "xspin_inv xspin_start"
  using lock_agrees_start by (simp add: xspin_inv_def xspin_start_def xspin_init_def comp_def)

text \<open>
  The exchange spinlock of \<^verbatim>\<open>4.c\<close> excludes: of any number of threads at most one
  is between lock and unlock, and when none is, every waiting thread gets the lock within two
  steps of its own if no other thread moves.
\<close>

lemma xspin_correct:
  assumes "reach (drive xspin_proto) xspin_start y"
  shows "(\<forall>t u. holding (xspin_phase (p_pc y t)) \<and> holding (xspin_phase (p_pc y u)) \<longrightarrow> t = u) \<and>
    (\<forall>t. (\<forall>u. \<not> holding (xspin_phase (p_pc y u))) \<and> xspin_phase (p_pc y t) = Entering \<longrightarrow>
      (\<exists>y1. xspin_step y t = Inr y1 \<and>
        (p_pc y1 t = P_in \<or> (\<exists>y2. xspin_step y1 t = Inr y2 \<and> p_pc y2 t = P_in))))"
proof -
  have inv: "xspin_inv y" by (rule xspin.driven.reach_good [OF assms xspin_start_inv])
  then have agree: "lock_agrees (p_lock y = 0) (xspin_phase \<circ> p_pc y)" by (simp add: xspin_inv_def)
  have "p_lock y = 0" if "\<forall>u. \<not> holding (xspin_phase (p_pc y u))"
    using agree that by (auto simp: lock_agrees_def split: if_splits)
  then have "\<exists>y1. xspin_step y t = Inr y1 \<and>
        (p_pc y1 t = P_in \<or> (\<exists>y2. xspin_step y1 t = Inr y2 \<and> p_pc y2 t = P_in))"
    if "\<forall>u. \<not> holding (xspin_phase (p_pc y u))" "xspin_phase (p_pc y t) = Entering" for t
    using that by (cases "p_pc y t") (simp_all add: xspin_defs)
  moreover have "t = u" if "holding (xspin_phase (p_pc y t))" "holding (xspin_phase (p_pc y u))" for t u
    using lock_agrees_unique [OF agree, of t u] that by simp
  ultimately show ?thesis by blast
qed

section \<open>The futex mutex as a protocol\<close>

datatype fm_pc = M_out | M_swap | M_wait | M_sleep | M_in | M_release | M_wake

fun fm_phase :: "fm_pc \<Rightarrow> phase" where
  "fm_phase M_out = Outside"
| "fm_phase M_swap = Entering"
| "fm_phase M_wait = Entering"
| "fm_phase M_sleep = Entering"
| "fm_phase M_in = Inside"
| "fm_phase M_release = Leaving"
| "fm_phase M_wake = Leaving"

record 't fm =
  m_lock :: int
  m_pc :: "'t \<Rightarrow> fm_pc"
  m_sleepers :: "'t list"

text \<open>
  \<open>MStep t n\<close>: thread \<open>t\<close> moves, \<open>n\<close> chooses the sleeper that FUTEX_WAKE wakes; \<open>MReturn t\<close>:
  the futex call of the sleeping \<open>t\<close> returns for any other reason (the code ignores it).
\<close>

datatype 't fm_event = MStep 't nat | MReturn 't

definition fm_call :: "'t fm \<Rightarrow> 't \<Rightarrow> kind \<Rightarrow> 't fm" where
  "fm_call y t k = y\<lparr>m_pc := (m_pc y)(t := M_swap)\<rparr>"

definition fm_leave :: "'t fm \<Rightarrow> 't \<Rightarrow> 't fm" where
  "fm_leave y t = y\<lparr>m_pc := (m_pc y)(t := M_release)\<rparr>"

fun fm_step :: "'t fm \<Rightarrow> 't fm_event \<Rightarrow> fault + 't fm" where
  "fm_step y (MStep t n) =
     (case m_pc y t of
        M_swap \<Rightarrow>
          (let (old, lock) = atomic_exchange (m_lock y) 1
           in Inr (y\<lparr>m_lock := lock, m_pc := (m_pc y)(t := if old \<noteq> 0 then M_wait else M_in)\<rparr>))
      | M_wait \<Rightarrow>
          (if wait_sleeps (m_lock y) 1
           then Inr (y\<lparr>m_pc := (m_pc y)(t := M_sleep), m_sleepers := m_sleepers y @ [t]\<rparr>)
           else Inr (y\<lparr>m_pc := (m_pc y)(t := M_swap)\<rparr>))
      | M_release \<Rightarrow>
          Inr (y\<lparr>m_lock := futex_mutex_unlock (m_lock y), m_pc := (m_pc y)(t := M_wake)\<rparr>)
      | M_wake \<Rightarrow>
          (if m_sleepers y = [] then Inr (y\<lparr>m_pc := (m_pc y)(t := M_out)\<rparr>)
           else let u = m_sleepers y ! (n mod length (m_sleepers y))
                in Inr (y\<lparr>m_pc := (m_pc y)(t := M_out, u := M_swap),
                          m_sleepers := remove1 u (m_sleepers y)\<rparr>))
      | _ \<Rightarrow> Inr y)"
| "fm_step y (MReturn t) =
     (if m_pc y t = M_sleep
      then Inr (y\<lparr>m_pc := (m_pc y)(t := M_swap), m_sleepers := remove1 t (m_sleepers y)\<rparr>)
      else Inr y)"

definition fm_proto :: "('t fm, 't, 't fm_event) proto" where
  "fm_proto = \<lparr>p_phase = (\<lambda>y t. fm_phase (m_pc y t)), p_call = fm_call,
               p_leave = fm_leave, p_step = fm_step\<rparr>"

definition fm_start :: "'t fm" where
  "fm_start = \<lparr>m_lock = futex_mutex_init, m_pc = (\<lambda>_. M_out), m_sleepers = []\<rparr>"

text \<open>The lock is held from the exchange that got 0 to the store of the release.\<close>

fun fm_held :: "fm_pc \<Rightarrow> phase" where
  "fm_held M_in = Inside"
| "fm_held M_release = Leaving"
| "fm_held _ = Outside"

definition fm_awake :: "'t fm \<Rightarrow> 't \<Rightarrow> bool" where
  "fm_awake y t \<longleftrightarrow> m_pc y t = M_swap \<or> m_pc y t = M_wait \<or> m_pc y t = M_wake"

definition fm_sleepers_ok :: "'t fm \<Rightarrow> bool" where
  "fm_sleepers_ok y \<longleftrightarrow> distinct (m_sleepers y) \<and> (\<forall>t. t \<in> set (m_sleepers y) \<longleftrightarrow> m_pc y t = M_sleep)"

definition fm_inv :: "'t fm \<Rightarrow> bool" where
  "fm_inv y \<longleftrightarrow> (m_lock y = 0 \<or> m_lock y = 1) \<and> lock_agrees (m_lock y = 0) (fm_held \<circ> m_pc y) \<and>
     fm_sleepers_ok y \<and> (m_lock y = 0 \<and> m_sleepers y \<noteq> [] \<longrightarrow> (\<exists>t. fm_awake y t))"

lemmas fm_defs = fm_call_def fm_leave_def fm_proto_def atomic_exchange_def futex_mutex_unlock_def
  wait_sleeps_def

lemmas fm_inv_defs = fm_inv_def fm_sleepers_ok_def fm_awake_def fun_upd_comp

lemma fm_inv_call: "fm_inv y \<Longrightarrow> m_pc y t = M_out \<Longrightarrow> fm_inv (fm_call y t k)"
  by (auto simp: fm_inv_defs fm_call_def intro!: lock_agrees_same split: if_splits)

lemma fm_inv_leave: "fm_inv y \<Longrightarrow> m_pc y t = M_in \<Longrightarrow> fm_inv (fm_leave y t)"
  using lock_agrees_free [of "m_lock y = 0" "fm_held \<circ> m_pc y" t]
  by (auto simp: fm_inv_defs fm_leave_def intro!: lock_agrees_same split: if_splits)

lemma fm_inv_step:
  assumes inv: "fm_inv y" and st: "fm_step y e = Inr y'"
  shows "fm_inv y'"
proof (cases e)
  case (MStep t n)
  show ?thesis
  proof (cases "m_pc y t")
    case M_swap
    show ?thesis
    proof (cases "m_lock y = 0")
      case True
      have "lock_agrees False ((fm_held \<circ> m_pc y)(t := Inside))"
        using inv True by (intro lock_agrees_enter) (simp add: fm_inv_def)
      with True M_swap MStep inv st show ?thesis
        by (auto simp: fm_inv_defs fm_defs split: if_splits)
    next
      case False
      with M_swap MStep inv st show ?thesis
        by (auto simp: fm_inv_defs fm_defs intro!: lock_agrees_same split: if_splits)
    qed
  next
    case M_wait
    with MStep inv st show ?thesis
      by (auto simp: fm_inv_defs fm_defs intro!: lock_agrees_same split: if_splits)
  next
    case M_release
    have "lock_agrees True ((fm_held \<circ> m_pc y)(t := Outside))"
      using inv M_release by (intro lock_agrees_exit) (auto simp: fm_inv_def)
    with M_release MStep inv st show ?thesis
      by (auto simp: fm_inv_defs fm_defs split: if_splits)
  next
    case M_wake
    show ?thesis
    proof (cases "m_sleepers y = []")
      case True
      with M_wake MStep inv st show ?thesis
        by (auto simp: fm_inv_defs intro!: lock_agrees_same split: if_splits)
    next
      case False
      define u where "u = m_sleepers y ! (n mod length (m_sleepers y))"
      have u: "u \<in> set (m_sleepers y)" using False by (simp add: u_def)
      with inv have us: "m_pc y u = M_sleep" and ut: "u \<noteq> t" using M_wake
        by (auto simp: fm_inv_defs)
      have y': "y' = y\<lparr>m_pc := (m_pc y)(t := M_out, u := M_swap), m_sleepers := remove1 u (m_sleepers y)\<rparr>"
        using st MStep M_wake False by (simp add: u_def Let_def)
      have "lock_agrees (m_lock y = 0) ((fm_held \<circ> m_pc y)(t := Outside, u := Outside))"
        using inv us ut M_wake by (intro lock_agrees_same) (auto simp: fm_inv_def)
      with inv us ut M_wake show ?thesis unfolding y' by (auto simp: fm_inv_defs)
    qed
  qed (use MStep inv st in auto)
next
  case (MReturn t)
  with inv st show ?thesis
    by (auto simp: fm_inv_defs intro!: lock_agrees_same split: if_splits)
qed

lemma fm_phase_simps [simp]:
  "fm_phase p = Outside \<longleftrightarrow> p = M_out" "fm_phase p = Inside \<longleftrightarrow> p = M_in"
  by (cases p; simp)+

lemma fm_step_phase:
  assumes inv: "fm_inv y" and st: "fm_step y e = Inr y'"
  shows "fm_phase (m_pc y' t) = fm_phase (m_pc y t) \<or>
    fm_phase (m_pc y t) = Entering \<and> m_pc y' t = M_in \<or>
    fm_phase (m_pc y t) = Leaving \<and> m_pc y' t = M_out"
proof -
  have "m_pc y (m_sleepers y ! (n mod length (m_sleepers y))) = M_sleep" if "m_sleepers y \<noteq> []" for n
  proof -
    have "m_sleepers y ! (n mod length (m_sleepers y)) \<in> set (m_sleepers y)" using that by simp
    with inv show ?thesis by (auto simp: fm_inv_defs)
  qed
  with st show ?thesis
    by (cases e) (auto simp: fm_defs Let_def split: fm_pc.splits if_splits)
qed

interpretation fm: sync_protocol fm_proto fm_inv
proof unfold_locales
  fix y :: "'t fm" and t u :: 't and k e y' f
  show "fm_inv y \<Longrightarrow> p_phase fm_proto y t = Outside \<Longrightarrow> fm_inv (p_call fm_proto y t k)"
    by (simp add: fm_proto_def fm_inv_call)
  show "fm_inv y \<Longrightarrow> p_phase fm_proto y t = Outside \<Longrightarrow>
      p_phase fm_proto (p_call fm_proto y t k) u = (if u = t then Entering else p_phase fm_proto y u)"
    by (simp add: fm_defs)
  show "fm_inv y \<Longrightarrow> p_phase fm_proto y t = Inside \<Longrightarrow> fm_inv (p_leave fm_proto y t)"
    by (simp add: fm_proto_def fm_inv_leave)
  show "fm_inv y \<Longrightarrow> p_phase fm_proto y t = Inside \<Longrightarrow>
      p_phase fm_proto (p_leave fm_proto y t) u = (if u = t then Leaving else p_phase fm_proto y u)"
    by (simp add: fm_defs)
  show "fm_inv y \<Longrightarrow> p_step fm_proto y e = Inr y' \<Longrightarrow> fm_inv y'"
    by (simp add: fm_proto_def fm_inv_step)
  show "fm_inv y \<Longrightarrow> p_step fm_proto y e = Inr y' \<Longrightarrow>
      p_phase fm_proto y' t = p_phase fm_proto y t \<or>
      p_phase fm_proto y t = Entering \<and> p_phase fm_proto y' t = Inside \<or>
      p_phase fm_proto y t = Leaving \<and> p_phase fm_proto y' t = Outside"
    using fm_step_phase [of y e y' t] by (simp add: fm_proto_def)
  show "fm_inv y \<Longrightarrow> p_phase fm_proto y t = Inside \<Longrightarrow> p_phase fm_proto y u = Inside \<Longrightarrow> t = u"
    using lock_agrees_unique [of "m_lock y = 0" "fm_held \<circ> m_pc y" t u]
    by (simp add: fm_proto_def fm_inv_def)
  show "fm_inv y \<Longrightarrow> p_step fm_proto y e = Inl f \<Longrightarrow> \<exists>msg. f = Abort msg"
    by (cases e) (auto simp: fm_proto_def fm_defs Let_def split: fm_pc.splits if_splits)
qed

lemma fm_start_inv: "fm_inv fm_start"
  using lock_agrees_start by (simp add: fm_inv_defs fm_start_def futex_mutex_init_def comp_def)

text \<open>
  The futex mutex of \<^verbatim>\<open>4.c\<close>: of any number of threads at most one is inside,
  threads never all sleep while the mutex is free, and whenever a thread is in an operation
  some thread is inside or about to move by itself.
\<close>

lemma futex_mutex_4_correct:
  assumes "reach (drive fm_proto) fm_start y"
  shows "(\<forall>t u. m_pc y t = M_in \<and> m_pc y u = M_in \<longrightarrow> t = u) \<and>
    ((\<exists>t. m_pc y t \<noteq> M_out) \<longrightarrow>
      (\<exists>u. m_pc y u = M_in \<or> m_pc y u = M_release \<or> fm_awake y u)) \<and>
    ((\<exists>t. m_pc y t = M_sleep) \<and> m_lock y = 0 \<longrightarrow> (\<exists>u. fm_awake y u))"
proof (intro conjI impI)
  have inv: "fm_inv y" by (rule fm.driven.reach_good [OF assms fm_start_inv])
  then have agree: "lock_agrees (m_lock y = 0) (fm_held \<circ> m_pc y)" by (simp add: fm_inv_def)
  from lock_agrees_unique [OF agree]
  show "\<forall>t u. m_pc y t = M_in \<and> m_pc y u = M_in \<longrightarrow> t = u" by fastforce
  show sl: "\<exists>u. fm_awake y u" if "(\<exists>t. m_pc y t = M_sleep) \<and> m_lock y = 0"
    using inv that by (auto simp: fm_inv_def fm_sleepers_ok_def)
  assume "\<exists>t. m_pc y t \<noteq> M_out"
  then obtain t where t: "m_pc y t \<noteq> M_out" by blast
  show "\<exists>u. m_pc y u = M_in \<or> m_pc y u = M_release \<or> fm_awake y u"
  proof (cases "m_pc y t = M_sleep \<and> m_lock y \<noteq> 0")
    case True
    with agree obtain u where "holding ((fm_held \<circ> m_pc y) u)"
      using lock_agrees_holder [of "fm_held \<circ> m_pc y"] by auto
    then show ?thesis by (intro exI [of _ u]) (cases "m_pc y u"; simp)
  next
    case False
    with t sl show ?thesis by (cases "m_pc y t") (auto simp: fm_awake_def)
  qed
qed

section \<open>main\<close>

text \<open>
  \<open>main\<close> returns: with the locks free both lock functions return at once, and
  the four lines are printed. A lock taken twice by one thread never returns.
\<close>

lemma lab4_main_returns:
  "lab4_main = Some [''Spinlock acquired'', ''Spinlock released'', ''Futex mutex acquired'',
                     ''Futex mutex released''] \<and>
   futex_mutex_lock 1 = None \<and> (\<forall>l. xspin_lock l = (if l = 0 then Some 1 else None))"
proof -
  have pause: "xspin_pause 1 \<noteq> Some l" for l
  proof
    assume "xspin_pause 1 = Some l"
    then have "(1 :: int) = 0"
      by (rule xspin_pause.raw_induct [where P = "\<lambda>x l. x = 0", rotated]) (auto split: if_splits)
    then show False by simp
  qed
  then have "xspin_pause 1 = None" by auto
  then have "xspin_lock l = (if l = 0 then Some 1 else None)" for l
    by (simp add: xspin_lock.simps [of l] atomic_exchange_def)
  then show ?thesis
    by (simp add: lab4_main_def xspin_init_def futex_mutex_init_def futex_mutex_lock.simps
        atomic_exchange_def wait_sleeps_def)
qed

text \<open>
  Property C36. The locks of \<^verbatim>\<open>4.c\<close>, with any number of threads. The exchange spinlock excludes, and
  when no thread holds it, every waiting thread gets it within two steps of its own if no
  other thread moves. The futex mutex excludes, threads never all sleep while it is free, and
  whenever a thread is in an operation some thread is inside or about to move by itself.
  And \<open>main\<close>, which uses both from one thread, prints its four lines and returns.
\<close>

theorem lab4_locks_correct:
  assumes "reach (drive xspin_proto) xspin_start x" and "reach (drive fm_proto) fm_start y"
  shows "(\<forall>t u. holding (xspin_phase (p_pc x t)) \<and> holding (xspin_phase (p_pc x u)) \<longrightarrow> t = u) \<and>
    (\<forall>t. (\<forall>u. \<not> holding (xspin_phase (p_pc x u))) \<and> xspin_phase (p_pc x t) = Entering \<longrightarrow>
      (\<exists>y1. xspin_step x t = Inr y1 \<and>
        (p_pc y1 t = P_in \<or> (\<exists>y2. xspin_step y1 t = Inr y2 \<and> p_pc y2 t = P_in)))) \<and>
    (\<forall>t u. m_pc y t = M_in \<and> m_pc y u = M_in \<longrightarrow> t = u) \<and>
    ((\<exists>t. m_pc y t \<noteq> M_out) \<longrightarrow>
      (\<exists>u. m_pc y u = M_in \<or> m_pc y u = M_release \<or> fm_awake y u)) \<and>
    ((\<exists>t. m_pc y t = M_sleep) \<and> m_lock y = 0 \<longrightarrow> (\<exists>u. fm_awake y u)) \<and>
    lab4_main = Some [''Spinlock acquired'', ''Spinlock released'', ''Futex mutex acquired'',
                      ''Futex mutex released'']"
  using conjunct1 [OF xspin_correct [OF assms(1)]] conjunct2 [OF xspin_correct [OF assms(1)]]
    futex_mutex_4_correct [OF assms(2)] lab4_main_returns by (intro conjI) blast+

lemma lab4_locks_correct_witness:
  "\<exists>(x :: nat xspin) (y :: nat fm). reach (drive xspin_proto) xspin_start x \<and> p_pc x 1 = P_load \<and>
     (\<exists>y1. xspin_step x 1 = Inr y1 \<and>
        (p_pc y1 1 = P_in \<or> (\<exists>y2. xspin_step y1 1 = Inr y2 \<and> p_pc y2 1 = P_in))) \<and>
     reach (drive fm_proto) fm_start y \<and> m_pc y 1 = M_sleep \<and> m_lock y = 0 \<and> (\<exists>u. fm_awake y u)"
proof -
  obtain x :: "nat xspin" where x: "run (drive xspin_proto) xspin_start
      [Call 0 AddOp, Own 0, Call 1 GetOp, Own 1, Leave 0, Own 0] = Inr x"
      "p_pc x = (\<lambda>_. P_out)(1 := P_load)"
    by (simp add: xspin_start_def xspin_init_def xspin_defs fun_eq_iff)
  obtain y :: "nat fm" where y: "run (drive fm_proto) fm_start
      [Call 0 AddOp, Own (MStep 0 0), Call 1 GetOp, Own (MStep 1 0), Own (MStep 1 0),
       Leave 0, Own (MStep 0 0)] = Inr y" "m_pc y 1 = M_sleep" "m_lock y = 0"
    by (simp add: fm_start_def futex_mutex_init_def fm_defs)
  note all = lab4_locks_correct [OF run_reach [OF x(1)] run_reach [OF y(1)]]
  from x(2) have "(\<forall>u. \<not> holding (xspin_phase (p_pc x u))) \<and> xspin_phase (p_pc x 1) = Entering" by auto
  with all have "\<exists>y1. xspin_step x 1 = Inr y1 \<and>
      (p_pc y1 1 = P_in \<or> (\<exists>y2. xspin_step y1 1 = Inr y2 \<and> p_pc y2 1 = P_in))" by blast
  moreover from all y(2,3) have "\<exists>u. fm_awake y u" by blast
  moreover from x(2) have "p_pc x 1 = P_load" by simp
  ultimately show ?thesis using run_reach [OF x(1)] run_reach [OF y(1)] y(2,3) by blast
qed

end
