(* ===== verification/StorageThreads.thy ===== *)
theory StorageThreads
  imports Storage "HOL-Library.Multiset"
begin

text \<open>
  The threads of \<^verbatim>\<open>lab2/3\<close> (\<^verbatim>\<open>main.c\<close> of the three variants): threads that walk the list and
  compare neighbours, and threads that swap neighbours, each node protected by its own lock.
  The kind of lock is an interface, a record of functions and a locale with its laws: a
  mutex, a read-write lock and a spinlock provide it. The steps follow the order of the C
  code. Every access to a node whose lock the thread does not hold, every store and every call
  to a lock is a step of its own, except that the argument of a lock call (\<open>curr1->next\<close>,
  \<open>curr1->next->next\<close>) and what a store stores are read in the step of the call or the store, and
  a row of reads is one step (\<open>P_cmp\<close>, \<open>S_next2\<close>, \<open>S_swap\<close>, \<open>S_adv\<close>): what is read there belongs
  to nodes that the thread has locked, so that no other thread can write it in between.
  \<open>storage->first\<close> never changes, and only its own thread writes a counter.
\<close>

section \<open>Locks\<close>

text \<open>
  \<open>k_try_read\<close> is the try-lock that \<open>process_thread\<close> calls, \<open>k_try_write\<close> the one that
  \<open>swap_thread\<close> calls; they return None when they fail (EBUSY). \<open>k_unlock\<close> returns None for a
  lock that the thread does not hold, which is undefined behaviour in C.
\<close>

record ('l, 't) lock_ops =
  k_init :: 'l
  k_try_read :: "'l \<Rightarrow> 't \<Rightarrow> 'l option"
  k_try_write :: "'l \<Rightarrow> 't \<Rightarrow> 'l option"
  k_unlock :: "'l \<Rightarrow> 't \<Rightarrow> 'l option"

locale node_lock =
  fixes K :: "('l, 't) lock_ops"
    and lock_ok :: "'l \<Rightarrow> bool"
    and held :: "'l \<Rightarrow> 't \<Rightarrow> bool"
    and wheld :: "'l \<Rightarrow> 't \<Rightarrow> bool"
  assumes init_free: "lock_ok (k_init K) \<and> \<not> held (k_init K) t"
    and try_write: "lock_ok l \<Longrightarrow> k_try_write K l t = Some l' \<Longrightarrow>
          lock_ok l' \<and> (\<forall>u. \<not> held l u) \<and> wheld l' t \<and> (\<forall>u. held l' u \<longleftrightarrow> u = t)"
    and try_read: "lock_ok l \<Longrightarrow> \<not> held l t \<Longrightarrow> k_try_read K l t = Some l' \<Longrightarrow>
          lock_ok l' \<and> held l' t \<and>
          (\<forall>u. u \<noteq> t \<longrightarrow> held l' u = held l u \<and> wheld l' u = wheld l u)"
    and unlock: "lock_ok l \<Longrightarrow> held l t \<Longrightarrow>
          \<exists>l'. k_unlock K l t = Some l' \<and> lock_ok l' \<and> \<not> held l' t \<and>
            (\<forall>u. u \<noteq> t \<longrightarrow> held l' u = held l u \<and> wheld l' u = wheld l u)"
    and exclusive: "lock_ok l \<Longrightarrow> wheld l t \<Longrightarrow> held l u \<Longrightarrow> u = t"

section \<open>The threads\<close>

text \<open>
  Where a thread is. The arguments are its local variables \<open>curr\<close>, here \<open>cur\<close> (or \<open>curr1\<close>, \<open>curr2\<close>,
  \<open>curr3\<close>, \<open>tmp\<close>); where the code holds a second or third lock without having named the node
  yet, the argument records which node that is.
\<close>

datatype spc =
    P_check
  | P_outer
  | P_loop ptr
  | P_skip addr
  | P_next1 addr
  | P_try2 addr
  | P_cmp addr addr
  | P_adv addr addr
  | P_unl1 addr ptr
  | P_unl2 ptr
  | P_else addr
  | P_unl addr ptr
  | P_count
  | S_outer
  | S_outer2 addr
  | S_outer3 addr ptr
  | S_rand addr
  | S_walk ptr
  | S_walk2 addr
  | S_loop ptr
  | S_skip addr
  | S_next1 addr
  | S_try2 addr
  | S_next2 addr addr
  | S_try3 addr addr
  | S_swap addr addr addr
  | S_st1 addr addr addr
  | S_st2 addr addr addr
  | S_st3 addr addr addr
  | S_count addr addr addr
  | S_adv addr addr addr
  | S_u1 addr ptr ptr
  | S_u2 ptr ptr
  | S_u3 ptr ptr
  | S_else2 addr addr
  | S_e1 addr ptr
  | S_e2 ptr
  | S_else1 addr
  | S_f addr ptr
  | S_done

text \<open>
  \<open>w_counter\<close> is the block from \<open>calloc\<close> (which may have failed), one counter per thread;
  \<open>w_pairs\<close> are the local variables \<open>pair_count\<close>.
\<close>

record ('l, 't) sthreads =
  w_first :: ptr
  w_heap :: "'l snode heap"
  w_counter :: "('t \<Rightarrow> int) option"
  w_pairs :: "'t \<Rightarrow> int"
  w_pc :: "'t \<Rightarrow> spc"

definition goto :: "'t \<Rightarrow> spc \<Rightarrow> ('l, 't) sthreads \<Rightarrow> ('l, 't) sthreads" where
  "goto t pc s = s\<lparr>w_pc := (w_pc s)(t := pc)\<rparr>"

definition next_of :: "('l, 't) sthreads \<Rightarrow> ptr \<Rightarrow> fault + ptr" where
  "next_of s p = bindr (deref (w_heap s) p) (\<lambda>n. Inr (s_next n))"

definition set_next :: "addr \<Rightarrow> ptr \<Rightarrow> ('l, 't) sthreads \<Rightarrow> fault + ('l, 't) sthreads" where
  "set_next a p s = bindr (store (w_heap s) (Some a) (\<lambda>n. n\<lparr>s_next := p\<rparr>)) (\<lambda>h.
     Inr (s\<lparr>w_heap := h\<rparr>))"

definition try_lock ::
  "('l \<Rightarrow> 't \<Rightarrow> 'l option) \<Rightarrow> 't \<Rightarrow> ptr \<Rightarrow> spc \<Rightarrow> spc \<Rightarrow> ('l, 't) sthreads \<Rightarrow> fault + ('l, 't) sthreads" where
  "try_lock try t p yes no s =
     bindr (deref (w_heap s) p) (\<lambda>n.
     case try (s_lock n) t of
       None \<Rightarrow> Inr (goto t no s)
     | Some l \<Rightarrow> bindr (store (w_heap s) p (\<lambda>n. n\<lparr>s_lock := l\<rparr>)) (\<lambda>h.
                 Inr (goto t yes (s\<lparr>w_heap := h\<rparr>))))"

definition un_lock ::
  "('l, 't) lock_ops \<Rightarrow> 't \<Rightarrow> ptr \<Rightarrow> spc \<Rightarrow> ('l, 't) sthreads \<Rightarrow> fault + ('l, 't) sthreads" where
  "un_lock K t p pc s =
     bindr (deref (w_heap s) p) (\<lambda>n.
     case k_unlock K (s_lock n) t of
       None \<Rightarrow> Inl (Abort ''unlock of a lock that is not held'')
     | Some l \<Rightarrow> bindr (store (w_heap s) p (\<lambda>n. n\<lparr>s_lock := l\<rparr>)) (\<lambda>h.
                 Inr (goto t pc (s\<lparr>w_heap := h\<rparr>))))"

definition incr_counter :: "'t \<Rightarrow> spc \<Rightarrow> ('l, 't) sthreads \<Rightarrow> fault + ('l, 't) sthreads" where
  "incr_counter t pc s =
     (case w_counter s of
        None \<Rightarrow> Inl NullDeref
      | Some c \<Rightarrow> bindr (c_int (c t + 1)) (\<lambda>x. Inr (goto t pc (s\<lparr>w_counter := Some (c(t := x))\<rparr>))))"

text \<open>
  \<open>process_thread\<close>. The third argument of \<open>compare_nodes\<close> is the address of the counter,
  \<open>counter_addr\<close> gives it as a number.
\<close>

fun process_step ::
  "('l, 't) lock_ops \<Rightarrow> ('t \<Rightarrow> int) \<Rightarrow> 't \<Rightarrow> spc \<Rightarrow> ('l, 't) sthreads \<Rightarrow> fault + ('l, 't) sthreads" where
  "process_step K counter_addr t P_check s =
     (if w_first s = None then Inr (goto t S_done s)
      else bindr (next_of s (w_first s)) (\<lambda>p. Inr (goto t (if p = None then S_done else P_outer) s)))"
| "process_step K counter_addr t P_outer s =
     (if w_first s = None then Inr (goto t S_done s)
      else bindr (next_of s (w_first s)) (\<lambda>p.
           Inr (goto t (if p = None then S_done else P_loop (w_first s)) s)))"
| "process_step K counter_addr t (P_loop cur) s =
     (case cur of
        None \<Rightarrow> Inr (goto t P_count s)
      | Some a \<Rightarrow> try_lock (k_try_read K) t cur (P_next1 a) (P_skip a) s)"
| "process_step K counter_addr t (P_skip a) s =
     bindr (next_of s (Some a)) (\<lambda>p. Inr (goto t (P_loop p) s))"
| "process_step K counter_addr t (P_next1 a) s =
     bindr (next_of s (Some a)) (\<lambda>p. Inr (goto t (if p \<noteq> None then P_try2 a else P_else a) s))"
| "process_step K counter_addr t (P_try2 a) s =
     bindr (next_of s (Some a)) (\<lambda>p.
     case p of
       None \<Rightarrow> Inl NullDeref
     | Some b \<Rightarrow> try_lock (k_try_read K) t p (P_cmp a b) (P_else a) s)"
| "process_step K counter_addr t (P_cmp a b) s =
     bindr (next_of s (Some a)) (\<lambda>curr2.
     bindr (deref (w_heap s) (Some a)) (\<lambda>n1.
     bindr (deref (w_heap s) curr2) (\<lambda>n2.
     let result = compare_nodes (s_value n1) (s_value n2) (counter_addr t)
     in Inr (goto t (P_adv a b) (s\<lparr>w_pairs := (w_pairs s)(t := 0 + result)\<rparr>)))))"
| "process_step K counter_addr t (P_adv a b) s =
     bindr (next_of s (Some a)) (\<lambda>p. Inr (goto t (P_unl1 a p) s))"
| "process_step K counter_addr t (P_unl1 tmp cur) s = un_lock K t (Some tmp) (P_unl2 cur) s"
| "process_step K counter_addr t (P_unl2 cur) s = un_lock K t cur (P_loop cur) s"
| "process_step K counter_addr t (P_else a) s =
     bindr (next_of s (Some a)) (\<lambda>p. Inr (goto t (P_unl a p) s))"
| "process_step K counter_addr t (P_unl tmp cur) s = un_lock K t (Some tmp) (P_loop cur) s"
| "process_step K counter_addr t P_count s = incr_counter t P_outer s"
| "process_step K counter_addr t _ s = Inr s"

text \<open>\<open>swap_thread\<close>. \<open>rnd\<close> is the value of \<open>rand() % 2\<close> where it is called.\<close>

fun swap_step ::
  "('l, 't) lock_ops \<Rightarrow> int \<Rightarrow> 't \<Rightarrow> spc \<Rightarrow> ('l, 't) sthreads \<Rightarrow> fault + ('l, 't) sthreads" where
  "swap_step K rnd t S_outer s =
     (case w_first s of
        None \<Rightarrow> Inr (goto t S_done s)
      | Some a \<Rightarrow> bindr (next_of s (Some a)) (\<lambda>p.
                  Inr (goto t (if p = None then S_done else S_outer2 a) s)))"
| "swap_step K rnd t (S_outer2 a) s =
     bindr (next_of s (Some a)) (\<lambda>p. Inr (goto t (S_outer3 a p) s))"
| "swap_step K rnd t (S_outer3 a p) s =
     bindr (next_of s p) (\<lambda>q. Inr (goto t (if q = None then S_done else S_rand a) s))"
| "swap_step K rnd t (S_rand a) s =
     Inr (goto t (if rnd = 0 then S_walk (Some a) else S_loop (Some a)) s)"
| "swap_step K rnd t (S_walk curr1) s =
     bindr (next_of s curr1) (\<lambda>p.
     Inr (goto t (case (p, curr1) of (Some _, Some a) \<Rightarrow> S_walk2 a | _ \<Rightarrow> S_outer) s))"
| "swap_step K rnd t (S_walk2 a) s =
     bindr (next_of s (Some a)) (\<lambda>p. Inr (goto t (S_walk p) s))"
| "swap_step K rnd t (S_loop curr1) s =
     (case curr1 of
        None \<Rightarrow> Inr (goto t S_outer s)
      | Some a \<Rightarrow> try_lock (k_try_write K) t curr1 (S_next1 a) (S_skip a) s)"
| "swap_step K rnd t (S_skip a) s =
     bindr (next_of s (Some a)) (\<lambda>p. Inr (goto t (S_loop p) s))"
| "swap_step K rnd t (S_next1 a) s =
     bindr (next_of s (Some a)) (\<lambda>p. Inr (goto t (if p \<noteq> None then S_try2 a else S_else1 a) s))"
| "swap_step K rnd t (S_try2 a) s =
     bindr (next_of s (Some a)) (\<lambda>p.
     case p of
       None \<Rightarrow> Inl NullDeref
     | Some b \<Rightarrow> try_lock (k_try_write K) t p (S_next2 a b) (S_else1 a) s)"
| "swap_step K rnd t (S_next2 a b) s =
     bindr (next_of s (Some a)) (\<lambda>p.
     bindr (next_of s p) (\<lambda>q. Inr (goto t (if q \<noteq> None then S_try3 a b else S_else2 a b) s)))"
| "swap_step K rnd t (S_try3 a b) s =
     bindr (next_of s (Some a)) (\<lambda>p.
     bindr (next_of s p) (\<lambda>q.
     case q of
       None \<Rightarrow> Inl NullDeref
     | Some c \<Rightarrow> try_lock (k_try_write K) t q (S_swap a b c) (S_else2 a b) s))"
| "swap_step K rnd t (S_swap a b c) s =
     bindr (next_of s (Some a)) (\<lambda>p.
     bindr (next_of s p) (\<lambda>q.
     case (p, q) of
       (Some curr2, Some curr3) \<Rightarrow> Inr (goto t (S_st1 a curr2 curr3) s)
     | _ \<Rightarrow> Inl NullDeref))"
| "swap_step K rnd t (S_st1 curr1 curr2 curr3) s =
     bindr (next_of s (Some curr3)) (\<lambda>p.
     bindr (set_next curr2 p s) (\<lambda>s. Inr (goto t (S_st2 curr1 curr2 curr3) s)))"
| "swap_step K rnd t (S_st2 curr1 curr2 curr3) s =
     bindr (set_next curr3 (Some curr2) s) (\<lambda>s. Inr (goto t (S_st3 curr1 curr2 curr3) s))"
| "swap_step K rnd t (S_st3 curr1 curr2 curr3) s =
     bindr (set_next curr1 (Some curr3) s) (\<lambda>s. Inr (goto t (S_count curr1 curr2 curr3) s))"
| "swap_step K rnd t (S_count a b c) s = incr_counter t (S_adv a b c) s"
| "swap_step K rnd t (S_adv tmp b c) s =
     bindr (next_of s (Some tmp)) (\<lambda>curr1.
     bindr (next_of s curr1) (\<lambda>curr2. Inr (goto t (S_u1 tmp curr1 curr2) s)))"
| "swap_step K rnd t (S_u1 tmp curr1 curr2) s = un_lock K t (Some tmp) (S_u2 curr1 curr2) s"
| "swap_step K rnd t (S_u2 curr1 curr2) s = un_lock K t curr1 (S_u3 curr1 curr2) s"
| "swap_step K rnd t (S_u3 curr1 curr2) s = un_lock K t curr2 (S_loop curr1) s"
| "swap_step K rnd t (S_else2 a b) s =
     bindr (next_of s (Some a)) (\<lambda>p. Inr (goto t (S_e1 a p) s))"
| "swap_step K rnd t (S_e1 tmp curr1) s = un_lock K t (Some tmp) (S_e2 curr1) s"
| "swap_step K rnd t (S_e2 curr1) s = un_lock K t curr1 (S_loop curr1) s"
| "swap_step K rnd t (S_else1 a) s =
     bindr (next_of s (Some a)) (\<lambda>p. Inr (goto t (S_f a p) s))"
| "swap_step K rnd t (S_f tmp curr1) s = un_lock K t (Some tmp) (S_loop curr1) s"
| "swap_step K rnd t _ s = Inr s"

text \<open>Which of the two functions a thread runs is seen from its position.\<close>

fun swapper :: "spc \<Rightarrow> bool" where
  "swapper P_check = False" | "swapper P_outer = False" | "swapper (P_loop _) = False"
| "swapper (P_skip _) = False" | "swapper (P_next1 _) = False" | "swapper (P_try2 _) = False"
| "swapper (P_cmp _ _) = False" | "swapper (P_adv _ _) = False" | "swapper (P_unl1 _ _) = False"
| "swapper (P_unl2 _) = False" | "swapper (P_else _) = False" | "swapper (P_unl _ _) = False"
| "swapper P_count = False"
| "swapper _ = True"

text \<open>An event names the thread that moves and the next value of \<open>rand() % 2\<close>.\<close>

definition storage_step ::
  "('l, 't) lock_ops \<Rightarrow> ('t \<Rightarrow> int) \<Rightarrow> ('l, 't) sthreads \<Rightarrow> 't \<times> int \<Rightarrow> fault + ('l, 't) sthreads" where
  "storage_step K counter_addr s ev =
     (if swapper (w_pc s (fst ev)) then swap_step K (snd ev) (fst ev) (w_pc s (fst ev)) s
      else process_step K counter_addr (fst ev) (w_pc s (fst ev)) s)"

section \<open>The invariant\<close>

definition nxt :: "'l snode heap \<Rightarrow> addr \<Rightarrow> ptr" where
  "nxt h a = (case h a of None \<Rightarrow> None | Some n \<Rightarrow> s_next n)"

text \<open>The nodes whose locks a thread holds.\<close>

fun locks_of :: "spc \<Rightarrow> addr set" where
  "locks_of (P_next1 a) = {a}" | "locks_of (P_try2 a) = {a}" | "locks_of (P_else a) = {a}"
| "locks_of (P_cmp a b) = {a, b}" | "locks_of (P_adv a b) = {a, b}"
| "locks_of (P_unl1 a p) = insert a (set_option p)" | "locks_of (P_unl2 p) = set_option p"
| "locks_of (P_unl a p) = {a}"
| "locks_of (S_next1 a) = {a}" | "locks_of (S_try2 a) = {a}" | "locks_of (S_else1 a) = {a}"
| "locks_of (S_f a p) = {a}"
| "locks_of (S_next2 a b) = {a, b}" | "locks_of (S_try3 a b) = {a, b}" | "locks_of (S_else2 a b) = {a, b}"
| "locks_of (S_e1 a p) = insert a (set_option p)" | "locks_of (S_e2 p) = set_option p"
| "locks_of (S_swap a b c) = {a, b, c}" | "locks_of (S_st1 a b c) = {a, b, c}"
| "locks_of (S_st2 a b c) = {a, b, c}" | "locks_of (S_st3 a b c) = {a, b, c}"
| "locks_of (S_count a b c) = {a, b, c}" | "locks_of (S_adv a b c) = {a, b, c}"
| "locks_of (S_u1 a p q) = insert a (set_option p \<union> set_option q)"
| "locks_of (S_u2 p q) = set_option p \<union> set_option q"
| "locks_of (S_u3 p q) = set_option q"
| "locks_of _ = {}"

text \<open>The stores to \<open>next\<close> fields that a swap in progress has still to make after its first one.\<close>

fun pending :: "spc \<Rightarrow> addr \<Rightarrow> ptr option" where
  "pending (S_st2 a b c) = [c \<mapsto> Some b, a \<mapsto> Some c]"
| "pending (S_st3 a b c) = [a \<mapsto> Some c]"
| "pending _ = Map.empty"

text \<open>
  What a thread knows about the nodes: \<open>nx\<close> is the \<open>next\<close> field of each node, \<open>D\<close> the set of
  nodes, \<open>f\<close> the head.
\<close>

definition ptr_ok :: "addr set \<Rightarrow> ptr \<Rightarrow> bool" where
  "ptr_ok D p \<longleftrightarrow> (\<forall>a. p = Some a \<longrightarrow> a \<in> D)"

fun pc_ok :: "(addr \<Rightarrow> ptr) \<Rightarrow> addr set \<Rightarrow> ptr \<Rightarrow> spc \<Rightarrow> bool" where
  "pc_ok nx D f (P_loop p) = ptr_ok D p"
| "pc_ok nx D f (P_skip a) = (a \<in> D)"
| "pc_ok nx D f (P_next1 a) = (a \<in> D)"
| "pc_ok nx D f (P_try2 a) = (a \<in> D \<and> nx a \<noteq> None)"
| "pc_ok nx D f (P_cmp a b) = (a \<in> D \<and> b \<in> D \<and> a \<noteq> b \<and> nx a = Some b)"
| "pc_ok nx D f (P_adv a b) = (a \<in> D \<and> b \<in> D \<and> a \<noteq> b \<and> nx a = Some b)"
| "pc_ok nx D f (P_unl1 a p) = (a \<in> D \<and> (\<exists>b. p = Some b \<and> b \<in> D \<and> a \<noteq> b))"
| "pc_ok nx D f (P_unl2 p) = (\<exists>b. p = Some b \<and> b \<in> D)"
| "pc_ok nx D f (P_else a) = (a \<in> D)"
| "pc_ok nx D f (P_unl a p) = (a \<in> D \<and> ptr_ok D p)"
| "pc_ok nx D f (S_outer2 a) = (f = Some a \<and> 1 < card D)"
| "pc_ok nx D f (S_outer3 a p) = (f = Some a \<and> (\<exists>b. p = Some b \<and> b \<in> D))"
| "pc_ok nx D f (S_rand a) = (f = Some a)"
| "pc_ok nx D f (S_walk p) = ptr_ok D p"
| "pc_ok nx D f (S_walk2 a) = (a \<in> D)"
| "pc_ok nx D f (S_loop p) = ptr_ok D p"
| "pc_ok nx D f (S_skip a) = (a \<in> D)"
| "pc_ok nx D f (S_next1 a) = (a \<in> D)"
| "pc_ok nx D f (S_try2 a) = (a \<in> D \<and> nx a \<noteq> None)"
| "pc_ok nx D f (S_next2 a b) = (a \<in> D \<and> b \<in> D \<and> a \<noteq> b \<and> nx a = Some b)"
| "pc_ok nx D f (S_try3 a b) = (a \<in> D \<and> b \<in> D \<and> a \<noteq> b \<and> nx a = Some b \<and> nx b \<noteq> None)"
| "pc_ok nx D f (S_else2 a b) = (a \<in> D \<and> b \<in> D \<and> a \<noteq> b \<and> nx a = Some b)"
| "pc_ok nx D f (S_e1 a p) = (a \<in> D \<and> (\<exists>b. p = Some b \<and> b \<in> D \<and> a \<noteq> b))"
| "pc_ok nx D f (S_e2 p) = (\<exists>b. p = Some b \<and> b \<in> D)"
| "pc_ok nx D f (S_else1 a) = (a \<in> D)"
| "pc_ok nx D f (S_f a p) = (a \<in> D \<and> ptr_ok D p)"
| "pc_ok nx D f (S_swap a b c) = ({a, b, c} \<subseteq> D \<and> distinct [a, b, c] \<and> nx a = Some b \<and> nx b = Some c)"
| "pc_ok nx D f (S_st1 a b c) = ({a, b, c} \<subseteq> D \<and> distinct [a, b, c] \<and> nx a = Some b \<and> nx b = Some c)"
| "pc_ok nx D f (S_st2 a b c) = ({a, b, c} \<subseteq> D \<and> distinct [a, b, c] \<and> nx a = Some b \<and> nx b = nx c)"
| "pc_ok nx D f (S_st3 a b c) = ({a, b, c} \<subseteq> D \<and> distinct [a, b, c] \<and> nx a = Some b \<and> nx c = Some b)"
| "pc_ok nx D f (S_count a b c) = ({a, b, c} \<subseteq> D \<and> distinct [a, b, c] \<and> nx a = Some c \<and> nx c = Some b)"
| "pc_ok nx D f (S_adv a b c) = ({a, b, c} \<subseteq> D \<and> distinct [a, b, c] \<and> nx a = Some c \<and> nx c = Some b)"
| "pc_ok nx D f (S_u1 a p q) = (\<exists>b c. p = Some c \<and> q = Some b \<and> {a, b, c} \<subseteq> D \<and> distinct [a, b, c])"
| "pc_ok nx D f (S_u2 p q) = (\<exists>b c. p = Some c \<and> q = Some b \<and> {b, c} \<subseteq> D \<and> b \<noteq> c)"
| "pc_ok nx D f (S_u3 p q) = (\<exists>b c. p = Some c \<and> q = Some b \<and> {b, c} \<subseteq> D)"
| "pc_ok nx D f _ = True"

lemma pc_ok_cong:
  "(\<And>a. a \<in> locks_of pc \<Longrightarrow> nx a = nx' a) \<Longrightarrow> pc_ok nx D f pc = pc_ok nx' D f pc"
  by (cases pc) auto

lemma pending_locked: "pending pc a = Some p \<Longrightarrow> a \<in> locks_of pc \<and> swapper pc"
  by (cases pc) (auto split: if_splits)

lemma locks_in: "pc_ok nx D f pc \<Longrightarrow> locks_of pc \<subseteq> D"
  by (cases pc) auto

text \<open>The list of nodes from \<open>p\<close> along a \<open>next\<close> function.\<close>

fun path :: "(addr \<Rightarrow> ptr) \<Rightarrow> ptr \<Rightarrow> addr list \<Rightarrow> bool" where
  "path nx p [] = (p = None)"
| "path nx p (a # as) = (p = Some a \<and> path nx (nx a) as)"

lemma path_cong: "(\<And>a. a \<in> set as \<Longrightarrow> nx a = nx' a) \<Longrightarrow> path nx p as = path nx' p as"
  by (induction as arbitrary: p) auto

lemma path_swap:
  assumes "path nx p as" and d: "distinct as" and "nx a = Some b" and "nx b = Some c" and "a \<in> set as"
    and nx': "nx' = nx(b := nx c, c := Some b, a := Some c)"
  shows "\<exists>bs. path nx' p bs \<and> mset bs = mset as \<and>
    (bs \<noteq> [] \<longrightarrow> hd bs = hd as) \<and> a \<noteq> b \<and> a \<noteq> c \<and> b \<noteq> c \<and> nx c \<noteq> Some b \<and> nx c \<noteq> Some c"
  using assms(1,2,5)
proof (induction as arbitrary: p)
  case Nil
  then show ?case by simp
next
  case (Cons x xs)
  show ?case
  proof (cases "x = a")
    case True
    with Cons.prems assms(3,4) obtain ys where xs: "xs = b # c # ys"
      by (cases xs; cases "tl xs") (auto split: list.splits)
    with True Cons.prems assms(3,4) have ys: "path nx (nx c) ys" "a \<notin> set ys" "b \<notin> set ys" "c \<notin> set ys"
        and ne: "a \<noteq> b" "a \<noteq> c" "b \<noteq> c" by auto
    have upd: "nx' a = Some c" "nx' c = Some b" "nx' b = nx c" using ne by (auto simp: nx')
    have "path nx' (nx c) ys = path nx (nx c) ys"
      by (rule path_cong) (use ys in \<open>auto simp: nx'\<close>)
    with ys have "path nx' (nx c) ys" by simp
    moreover have "nx c \<noteq> Some b" "nx c \<noteq> Some c" using ys by (cases ys; auto)+
    ultimately show ?thesis using True xs Cons.prems(1) ne upd
      by (intro exI [of _ "a # c # b # ys"]) (auto simp: add_mset_commute)
  next
    case False
    have a: "a \<in> set xs" using Cons.prems False by simp
    have p: "p = Some x" "path nx (nx x) xs" using Cons.prems by auto
    from Cons.IH [OF p(2)] Cons.prems(2) a obtain bs where
      bs: "path nx' (nx x) bs" "mset bs = mset xs" "bs \<noteq> [] \<longrightarrow> hd bs = hd xs"
        "a \<noteq> b \<and> a \<noteq> c \<and> b \<noteq> c \<and> nx c \<noteq> Some b \<and> nx c \<noteq> Some c" by auto
    have after: "b \<in> set xs \<and> c \<in> set xs"
    proof -
      from a obtain us vs where "xs = us @ a # vs" by (auto simp: in_set_conv_decomp)
      moreover have "path nx q (us @ a # vs) \<Longrightarrow> path nx (nx a) vs" for q
        by (induction us arbitrary: q) auto
      ultimately have "path nx (Some b) vs" using p(2) assms(3) by metis
      then obtain ws where "vs = b # ws" "path nx (Some c) ws" using assms(4) by (cases vs) auto
      then obtain zs where "vs = b # c # zs" by (cases ws) auto
      with \<open>xs = us @ a # vs\<close> show ?thesis by simp
    qed
    then have "nx' x = nx x" using Cons.prems(2) False by (auto simp: nx')
    with bs p(1) show ?thesis by (intro exI [of _ "x # bs"]) auto
  qed
qed

lemma path_chain: "path (nxt h) p as \<Longrightarrow> set as \<subseteq> dom h \<Longrightarrow> chain s_next h p as"
  by (induction as arbitrary: p) (auto simp: nxt_def)

lemma chain_path: "chain s_next h p as \<Longrightarrow> path (nxt h) p as"
  by (induction as arbitrary: p) (auto simp: nxt_def)

text \<open>
  \<open>view h pcs nx\<close>: the \<open>next\<close> function once every swap in progress is complete. The nodes are
  always a list from the head in that view, and it holds the same nodes.
\<close>

definition view :: "'l snode heap \<Rightarrow> ('t \<Rightarrow> spc) \<Rightarrow> (addr \<Rightarrow> ptr) \<Rightarrow> bool" where
  "view h pcs nx \<longleftrightarrow>
     (\<forall>t a p. pending (pcs t) a = Some p \<longrightarrow> nx a = p) \<and>
     (\<forall>a. (\<forall>t. pending (pcs t) a = None) \<longrightarrow> nx a = nxt h a)"

definition list_ok :: "('l, 't) sthreads \<Rightarrow> bool" where
  "list_ok s \<longleftrightarrow> (\<exists>nx as. view (w_heap s) (w_pc s) nx \<and> path nx (w_first s) as \<and> distinct as \<and>
     set as = dom (w_heap s))"

definition locks_ok ::
  "('l \<Rightarrow> bool) \<Rightarrow> ('l \<Rightarrow> 't \<Rightarrow> bool) \<Rightarrow> ('l \<Rightarrow> 't \<Rightarrow> bool) \<Rightarrow> ('l, 't) sthreads \<Rightarrow> bool" where
  "locks_ok lock_ok held wheld s \<longleftrightarrow> (\<forall>a n. w_heap s a = Some n \<longrightarrow> lock_ok (s_lock n) \<and>
     (\<forall>t. (held (s_lock n) t \<longleftrightarrow> a \<in> locks_of (w_pc s t)) \<and>
          (a \<in> locks_of (w_pc s t) \<and> swapper (w_pc s t) \<longrightarrow> wheld (s_lock n) t)))"

definition nodes_ok :: "('l, 't) sthreads \<Rightarrow> bool" where
  "nodes_ok s \<longleftrightarrow> finite (dom (w_heap s)) \<and> ptr_ok (dom (w_heap s)) (w_first s) \<and>
     (\<forall>a \<in> dom (w_heap s). ptr_ok (dom (w_heap s)) (nxt (w_heap s) a) \<and> nxt (w_heap s) a \<noteq> Some a)"

definition storage_inv ::
  "('l \<Rightarrow> bool) \<Rightarrow> ('l \<Rightarrow> 't \<Rightarrow> bool) \<Rightarrow> ('l \<Rightarrow> 't \<Rightarrow> bool) \<Rightarrow> ('l, 't) sthreads \<Rightarrow> bool" where
  "storage_inv lock_ok held wheld s \<longleftrightarrow> list_ok s \<and> locks_ok lock_ok held wheld s \<and> nodes_ok s \<and>
     (\<forall>t. pc_ok (nxt (w_heap s)) (dom (w_heap s)) (w_first s) (w_pc s t))"

lemma path_no_pred:
  "path nx p as \<Longrightarrow> distinct as \<Longrightarrow> a \<in> set as \<Longrightarrow> nx a = Some c \<Longrightarrow> p \<noteq> Some c \<and> c \<in> set as"
proof (induction as arbitrary: p)
  case (Cons x xs)
  then have x: "p = Some x" "path nx (nx x) xs" "x \<notin> set xs" by auto
  show ?case
  proof (cases "a = x")
    case True
    with Cons.prems(4) x show ?thesis by (cases xs) auto
  next
    case False
    with Cons x show ?thesis by auto
  qed
qed simp

text \<open>What every step keeps: the head, the set of nodes, and their values.\<close>

definition same_nodes :: "('l, 't) sthreads \<Rightarrow> ('l, 't) sthreads \<Rightarrow> bool" where
  "same_nodes s s' \<longleftrightarrow> w_first s' = w_first s \<and>
     (\<lambda>a. map_option s_value (w_heap s' a)) = (\<lambda>a. map_option s_value (w_heap s a))"

lemma same_nodes_refl [simp]: "same_nodes s s"
  by (simp add: same_nodes_def)

lemma same_nodes_trans: "same_nodes s t \<Longrightarrow> same_nodes t u \<Longrightarrow> same_nodes s u"
  by (simp add: same_nodes_def)

lemma same_nodes_dom: "same_nodes s s' \<Longrightarrow> dom (w_heap s') = dom (w_heap s)"
proof -
  assume "same_nodes s s'"
  then have "w_heap s' a = None \<longleftrightarrow> w_heap s a = None" for a
    by (metis same_nodes_def map_option_is_None)
  then show ?thesis by (auto simp: dom_def)
qed

lemma next_of_in: "a \<in> dom (w_heap s) \<Longrightarrow> next_of s (Some a) = Inr (nxt (w_heap s) a)"
  by (auto simp: next_of_def nxt_def)

lemma goto_simps [simp]:
  "w_first (goto t pc s) = w_first s" "w_heap (goto t pc s) = w_heap s"
  "w_pc (goto t pc s) = (w_pc s)(t := pc)" "w_counter (goto t pc s) = w_counter s"
  "same_nodes s (goto t pc s)"
  by (simp_all add: goto_def same_nodes_def)

context node_lock
begin

abbreviation "sinv \<equiv> storage_inv lock_ok held wheld"

text \<open>A step is fine if it does not fault, keeps the invariant and the nodes.\<close>

definition fine :: "('l, 't) sthreads \<Rightarrow> fault + ('l, 't) sthreads \<Rightarrow> bool" where
  "fine s r \<longleftrightarrow> (\<exists>s'. r = Inr s' \<and> sinv s' \<and> same_nodes s s')"

lemma inv_pc: "sinv s \<Longrightarrow> pc_ok (nxt (w_heap s)) (dom (w_heap s)) (w_first s) (w_pc s t)"
  by (simp add: storage_inv_def)

lemma inv_dom: "sinv s \<Longrightarrow> a \<in> locks_of (w_pc s t) \<Longrightarrow> a \<in> dom (w_heap s)"
  using locks_in [OF inv_pc [of s t]] by blast

lemma inv_next: "sinv s \<Longrightarrow> a \<in> dom (w_heap s) \<Longrightarrow> ptr_ok (dom (w_heap s)) (nxt (w_heap s) a) \<and> nxt (w_heap s) a \<noteq> Some a"
  by (simp add: storage_inv_def nodes_ok_def)

lemma inv_first: "sinv s \<Longrightarrow> w_first s = Some a \<Longrightarrow> a \<in> dom (w_heap s)"
  by (simp add: storage_inv_def nodes_ok_def ptr_ok_def)

lemma alone:
  assumes "sinv s" and "a \<in> locks_of (w_pc s t)" and "swapper (w_pc s t)" and "u \<noteq> t"
  shows "a \<notin> locks_of (w_pc s u)"
proof
  assume "a \<in> locks_of (w_pc s u)"
  moreover obtain n where "w_heap s a = Some n" using inv_dom [OF assms(1,2)] by auto
  ultimately show False
    using assms exclusive [of "s_lock n" t u] by (auto simp: storage_inv_def locks_ok_def)
qed

text \<open>A step that leaves the \<open>next\<close> fields alone.\<close>

lemma inv_update:
  assumes inv: "sinv s"
    and h: "dom h = dom (w_heap s)" "nxt h = nxt (w_heap s)"
    and pc: "pending pc = pending (w_pc s t)" "pc_ok (nxt (w_heap s)) (dom (w_heap s)) (w_first s) pc"
    and s': "w_first s' = w_first s" "w_heap s' = h" "w_pc s' = (w_pc s)(t := pc)"
    and locks: "locks_ok lock_ok held wheld s'"
  shows "sinv s'"
proof -
  have "pending (w_pc s' u) = pending (w_pc s u)" for u using pc(1) s'(3) by simp
  then have "view (w_heap s') (w_pc s') = view (w_heap s) (w_pc s)"
    using s'(2) h(2) by (simp add: view_def [abs_def])
  then have "list_ok s'" using inv h s' by (simp add: storage_inv_def list_ok_def)
  moreover have "nodes_ok s'" using inv h s' by (simp add: storage_inv_def nodes_ok_def)
  moreover have "pc_ok (nxt (w_heap s')) (dom (w_heap s')) (w_first s') (w_pc s' u)" for u
    using inv_pc [OF inv, of u] pc(2) h s' by simp
  ultimately show ?thesis using locks by (simp add: storage_inv_def)
qed

lemma fine_goto:
  assumes inv: "sinv s"
    and pc: "pending pc = pending (w_pc s t)" "pc_ok (nxt (w_heap s)) (dom (w_heap s)) (w_first s) pc"
    and l: "locks_of pc = locks_of (w_pc s t)" "locks_of pc \<noteq> {} \<Longrightarrow> swapper pc \<Longrightarrow> swapper (w_pc s t)"
    and s': "w_first s' = w_first s" "w_heap s' = w_heap s" "w_pc s' = w_pc s"
  shows "fine s (Inr (goto t pc s'))"
proof -
  have lo: "locks_ok lock_ok held wheld s" using inv by (simp add: storage_inv_def)
  have "locks_ok lock_ok held wheld (goto t pc s')"
    unfolding locks_ok_def
  proof (intro allI impI)
    fix a n
    assume "w_heap (goto t pc s') a = Some n"
    then have "w_heap s a = Some n" using s' by simp
    with lo l s'(3) show "lock_ok (s_lock n) \<and>
        (\<forall>u. held (s_lock n) u = (a \<in> locks_of (w_pc (goto t pc s') u)) \<and>
          (a \<in> locks_of (w_pc (goto t pc s') u) \<and> swapper (w_pc (goto t pc s') u) \<longrightarrow> wheld (s_lock n) u))"
      unfolding locks_ok_def by (auto split: if_splits)
  qed
  then have "sinv (goto t pc s')"
    by (intro inv_update [OF inv refl refl pc]) (use s' in simp_all)
  then show ?thesis using s' by (simp add: fine_def same_nodes_def)
qed

text \<open>Taking and releasing the lock of one node.\<close>

lemma set_lock_heap:
  assumes "h a = Some n"
  shows "dom (h(a \<mapsto> n\<lparr>s_lock := l\<rparr>)) = dom h" "nxt (h(a \<mapsto> n\<lparr>s_lock := l\<rparr>)) = nxt h"
    "(\<lambda>x. map_option s_value ((h(a \<mapsto> n\<lparr>s_lock := l\<rparr>)) x)) = (\<lambda>x. map_option s_value (h x))"
  using assms by (auto simp: nxt_def fun_eq_iff)

lemma fine_lock:
  assumes inv: "sinv s" and n: "w_heap s a = Some n"
    and pc: "pending pc = pending (w_pc s t)" "pc_ok (nxt (w_heap s)) (dom (w_heap s)) (w_first s) pc"
    and l: "lock_ok l" "\<And>u. held l u \<longleftrightarrow> a \<in> locks_of (if u = t then pc else w_pc s u)"
      "\<And>u. a \<in> locks_of (if u = t then pc else w_pc s u) \<Longrightarrow> swapper (if u = t then pc else w_pc s u) \<Longrightarrow> wheld l u"
    and others: "locks_of pc - {a} = locks_of (w_pc s t) - {a}"
      "locks_of pc - {a} \<noteq> {} \<Longrightarrow> swapper pc \<Longrightarrow> swapper (w_pc s t)"
  shows "fine s (Inr (goto t pc (s\<lparr>w_heap := (w_heap s)(a \<mapsto> n\<lparr>s_lock := l\<rparr>)\<rparr>)))" (is "fine s (Inr ?s')")
proof -
  have lo: "locks_ok lock_ok held wheld s" using inv by (simp add: storage_inv_def)
  have "locks_ok lock_ok held wheld ?s'"
    unfolding locks_ok_def
  proof (intro allI impI)
    fix b m
    assume m: "w_heap ?s' b = Some m"
    show "lock_ok (s_lock m) \<and> (\<forall>u. held (s_lock m) u = (b \<in> locks_of (w_pc ?s' u)) \<and>
        (b \<in> locks_of (w_pc ?s' u) \<and> swapper (w_pc ?s' u) \<longrightarrow> wheld (s_lock m) u))"
    proof (cases "b = a")
      case True
      with m l show ?thesis by (auto split: if_splits)
    next
      case False
      with m have "w_heap s b = Some m" by simp
      moreover have "b \<in> locks_of pc \<longleftrightarrow> b \<in> locks_of (w_pc s t)" using others(1) False by blast
      moreover have "b \<in> locks_of pc \<Longrightarrow> swapper pc \<Longrightarrow> swapper (w_pc s t)" using others(2) False by blast
      ultimately show ?thesis using lo unfolding locks_ok_def by auto
    qed
  qed
  note heap = set_lock_heap [where h = "w_heap s" and l = l, OF n]
  from \<open>locks_ok lock_ok held wheld ?s'\<close> have "sinv ?s'"
    by (intro inv_update [OF inv heap(1,2) pc]) simp_all
  moreover have "same_nodes s ?s'" using heap(3) by (simp add: same_nodes_def goto_def)
  ultimately show ?thesis by (simp add: fine_def)
qed

end

context node_lock
begin

lemma inv_locks:
  "sinv s \<Longrightarrow> w_heap s a = Some n \<Longrightarrow> lock_ok (s_lock n) \<and>
     (held (s_lock n) t \<longleftrightarrow> a \<in> locks_of (w_pc s t)) \<and>
     (a \<in> locks_of (w_pc s t) \<longrightarrow> swapper (w_pc s t) \<longrightarrow> wheld (s_lock n) t)"
  by (simp add: storage_inv_def locks_ok_def)

lemma fine_try_write:
  assumes inv: "sinv s" and a: "a \<in> dom (w_heap s)" and sw: "swapper (w_pc s t)"
    and yes: "pending yes = pending (w_pc s t)" "pc_ok (nxt (w_heap s)) (dom (w_heap s)) (w_first s) yes"
      "locks_of yes = insert a (locks_of (w_pc s t))"
    and no: "pending no = pending (w_pc s t)" "pc_ok (nxt (w_heap s)) (dom (w_heap s)) (w_first s) no"
      "locks_of no = locks_of (w_pc s t)"
  shows "fine s (try_lock (k_try_write K) t (Some a) yes no s)"
proof -
  from a obtain n where n: "w_heap s a = Some n" by auto
  show ?thesis
  proof (cases "k_try_write K (s_lock n) t")
    case None
    with n fine_goto [OF inv no(1,2,3)] sw show ?thesis by (simp add: try_lock_def)
  next
    case (Some l)
    have ok: "lock_ok (s_lock n)" using inv_locks [OF inv n] by blast
    from try_write [OF ok Some] have l: "lock_ok l" "\<And>u. \<not> held (s_lock n) u" "wheld l t"
        "\<And>u. held l u \<longleftrightarrow> u = t" by blast+
    have "a \<notin> locks_of (w_pc s u)" for u using inv_locks [OF inv n, of u] l(2) by blast
    then have "fine s (Inr (goto t yes (s\<lparr>w_heap := (w_heap s)(a \<mapsto> n\<lparr>s_lock := l\<rparr>)\<rparr>)))"
      by (intro fine_lock [OF inv n yes(1,2) l(1)]) (use l yes(3) sw in \<open>auto split: if_splits\<close>)
    with n Some show ?thesis by (simp add: try_lock_def)
  qed
qed

lemma fine_try_read:
  assumes inv: "sinv s" and a: "a \<in> dom (w_heap s)" "a \<notin> locks_of (w_pc s t)" and sw: "\<not> swapper yes" "\<not> swapper no"
    and yes: "pending yes = pending (w_pc s t)" "pc_ok (nxt (w_heap s)) (dom (w_heap s)) (w_first s) yes"
      "locks_of yes = insert a (locks_of (w_pc s t))"
    and no: "pending no = pending (w_pc s t)" "pc_ok (nxt (w_heap s)) (dom (w_heap s)) (w_first s) no"
      "locks_of no = locks_of (w_pc s t)"
  shows "fine s (try_lock (k_try_read K) t (Some a) yes no s)"
proof -
  from a obtain n where n: "w_heap s a = Some n" by auto
  show ?thesis
  proof (cases "k_try_read K (s_lock n) t")
    case None
    with n fine_goto [OF inv no(1,2,3)] sw show ?thesis by (simp add: try_lock_def)
  next
    case (Some l)
    have ok: "lock_ok (s_lock n)" and nh: "\<not> held (s_lock n) t" using inv_locks [OF inv n] a(2) by blast+
    from try_read [OF ok nh Some] have l: "lock_ok l" "held l t"
        "\<And>u. u \<noteq> t \<Longrightarrow> held l u = held (s_lock n) u \<and> wheld l u = wheld (s_lock n) u" by blast+
    then have "fine s (Inr (goto t yes (s\<lparr>w_heap := (w_heap s)(a \<mapsto> n\<lparr>s_lock := l\<rparr>)\<rparr>)))"
      by (intro fine_lock [OF inv n yes(1,2) l(1)]) (use l yes(3) sw inv_locks [OF inv n] in \<open>auto split: if_splits\<close>)
    with n Some show ?thesis by (simp add: try_lock_def)
  qed
qed

lemma fine_unlock:
  assumes inv: "sinv s" and a: "a \<in> locks_of (w_pc s t)"
    and pc: "pending pc = pending (w_pc s t)" "pc_ok (nxt (w_heap s)) (dom (w_heap s)) (w_first s) pc"
      "locks_of pc = locks_of (w_pc s t) - {a}" "swapper pc = swapper (w_pc s t)"
  shows "fine s (un_lock K t (Some a) pc s)"
proof -
  from inv_dom [OF inv a] obtain n where n: "w_heap s a = Some n" by auto
  have ok: "lock_ok (s_lock n)" and h: "held (s_lock n) t" using inv_locks [OF inv n] a by blast+
  from unlock [OF ok h] obtain l where l: "k_unlock K (s_lock n) t = Some l" "lock_ok l" "\<not> held l t"
      "\<And>u. u \<noteq> t \<Longrightarrow> held l u = held (s_lock n) u \<and> wheld l u = wheld (s_lock n) u" by blast
  then have "fine s (Inr (goto t pc (s\<lparr>w_heap := (w_heap s)(a \<mapsto> n\<lparr>s_lock := l\<rparr>)\<rparr>)))"
    by (intro fine_lock [OF inv n pc(1,2) l(2)]) (use l pc(3,4) inv_locks [OF inv n] in \<open>auto split: if_splits\<close>)
  with n l(1) show ?thesis by (simp add: un_lock_def)
qed

text \<open>The store to the \<open>next\<close> field of a node whose lock the thread holds.\<close>

lemma set_next_heap:
  assumes "h a = Some n"
  shows "dom (h(a \<mapsto> n\<lparr>s_next := p\<rparr>)) = dom h" "nxt (h(a \<mapsto> n\<lparr>s_next := p\<rparr>)) = (nxt h)(a := p)"
    "(\<lambda>x. map_option s_value ((h(a \<mapsto> n\<lparr>s_next := p\<rparr>)) x)) = (\<lambda>x. map_option s_value (h x))"
  using assms by (auto simp: nxt_def fun_eq_iff)

lemma fine_store:
  assumes inv: "sinv s" and a: "a \<in> locks_of (w_pc s t)" and sw: "swapper (w_pc s t)" "swapper pc"
    and p: "ptr_ok (dom (w_heap s)) p" "p \<noteq> Some a"
    and pc: "pc_ok ((nxt (w_heap s))(a := p)) (dom (w_heap s)) (w_first s) pc" "locks_of pc = locks_of (w_pc s t)"
    and view: "\<exists>nx as. (\<forall>u b q. pending (if u = t then pc else w_pc s u) b = Some q \<longrightarrow> nx b = q) \<and>
        (\<forall>b. (\<forall>u. pending (if u = t then pc else w_pc s u) b = None) \<longrightarrow> nx b = ((nxt (w_heap s))(a := p)) b) \<and>
        path nx (w_first s) as \<and> distinct as \<and> set as = dom (w_heap s)"
  shows "fine s (bindr (set_next a p s) (\<lambda>s. Inr (goto t pc s)))"
proof -
  from inv_dom [OF inv a] obtain n where n: "w_heap s a = Some n" by auto
  let ?h = "(w_heap s)(a \<mapsto> n\<lparr>s_next := p\<rparr>)"
  let ?s = "goto t pc (s\<lparr>w_heap := ?h\<rparr>)"
  note heap = set_next_heap [where h = "w_heap s" and p = p, OF n]
  have hd: "dom (w_heap ?s) = dom (w_heap s)" and hn: "nxt (w_heap ?s) = (nxt (w_heap s))(a := p)"
      and hf: "w_first ?s = w_first s"
    using heap(1,2) by (simp_all del: dom_fun_upd)
  have pcs: "w_pc ?s = (\<lambda>u. if u = t then pc else w_pc s u)" by (auto simp: goto_def)
  have "list_ok ?s"
    using view unfolding list_ok_def view_def pcs hd hn hf by blast
  moreover have "nodes_ok ?s"
    using inv p unfolding storage_inv_def nodes_ok_def hd hn hf by simp
  moreover have "locks_ok lock_ok held wheld ?s"
    unfolding locks_ok_def
  proof (intro allI impI)
    fix b m
    assume "w_heap ?s b = Some m"
    then obtain m' where m': "w_heap s b = Some m'" "s_lock m = s_lock m'" using n by (auto split: if_splits)
    with inv_locks [OF inv m'(1)] pc(2) sw show "lock_ok (s_lock m) \<and>
        (\<forall>u. held (s_lock m) u = (b \<in> locks_of (w_pc ?s u)) \<and>
          (b \<in> locks_of (w_pc ?s u) \<and> swapper (w_pc ?s u) \<longrightarrow> wheld (s_lock m) u))"
      by auto
  qed
  moreover have "pc_ok (nxt (w_heap ?s)) (dom (w_heap ?s)) (w_first ?s) (w_pc ?s u)" for u
  proof (cases "u = t")
    case True
    with pc(1) show ?thesis unfolding hd hn hf by simp
  next
    case False
    then have "a \<notin> locks_of (w_pc s u)" using alone [OF inv a sw(1)] by blast
    then have "pc_ok ((nxt (w_heap s))(a := p)) (dom (w_heap s)) (w_first s) (w_pc s u)"
      using inv_pc [OF inv, of u]
        pc_ok_cong [of "w_pc s u" "nxt (w_heap s)" "(nxt (w_heap s))(a := p)" "dom (w_heap s)" "w_first s"]
      by force
    with False show ?thesis unfolding hd hn hf by simp
  qed
  ultimately have "sinv ?s" by (simp add: storage_inv_def)
  moreover have "same_nodes s ?s" using heap(3) by (simp add: same_nodes_def goto_def)
  ultimately show ?thesis using n by (simp add: fine_def set_next_def)
qed

end

context node_lock
begin

lemma inv_view:
  assumes "sinv s"
  obtains nx as where "view (w_heap s) (w_pc s) nx" "path nx (w_first s) as" "distinct as"
    "set as = dom (w_heap s)"
  using assms by (auto simp: storage_inv_def list_ok_def)

lemma others_quiet:
  assumes "sinv s" and "x \<in> locks_of (w_pc s t)" and "swapper (w_pc s t)" and "u \<noteq> t"
  shows "pending (w_pc s u) x = None"
  using alone [OF assms] pending_locked [of "w_pc s u" x] by (cases "pending (w_pc s u) x") auto

lemma view_own:
  assumes inv: "sinv s" and v: "view (w_heap s) (w_pc s) nx" and x: "x \<in> locks_of (w_pc s t)"
    and sw: "swapper (w_pc s t)" and p: "pending (w_pc s t) x = None"
  shows "nx x = nxt (w_heap s) x"
proof -
  have "pending (w_pc s u) x = None" for u using others_quiet [OF inv x sw, of u] p by (cases "u = t") auto
  with v show ?thesis by (simp add: view_def)
qed

lemma fine_st1:
  assumes inv: "sinv s" and pc: "w_pc s t = S_st1 a b c"
  shows "fine s (swap_step K r t (S_st1 a b c) s)"
proof -
  let ?h = "nxt (w_heap s)"
  obtain nx as where v: "view (w_heap s) (w_pc s) nx" "path nx (w_first s) as" "distinct as"
      "set as = dom (w_heap s)" using inv by (rule inv_view)
  from inv_pc [OF inv, of t] pc have ok: "{a, b, c} \<subseteq> dom (w_heap s)" "distinct [a, b, c]"
      "?h a = Some b" "?h b = Some c" by auto
  have own: "nx x = ?h x" if "x \<in> {a, b, c}" for x
    using view_own [OF inv v(1), of x t] pc that by simp
  define nx' where "nx' = nx(b := nx c, c := Some b, a := Some c)"
  have "nx a = Some b" "nx b = Some c" "a \<in> set as" using own ok v(4) by auto
  from path_swap [OF v(2,3) this nx'_def] obtain bs where bs: "path nx' (w_first s) bs" "mset bs = mset as"
      and c: "nx c \<noteq> Some b" by blast
  have d: "distinct bs" "set bs = dom (w_heap s)"
    using bs(2) v(3,4) mset_eq_imp_distinct_iff mset_eq_setD by blast+
  have quiet: "pending (w_pc s u) x = None" if "x \<in> {a, b, c}" "u \<noteq> t" for x u
    using others_quiet [OF inv, of x t u] that pc by simp
  have "fine s (bindr (set_next b (?h c) s) (\<lambda>s. Inr (goto t (S_st2 a b c) s)))"
  proof (rule fine_store [OF inv])
    show "\<exists>nx as. (\<forall>u x q. pending (if u = t then S_st2 a b c else w_pc s u) x = Some q \<longrightarrow> nx x = q) \<and>
        (\<forall>x. (\<forall>u. pending (if u = t then S_st2 a b c else w_pc s u) x = None) \<longrightarrow> nx x = (?h(b := ?h c)) x) \<and>
        path nx (w_first s) as \<and> distinct as \<and> set as = dom (w_heap s)"
    proof (intro exI [of _ nx'] exI [of _ bs] conjI allI impI)
      fix u x q
      assume q: "pending (if u = t then S_st2 a b c else w_pc s u) x = Some q"
      show "nx' x = q"
      proof (cases "u = t")
        case True
        with q ok show ?thesis by (auto simp: nx'_def split: if_splits)
      next
        case False
        with q quiet [of x u] have "x \<notin> {a, b, c}" "pending (w_pc s u) x = Some q" by auto
        with v(1) show ?thesis by (auto simp: view_def nx'_def)
      qed
    next
      fix x
      assume q: "\<forall>u. pending (if u = t then S_st2 a b c else w_pc s u) x = None"
      then have "pending (S_st2 a b c) x = None" by (metis (full_types))
      then have xac: "x \<noteq> a" "x \<noteq> c" by (auto split: if_splits)
      show "nx' x = (?h(b := ?h c)) x"
      proof (cases "x = b")
        case True
        with xac own show ?thesis by (simp add: nx'_def)
      next
        case False
        have "pending (w_pc s u) x = None" for u using q [rule_format, of u] pc by (cases "u = t") auto
        with v(1) False xac show ?thesis by (simp add: nx'_def view_def)
      qed
    qed (use bs d in simp_all)
  qed (use pc ok own c inv_next [OF inv, of c] in auto)
  with ok show ?thesis by (simp add: next_of_in)
qed

text \<open>The second and third store make the heap catch up with the view.\<close>

lemma fine_catch_up:
  assumes inv: "sinv s" and x: "pending (w_pc s t) x = Some p" and rest: "pending pc = (pending (w_pc s t))(x := None)"
    and pc: "pc_ok ((nxt (w_heap s))(x := p)) (dom (w_heap s)) (w_first s) pc" "locks_of pc = locks_of (w_pc s t)"
      "swapper pc" and p: "ptr_ok (dom (w_heap s)) p" "p \<noteq> Some x"
  shows "fine s (bindr (set_next x p s) (\<lambda>s. Inr (goto t pc s)))"
proof -
  obtain nx as where v: "view (w_heap s) (w_pc s) nx" "path nx (w_first s) as" "distinct as"
      "set as = dom (w_heap s)" using inv by (rule inv_view)
  have l: "x \<in> locks_of (w_pc s t)" "swapper (w_pc s t)" using pending_locked [OF x] by simp_all
  have nx: "nx x = p" using v(1) x by (simp add: view_def)
  show ?thesis
  proof (rule fine_store [OF inv l(1,2) pc(3) p pc(1,2)],
      intro exI [of _ nx] exI [of _ as] conjI allI impI)
    fix u y q
    assume "pending (if u = t then pc else w_pc s u) y = Some q"
    then have "pending (w_pc s u) y = Some q" using rest by (auto split: if_splits)
    with v(1) show "nx y = q" by (simp add: view_def)
  next
    fix y
    assume q: "\<forall>u. pending (if u = t then pc else w_pc s u) y = None"
    show "nx y = ((nxt (w_heap s))(x := p)) y"
    proof (cases "y = x")
      case True
      with nx show ?thesis by simp
    next
      case False
      have "pending (w_pc s u) y = None" for u
        using q [rule_format, of u] rest False by (cases "u = t") auto
      with v(1) False show ?thesis by (simp add: view_def)
    qed
  qed (use v in simp_all)
qed

lemma fine_st2:
  assumes inv: "sinv s" and pc: "w_pc s t = S_st2 a b c"
  shows "fine s (swap_step K r t (S_st2 a b c) s)"
proof -
  from inv_pc [OF inv, of t] pc have ok: "{a, b, c} \<subseteq> dom (w_heap s)" "distinct [a, b, c]"
      "nxt (w_heap s) a = Some b" by auto
  have "fine s (bindr (set_next c (Some b) s) (\<lambda>s. Inr (goto t (S_st3 a b c) s)))"
    by (rule fine_catch_up [OF inv]) (use pc ok in \<open>auto simp: ptr_ok_def\<close>)
  then show ?thesis by simp
qed

lemma fine_st3:
  assumes inv: "sinv s" and pc: "w_pc s t = S_st3 a b c"
  shows "fine s (swap_step K r t (S_st3 a b c) s)"
proof -
  from inv_pc [OF inv, of t] pc have ok: "{a, b, c} \<subseteq> dom (w_heap s)" "distinct [a, b, c]"
      "nxt (w_heap s) c = Some b" by auto
  have "fine s (bindr (set_next a (Some c) s) (\<lambda>s. Inr (goto t (S_count a b c) s)))"
    by (rule fine_catch_up [OF inv]) (use pc ok in \<open>auto simp: ptr_ok_def\<close>)
  then show ?thesis by simp
qed

text \<open>The head always has a successor when there is more than one node.\<close>

lemma head_next:
  assumes inv: "sinv s" and f: "w_first s = Some a" and n: "1 < card (dom (w_heap s))"
  shows "nxt (w_heap s) a \<noteq> None"
proof -
  obtain nx as where v: "view (w_heap s) (w_pc s) nx" "path nx (w_first s) as" "distinct as"
      "set as = dom (w_heap s)" using inv by (rule inv_view)
  then have "1 < length as" using n distinct_card [of as] by simp
  with v(2) f obtain x xs where "as = a # x # xs" "nx a = Some x"
    by (cases as; cases "tl as") auto
  show ?thesis
  proof (cases "\<forall>u. pending (w_pc s u) a = None")
    case True
    with v(1) \<open>nx a = Some x\<close> show ?thesis by (simp add: view_def)
  next
    case False
    then obtain u q where q: "pending (w_pc s u) a = Some q" by auto
    from pending_locked [OF q] have l: "swapper (w_pc s u)" by simp
    note ok = inv_pc [OF inv, of u]
    show ?thesis
    proof (cases "w_pc s u")
      case (S_st2 x y z)
      have "x \<in> set as" using ok S_st2 v(4) by simp
      moreover have "pending (w_pc s u) x = Some (Some z)" using S_st2 by simp
      then have "nx x = Some z" using v(1) unfolding view_def by blast
      ultimately have "a \<noteq> z" using path_no_pred [OF v(2,3), of x z] f by auto
      with q S_st2 ok show ?thesis by (auto split: if_splits)
    next
      case (S_st3 x y z)
      with q ok show ?thesis by (auto split: if_splits)
    qed (use q in auto)
  qed
qed

end

context node_lock
begin

text \<open>What a step may do: be fine, or fail on the thread's counter.\<close>

definition counted :: "('l, 't) sthreads \<Rightarrow> fault + ('l, 't) sthreads \<Rightarrow> bool" where
  "counted s r \<longleftrightarrow> fine s r \<or> r = Inl SignedOverflow \<or> r = Inl NullDeref \<and> w_counter s = None"

lemma fine_counted: "fine s r \<Longrightarrow> counted s r"
  by (simp add: counted_def)

lemma fine_move:
  "sinv s \<Longrightarrow> pending pc = pending (w_pc s t) \<Longrightarrow> pc_ok (nxt (w_heap s)) (dom (w_heap s)) (w_first s) pc \<Longrightarrow>
   locks_of pc = locks_of (w_pc s t) \<Longrightarrow> (locks_of pc \<noteq> {} \<Longrightarrow> swapper pc \<Longrightarrow> swapper (w_pc s t)) \<Longrightarrow>
   fine s (Inr (goto t pc s))"
  by (rule fine_goto) simp_all

lemma counted_incr:
  assumes "sinv s" and "pending pc = pending (w_pc s t)"
    and "pc_ok (nxt (w_heap s)) (dom (w_heap s)) (w_first s) pc"
    and "locks_of pc = locks_of (w_pc s t)" and "locks_of pc \<noteq> {} \<Longrightarrow> swapper pc \<Longrightarrow> swapper (w_pc s t)"
  shows "counted s (incr_counter t pc s)"
proof (cases "w_counter s")
  case None
  then show ?thesis by (simp add: incr_counter_def counted_def)
next
  case (Some c)
  show ?thesis
  proof (cases "c_int (c t + 1)")
    case (Inl e)
    then have "e = SignedOverflow" by (simp add: c_int_def split: if_splits)
    with Some Inl show ?thesis by (simp add: incr_counter_def counted_def)
  next
    case (Inr x)
    have "fine s (Inr (goto t pc (s\<lparr>w_counter := Some (c(t := x))\<rparr>)))"
      by (rule fine_goto [OF assms]) simp_all
    with Some Inr show ?thesis by (simp add: incr_counter_def counted_def)
  qed
qed

lemma next_cases:
  assumes "sinv s" and "a \<in> dom (w_heap s)"
  obtains "nxt (w_heap s) a = None" | b where "nxt (w_heap s) a = Some b" "b \<in> dom (w_heap s)" "b \<noteq> a"
  using inv_next [OF assms] by (cases "nxt (w_heap s) a") (auto simp: ptr_ok_def)

lemma process_counted:
  assumes inv: "sinv s" and pc: "\<not> swapper (w_pc s t)"
  shows "counted s (process_step K ca t (w_pc s t) s)"
proof (cases "w_pc s t")
  case P_check
  have "fine s (process_step K ca t P_check s)"
    by (cases "w_first s") (use inv P_check inv_first [OF inv] in \<open>auto simp: next_of_in intro!: fine_move\<close>)
  with P_check show ?thesis by (simp add: fine_counted)
next
  case P_outer
  have "fine s (process_step K ca t P_outer s)"
    by (cases "w_first s") (use inv P_outer inv_first [OF inv] in \<open>auto simp: next_of_in ptr_ok_def intro!: fine_move\<close>)
  with P_outer show ?thesis by (simp add: fine_counted)
next
  case (P_loop p)
  note ok = inv_pc [OF inv, of t, unfolded P_loop]
  have "fine s (process_step K ca t (P_loop p) s)"
    by (cases p) (use inv P_loop ok in \<open>auto simp: ptr_ok_def intro!: fine_move fine_try_read\<close>)
  with P_loop show ?thesis by (simp add: fine_counted)
next
  case (P_skip a)
  note ok = inv_pc [OF inv, of t, unfolded P_skip]
  have "fine s (process_step K ca t (P_skip a) s)"
    using inv P_skip ok inv_next [OF inv, of a] by (auto simp: next_of_in intro!: fine_move)
  with P_skip show ?thesis by (simp add: fine_counted)
next
  case (P_next1 a)
  note ok = inv_pc [OF inv, of t, unfolded P_next1]
  have "fine s (process_step K ca t (P_next1 a) s)"
    using inv P_next1 ok by (auto simp: next_of_in intro!: fine_move)
  with P_next1 show ?thesis by (simp add: fine_counted)
next
  case (P_try2 a)
  note ok = inv_pc [OF inv, of t, unfolded P_try2]
  then have a: "a \<in> dom (w_heap s)" by simp
  have "fine s (process_step K ca t (P_try2 a) s)"
    using a by (rule next_cases [OF inv]) (use inv P_try2 ok in \<open>auto simp: next_of_in intro!: fine_try_read\<close>)
  with P_try2 show ?thesis by (simp add: fine_counted)
next
  case (P_cmp a b)
  note ok = inv_pc [OF inv, of t, unfolded P_cmp]
  then obtain n m where "w_heap s a = Some n" "w_heap s b = Some m" by auto
  with ok have "process_step K ca t (P_cmp a b) s =
      Inr (goto t (P_adv a b) (s\<lparr>w_pairs := (w_pairs s)(t := compare_nodes (s_value n) (s_value m) (ca t))\<rparr>))"
    by (simp add: next_of_def nxt_def)
  moreover have "fine s (Inr (goto t (P_adv a b) (s\<lparr>w_pairs := (w_pairs s)(t := compare_nodes (s_value n) (s_value m) (ca t))\<rparr>)))"
    by (rule fine_goto [OF inv]) (use P_cmp ok in auto)
  ultimately show ?thesis using P_cmp by (simp add: fine_counted)
next
  case (P_adv a b)
  note ok = inv_pc [OF inv, of t, unfolded P_adv]
  have "fine s (process_step K ca t (P_adv a b) s)"
    using inv P_adv ok by (auto simp: next_of_in intro!: fine_move)
  with P_adv show ?thesis by (simp add: fine_counted)
next
  case (P_unl1 a p)
  note ok = inv_pc [OF inv, of t, unfolded P_unl1]
  have "fine s (process_step K ca t (P_unl1 a p) s)"
    using inv P_unl1 ok by (auto intro!: fine_unlock)
  with P_unl1 show ?thesis by (simp add: fine_counted)
next
  case (P_unl2 p)
  note ok = inv_pc [OF inv, of t, unfolded P_unl2]
  have "fine s (process_step K ca t (P_unl2 p) s)"
    using inv P_unl2 ok by (auto simp: ptr_ok_def intro!: fine_unlock)
  with P_unl2 show ?thesis by (simp add: fine_counted)
next
  case (P_else a)
  note ok = inv_pc [OF inv, of t, unfolded P_else]
  have "fine s (process_step K ca t (P_else a) s)"
    using inv P_else ok inv_next [OF inv, of a] by (auto simp: next_of_in intro!: fine_move)
  with P_else show ?thesis by (simp add: fine_counted)
next
  case (P_unl a p)
  note ok = inv_pc [OF inv, of t, unfolded P_unl]
  have "fine s (process_step K ca t (P_unl a p) s)"
    using inv P_unl ok by (auto intro!: fine_unlock)
  with P_unl show ?thesis by (simp add: fine_counted)
next
  case P_count
  have "counted s (incr_counter t P_outer s)" by (rule counted_incr [OF inv]) (use P_count in auto)
  with P_count show ?thesis by simp
qed (use pc in auto)

end

context node_lock
begin

lemma head_cases:
  assumes inv: "sinv s" and f: "w_first s = Some a"
  obtains "nxt (w_heap s) a = None"
    | b where "nxt (w_heap s) a = Some b" "b \<in> dom (w_heap s)" "1 < card (dom (w_heap s))"
proof (rule next_cases [OF inv inv_first [OF inv f]])
  fix b
  assume b: "nxt (w_heap s) a = Some b" "b \<in> dom (w_heap s)" "b \<noteq> a"
  have "finite (dom (w_heap s))" using inv by (simp add: storage_inv_def nodes_ok_def)
  with b inv_first [OF inv f] have "card {a, b} \<le> card (dom (w_heap s))" by (intro card_mono) auto
  with b that show thesis by simp
qed (use that in blast)

lemma swap_counted:
  assumes inv: "sinv s" and pc: "swapper (w_pc s t)" and w: "w_pc s t \<noteq> S_walk None"
  shows "counted s (swap_step K r t (w_pc s t) s)"
proof (cases "w_pc s t")
  case S_outer
  have "fine s (swap_step K r t S_outer s)"
  proof (cases "w_first s")
    case None
    with inv S_outer show ?thesis by (auto intro!: fine_move)
  next
    case (Some a)
    from Some show ?thesis
      by (rule head_cases [OF inv]) (use inv S_outer Some inv_first [OF inv] in \<open>auto simp: next_of_in intro!: fine_move\<close>)
  qed
  with S_outer show ?thesis by (simp add: fine_counted)
next
  case (S_outer2 a)
  note ok = inv_pc [OF inv, of t, unfolded S_outer2]
  then have f: "w_first s = Some a" "nxt (w_heap s) a \<noteq> None" using head_next [OF inv] by auto
  have "fine s (swap_step K r t (S_outer2 a) s)"
    using f(1) by (rule head_cases [OF inv]) (use inv S_outer2 f inv_first [OF inv] in \<open>auto simp: next_of_in intro!: fine_move\<close>)
  with S_outer2 show ?thesis by (simp add: fine_counted)
next
  case (S_outer3 a p)
  note ok = inv_pc [OF inv, of t, unfolded S_outer3]
  then obtain b where b: "p = Some b" "b \<in> dom (w_heap s)" by auto
  have "fine s (swap_step K r t (S_outer3 a p) s)"
    using inv S_outer3 ok next_of_in [OF b(2)] b(1) by (auto intro!: fine_move)
  with S_outer3 show ?thesis by (simp add: fine_counted)
next
  case (S_walk p)
  note ok = inv_pc [OF inv, of t, unfolded S_walk]
  with w S_walk obtain a where a: "p = Some a" "a \<in> dom (w_heap s)" by (cases p) (auto simp: ptr_ok_def)
  have "fine s (swap_step K r t (S_walk p) s)"
    using inv S_walk a by (auto simp: next_of_in intro!: fine_move split: option.splits)
  with S_walk show ?thesis by (simp add: fine_counted)
next
  case (S_loop p)
  note ok = inv_pc [OF inv, of t, unfolded S_loop]
  have "fine s (swap_step K r t (S_loop p) s)"
    by (cases p) (use inv S_loop ok in \<open>auto simp: ptr_ok_def intro!: fine_move fine_try_write\<close>)
  with S_loop show ?thesis by (simp add: fine_counted)
next
  case (S_try3 a b)
  note ok = inv_pc [OF inv, of t, unfolded S_try3]
  then obtain c where c: "nxt (w_heap s) b = Some c" "c \<in> dom (w_heap s)" "c \<noteq> b" and b: "b \<in> dom (w_heap s)"
    using inv_next [OF inv, of b] by (auto simp: ptr_ok_def)
  have "c \<noteq> a"
  proof
    assume "c = a"
    obtain nx as where v: "view (w_heap s) (w_pc s) nx" "path nx (w_first s) as" "distinct as"
        "set as = dom (w_heap s)" using inv by (rule inv_view)
    have "nx a = Some b" "nx b = Some a"
      using view_own [OF inv v(1), of _ t] S_try3 ok c(1) \<open>c = a\<close> by auto
    then show False using path_swap [OF v(2,3), of a b a] ok v(4) by auto
  qed
  have "fine s (swap_step K r t (S_try3 a b) s)"
    using inv S_try3 ok c b \<open>c \<noteq> a\<close> by (auto simp: next_of_in intro!: fine_try_write)
  with S_try3 show ?thesis by (simp add: fine_counted)
next
  case (S_st1 a b c)
  then show ?thesis using fine_st1 [OF inv S_st1] by (simp only: fine_counted)
next
  case (S_st2 a b c)
  then show ?thesis using fine_st2 [OF inv S_st2] by (simp only: fine_counted)
next
  case (S_st3 a b c)
  then show ?thesis using fine_st3 [OF inv S_st3] by (simp only: fine_counted)
next
  case (S_count a b c)
  note ok = inv_pc [OF inv, of t, unfolded S_count]
  have "counted s (incr_counter t (S_adv a b c) s)" by (rule counted_incr [OF inv]) (use S_count ok in auto)
  with S_count show ?thesis by simp
next
  case S_done
  with inv show ?thesis by (simp add: counted_def fine_def)
next
  case (S_skip a)
  note ok = inv_pc [OF inv, of t, unfolded S_skip]
  have "fine s (swap_step K r t (S_skip a) s)"
    using inv S_skip ok inv_next [OF inv, of a] by (auto simp: next_of_in intro!: fine_move)
  with S_skip show ?thesis by (simp add: fine_counted)
next
  case (S_next1 a)
  note ok = inv_pc [OF inv, of t, unfolded S_next1]
  have "fine s (swap_step K r t (S_next1 a) s)"
    using inv S_next1 ok by (auto simp: next_of_in intro!: fine_move)
  with S_next1 show ?thesis by (simp add: fine_counted)
next
  case (S_try2 a)
  note ok = inv_pc [OF inv, of t, unfolded S_try2]
  then have a: "a \<in> dom (w_heap s)" by simp
  have "fine s (swap_step K r t (S_try2 a) s)"
    using a by (rule next_cases [OF inv]) (use inv S_try2 ok in \<open>auto simp: next_of_in intro!: fine_try_write\<close>)
  with S_try2 show ?thesis by (simp add: fine_counted)
next
  case (S_next2 a b)
  note ok = inv_pc [OF inv, of t, unfolded S_next2]
  have "fine s (swap_step K r t (S_next2 a b) s)"
    using inv S_next2 ok by (auto simp: next_of_in intro!: fine_move)
  with S_next2 show ?thesis by (simp add: fine_counted)
next
  case (S_u1 a p q)
  note ok = inv_pc [OF inv, of t, unfolded S_u1]
  have "fine s (swap_step K r t (S_u1 a p q) s)"
    using inv S_u1 ok by (auto intro!: fine_unlock)
  with S_u1 show ?thesis by (simp add: fine_counted)
next
  case (S_u2 p q)
  note ok = inv_pc [OF inv, of t, unfolded S_u2]
  have "fine s (swap_step K r t (S_u2 p q) s)"
    using inv S_u2 ok by (auto intro!: fine_unlock)
  with S_u2 show ?thesis by (simp add: fine_counted)
next
  case (S_u3 p q)
  note ok = inv_pc [OF inv, of t, unfolded S_u3]
  have "fine s (swap_step K r t (S_u3 p q) s)"
    using inv S_u3 ok by (auto simp: ptr_ok_def intro!: fine_unlock)
  with S_u3 show ?thesis by (simp add: fine_counted)
next
  case (S_else2 a b)
  note ok = inv_pc [OF inv, of t, unfolded S_else2]
  have "fine s (swap_step K r t (S_else2 a b) s)"
    using inv S_else2 ok by (auto simp: next_of_in intro!: fine_move)
  with S_else2 show ?thesis by (simp add: fine_counted)
next
  case (S_e1 a p)
  note ok = inv_pc [OF inv, of t, unfolded S_e1]
  have "fine s (swap_step K r t (S_e1 a p) s)"
    using inv S_e1 ok by (auto intro!: fine_unlock)
  with S_e1 show ?thesis by (simp add: fine_counted)
next
  case (S_e2 p)
  note ok = inv_pc [OF inv, of t, unfolded S_e2]
  have "fine s (swap_step K r t (S_e2 p) s)"
    using inv S_e2 ok by (auto simp: ptr_ok_def intro!: fine_unlock)
  with S_e2 show ?thesis by (simp add: fine_counted)
next
  case (S_else1 a)
  note ok = inv_pc [OF inv, of t, unfolded S_else1]
  have "fine s (swap_step K r t (S_else1 a) s)"
    using inv S_else1 ok inv_next [OF inv, of a] by (auto simp: next_of_in intro!: fine_move)
  with S_else1 show ?thesis by (simp add: fine_counted)
next
  case (S_f a p)
  note ok = inv_pc [OF inv, of t, unfolded S_f]
  have "fine s (swap_step K r t (S_f a p) s)"
    using inv S_f ok by (auto intro!: fine_unlock)
  with S_f show ?thesis by (simp add: fine_counted)
next
  case (S_rand a)
  note ok = inv_pc [OF inv, of t, unfolded S_rand]
  have "fine s (swap_step K r t (S_rand a) s)"
    using inv S_rand ok inv_first [OF inv, of a] by (auto simp: ptr_ok_def intro!: fine_move)
  with S_rand show ?thesis by (simp add: fine_counted)
next
  case (S_walk2 a)
  note ok = inv_pc [OF inv, of t, unfolded S_walk2]
  have "fine s (swap_step K r t (S_walk2 a) s)"
    using inv S_walk2 ok inv_next [OF inv, of a] by (auto simp: next_of_in intro!: fine_move)
  with S_walk2 show ?thesis by (simp add: fine_counted)
next
  case (S_swap a b c)
  note ok = inv_pc [OF inv, of t, unfolded S_swap]
  have "fine s (swap_step K r t (S_swap a b c) s)"
    using inv S_swap ok by (auto simp: next_of_in intro!: fine_move)
  with S_swap show ?thesis by (simp add: fine_counted)
next
  case (S_adv a b c)
  note ok = inv_pc [OF inv, of t, unfolded S_adv]
  have "fine s (swap_step K r t (S_adv a b c) s)"
    using inv S_adv ok by (auto simp: next_of_in intro!: fine_move)
  with S_adv show ?thesis by (simp add: fine_counted)
qed (use pc in auto)

text \<open>
  The only step that can follow a null pointer is the unlocked walk of a swap thread that skips
  its pass: it reads \<open>next\<close> twice, and the second read may give NULL.
\<close>

lemma step_counted:
  assumes "sinv s" and "w_pc s (fst ev) \<noteq> S_walk None"
  shows "counted s (storage_step K ca s ev)"
  using process_counted [OF assms(1)] swap_counted [OF assms(1) _ assms(2)] by (simp add: storage_step_def)

lemma step_inv:
  assumes "sinv s" and "storage_step K ca s ev = Inr s'"
  shows "sinv s' \<and> same_nodes s s'"
proof (cases "w_pc s (fst ev) = S_walk None")
  case True
  with assms show ?thesis by (simp add: storage_step_def next_of_def)
next
  case False
  from step_counted [OF assms(1) False, of ca] assms(2) show ?thesis by (auto simp: counted_def fine_def)
qed

lemma reach_storage:
  "reach (storage_step K ca) s0 s \<Longrightarrow> sinv s0 \<Longrightarrow> sinv s \<and> same_nodes s0 s"
proof (induction rule: reach.induct)
  case (step s e t)
  with step_inv [of s ca e t] same_nodes_trans [of s0 s t] show ?case by blast
qed simp

end

end
