(* ===== verification/StoragePrograms.thy ===== *)
theory StoragePrograms
  imports StorageThreads
begin

text \<open>
  The three programs of \<^verbatim>\<open>lab2/3\<close>: the lock of a node is a pthread mutex, a read-write lock
  or a spinlock. Each provides the lock interface of \<open>StorageThreads\<close>, and \<open>main\<close> fills the
  storage and starts three threads that compare and three that swap.
\<close>

section \<open>The locks\<close>

text \<open>
  A mutex and a spinlock: free, or owned by one thread. \<open>trylock\<close> succeeds exactly when the
  lock is free.
\<close>

definition excl_try :: "'t option \<Rightarrow> 't \<Rightarrow> 't option option" where
  "excl_try l t = (if l = None then Some (Some t) else None)"

definition excl_unlock :: "'t option \<Rightarrow> 't \<Rightarrow> 't option option" where
  "excl_unlock l t = (if l = Some t then Some None else None)"

definition mutex_ops :: "('t option, 't) lock_ops" where
  "mutex_ops = \<lparr>k_init = None, k_try_read = excl_try, k_try_write = excl_try, k_unlock = excl_unlock\<rparr>"

definition spin_ops :: "('t option, 't) lock_ops" where
  "spin_ops = \<lparr>k_init = None, k_try_read = excl_try, k_try_write = excl_try, k_unlock = excl_unlock\<rparr>"

text \<open>
  A read-write lock: \<open>process_thread\<close> takes it with \<open>tryrdlock\<close>, \<open>swap_thread\<close> with
  \<open>trywrlock\<close>; any number of readers may hold it together.
\<close>

datatype 't rwlock = RW_free | RW_write 't | RW_read "'t list"

fun rw_tryrdlock :: "'t rwlock \<Rightarrow> 't \<Rightarrow> 't rwlock option" where
  "rw_tryrdlock RW_free t = Some (RW_read [t])"
| "rw_tryrdlock (RW_read ts) t = Some (RW_read (t # ts))"
| "rw_tryrdlock (RW_write u) t = None"

fun rw_trywrlock :: "'t rwlock \<Rightarrow> 't \<Rightarrow> 't rwlock option" where
  "rw_trywrlock RW_free t = Some (RW_write t)"
| "rw_trywrlock _ t = None"

fun rw_unlock :: "'t rwlock \<Rightarrow> 't \<Rightarrow> 't rwlock option" where
  "rw_unlock RW_free t = None"
| "rw_unlock (RW_write u) t = (if u = t then Some RW_free else None)"
| "rw_unlock (RW_read ts) t =
     (if t \<in> set ts then Some (if remove1 t ts = [] then RW_free else RW_read (remove1 t ts)) else None)"

definition rwlock_ops :: "('t rwlock, 't) lock_ops" where
  "rwlock_ops = \<lparr>k_init = RW_free, k_try_read = rw_tryrdlock, k_try_write = rw_trywrlock,
                 k_unlock = rw_unlock\<rparr>"

fun rw_ok :: "'t rwlock \<Rightarrow> bool" where
  "rw_ok (RW_read ts) = (ts \<noteq> [] \<and> distinct ts)"
| "rw_ok _ = True"

fun rw_held :: "'t rwlock \<Rightarrow> 't \<Rightarrow> bool" where
  "rw_held RW_free t = False"
| "rw_held (RW_write u) t = (u = t)"
| "rw_held (RW_read ts) t = (t \<in> set ts)"

definition owned :: "'t option \<Rightarrow> 't \<Rightarrow> bool" where
  "owned l t \<longleftrightarrow> l = Some t"

lemmas excl_defs = excl_try_def excl_unlock_def owned_def

interpretation mutex_lock: node_lock mutex_ops "\<lambda>_. True" owned owned
  by unfold_locales (auto simp: mutex_ops_def excl_defs split: if_splits)

interpretation spin_lock: node_lock spin_ops "\<lambda>_. True" owned owned
  by unfold_locales (auto simp: spin_ops_def excl_defs split: if_splits)

interpretation rw_lock: node_lock rwlock_ops rw_ok rw_held "\<lambda>l t. l = RW_write t"
proof unfold_locales
  fix l l' :: "'t rwlock" and t u :: 't
  show "rw_ok (k_init rwlock_ops) \<and> \<not> rw_held (k_init rwlock_ops) t" by (simp add: rwlock_ops_def)
  show "rw_ok l \<Longrightarrow> k_try_write rwlock_ops l t = Some l' \<Longrightarrow>
      rw_ok l' \<and> (\<forall>u. \<not> rw_held l u) \<and> l' = RW_write t \<and> (\<forall>u. rw_held l' u \<longleftrightarrow> u = t)"
    by (cases l) (auto simp: rwlock_ops_def)
  show "rw_ok l \<Longrightarrow> \<not> rw_held l t \<Longrightarrow> k_try_read rwlock_ops l t = Some l' \<Longrightarrow>
      rw_ok l' \<and> rw_held l' t \<and>
      (\<forall>u. u \<noteq> t \<longrightarrow> rw_held l' u = rw_held l u \<and> (l' = RW_write u) = (l = RW_write u))"
    by (cases l) (auto simp: rwlock_ops_def)
  show "rw_ok l \<Longrightarrow> rw_held l t \<Longrightarrow> \<exists>l'. k_unlock rwlock_ops l t = Some l' \<and> rw_ok l' \<and> \<not> rw_held l' t \<and>
      (\<forall>u. u \<noteq> t \<longrightarrow> rw_held l' u = rw_held l u \<and> (l' = RW_write u) = (l = RW_write u))"
  proof (cases l)
    case (RW_read ts)
    assume "rw_ok l" "rw_held l t"
    with RW_read show ?thesis
    proof (cases "remove1 t ts = []")
      case True
      with RW_read \<open>rw_ok l\<close> \<open>rw_held l t\<close> have "ts = [t]" by (cases ts) (auto split: if_splits)
      with RW_read show ?thesis by (simp add: rwlock_ops_def)
    qed (auto simp: rwlock_ops_def)
  qed (auto simp: rwlock_ops_def)
  show "rw_ok l \<Longrightarrow> l = RW_write t \<Longrightarrow> rw_held l u \<Longrightarrow> u = t" by (cases l) auto
qed

section \<open>main\<close>

datatype worker = Ascending | Descending | EqualLength | SwapOne | SwapTwo | SwapThree

fun start_pc :: "worker \<Rightarrow> spc" where
  "start_pc Ascending = P_check"
| "start_pc Descending = P_check"
| "start_pc EqualLength = P_check"
| "start_pc _ = S_outer"

text \<open>
  \<open>main\<close> with the capacity (\<open>STORAGE_CAPACITY\<close> is 1000). Neither the result of \<open>calloc\<close> nor
  those of the \<open>pthread_create\<close> calls are tested: a thread that could not be created does not
  run.
\<close>

definition STORAGE_CAPACITY :: int where
  "STORAGE_CAPACITY = 1000"

definition storage_threads :: "bool \<Rightarrow> (worker \<Rightarrow> bool) \<Rightarrow> 'l storage \<Rightarrow> ('l, worker) sthreads" where
  "storage_threads calloc_ok created st =
     \<lparr>w_first = s_first st, w_heap = s_heap st,
      w_counter = (if calloc_ok then Some (\<lambda>_. 0) else None), w_pairs = (\<lambda>_. 0),
      w_pc = (\<lambda>w. if created w then start_pc w else S_done)\<rparr>"

definition storage_main ::
  "('l, worker) lock_ops \<Rightarrow> 'l snode allocator \<Rightarrow> bool \<Rightarrow> bool \<Rightarrow> (worker \<Rightarrow> bool) \<Rightarrow> int \<Rightarrow>
   (fault + ('l, worker) sthreads) option" where
  "storage_main K alloc malloc_ok calloc_ok created capacity =
     (case initialize_storage malloc_ok capacity of
        Inl e \<Rightarrow> Some (Inl e)
      | Inr st \<Rightarrow>
          (case fill_storage alloc (k_init K) st of
             None \<Rightarrow> None
           | Some (Inl e) \<Rightarrow> Some (Inl e)
           | Some (Inr st) \<Rightarrow> Some (Inr (storage_threads calloc_ok created st))))"

text \<open>
  The three variants of \<^verbatim>\<open>queue.c\<close> and of \<open>main\<close> differ only in the initialiser of the lock
  and in the type of the lock.
\<close>

definition mutex_main where
  "mutex_main = storage_main (mutex_ops :: (worker option, worker) lock_ops)"

definition rwlock_main where
  "rwlock_main = storage_main (rwlock_ops :: (worker rwlock, worker) lock_ops)"

definition spin_main where
  "spin_main = storage_main (spin_ops :: (worker option, worker) lock_ops)"

definition rwlock_initialize_storage :: "bool \<Rightarrow> int \<Rightarrow> fault + 't rwlock storage" where
  "rwlock_initialize_storage = initialize_storage"

definition rwlock_add_node ::
  "'t rwlock snode allocator \<Rightarrow> string \<Rightarrow> 't rwlock storage \<Rightarrow> (fault + 't rwlock storage) option" where
  "rwlock_add_node alloc = add_node alloc RW_free"

definition rwlock_fill_storage ::
  "'t rwlock snode allocator \<Rightarrow> 't rwlock storage \<Rightarrow> (fault + 't rwlock storage) option" where
  "rwlock_fill_storage alloc = fill_storage alloc RW_free"

definition spin_initialize_storage :: "bool \<Rightarrow> int \<Rightarrow> fault + 't option storage" where
  "spin_initialize_storage = initialize_storage"

definition spin_add_node ::
  "'t option snode allocator \<Rightarrow> string \<Rightarrow> 't option storage \<Rightarrow> (fault + 't option storage) option" where
  "spin_add_node alloc = add_node alloc None"

definition spin_fill_storage ::
  "'t option snode allocator \<Rightarrow> 't option storage \<Rightarrow> (fault + 't option storage) option" where
  "spin_fill_storage alloc = fill_storage alloc None"

definition spin_print_storage :: "'t option storage \<Rightarrow> (fault + string list) option" where
  "spin_print_storage = print_storage"

text \<open>
  \<open>print_storage\<close> of the read-write lock variant takes and releases the lock of each node around
  the access to its value. \<open>pthread_rwlock_rdlock\<close> blocks (the result is None) while a writer
  holds the lock.
\<close>

partial_function (option) rwlock_print_nodes ::
  "'t \<Rightarrow> 't rwlock snode heap \<Rightarrow> ptr \<Rightarrow> (fault + string list \<times> 't rwlock snode heap) option" where
  "rwlock_print_nodes t h current =
     (if current \<noteq> None then
        (case deref h current of
           Inl e \<Rightarrow> Some (Inl e)
         | Inr n \<Rightarrow>
             (case rw_tryrdlock (s_lock n) t of
                None \<Rightarrow> None
              | Some l \<Rightarrow>
                  (case bindr (store h current (\<lambda>n. n\<lparr>s_lock := l\<rparr>)) (\<lambda>h.
                        bindr (deref h current) (\<lambda>n.
                        case rw_unlock (s_lock n) t of
                          None \<Rightarrow> Inl (Abort ''unlock of a lock that is not held'')
                        | Some l \<Rightarrow> store h current (\<lambda>n. n\<lparr>s_lock := l\<rparr>))) of
                     Inl e \<Rightarrow> Some (Inl e)
                   | Inr h \<Rightarrow>
                       Option.bind (rwlock_print_nodes t h (s_next n)) (\<lambda>r.
                       Some (bindr r (\<lambda>(rest, h). Inr (s_value n # rest, h)))))))
      else Some (Inr ([], h)))"

definition rwlock_print_storage ::
  "'t \<Rightarrow> 't rwlock storage \<Rightarrow> (fault + string list \<times> 't rwlock storage) option" where
  "rwlock_print_storage t s =
     Option.bind (rwlock_print_nodes t (s_heap s) (s_first s)) (\<lambda>r.
     Some (bindr r (\<lambda>(out, h). Inr (out, s\<lparr>s_heap := h\<rparr>))))"

text \<open>The line that \<open>count_monitor\<close> prints every second.\<close>

definition count_monitor :: "(worker \<Rightarrow> int) option \<Rightarrow> fault + int list" where
  "count_monitor counters =
     (case counters of
        None \<Rightarrow> Inl NullDeref
      | Some c \<Rightarrow> Inr [c Ascending, c Descending, c EqualLength, c SwapOne, c SwapTwo, c SwapThree])"

definition mutex_step ::
  "(worker \<Rightarrow> int) \<Rightarrow> (worker option, worker) sthreads \<Rightarrow> worker \<times> int \<Rightarrow> fault + (worker option, worker) sthreads" where
  "mutex_step = storage_step mutex_ops"

definition rwlock_step ::
  "(worker \<Rightarrow> int) \<Rightarrow> (worker rwlock, worker) sthreads \<Rightarrow> worker \<times> int \<Rightarrow> fault + (worker rwlock, worker) sthreads" where
  "rwlock_step = storage_step rwlock_ops"

definition spin_storage_step ::
  "(worker \<Rightarrow> int) \<Rightarrow> (worker option, worker) sthreads \<Rightarrow> worker \<times> int \<Rightarrow> fault + (worker option, worker) sthreads" where
  "spin_storage_step = storage_step spin_ops"

section \<open>The list is only ever permuted\<close>

text \<open>
  No swap is between its first and its last store: then the list is whole. \<open>permuted s s0\<close>:
  it holds the strings it held at the start, and the first one is still the first.
\<close>

definition no_swap :: "('l, 't) sthreads \<Rightarrow> bool" where
  "no_swap s \<longleftrightarrow> (\<forall>t. pending (w_pc s t) = Map.empty)"

definition contents_of :: "('l, 't) sthreads \<Rightarrow> string list \<Rightarrow> bool" where
  "contents_of s vs \<longleftrightarrow> (\<exists>as. chain s_next (w_heap s) (w_first s) as \<and> dom (w_heap s) = set as \<and>
     svals (w_heap s) as = vs)"

lemma svals_values: "svals h as = map (\<lambda>a. case map_option s_value (h a) of None \<Rightarrow> [] | Some v \<Rightarrow> v) as"
  by (auto simp: svals_def split: option.splits)

context node_lock
begin

lemma start_storage:
  assumes wf: "wf_storage (k_init K) st as vs"
    and s0: "w_first s0 = s_first st" "w_heap s0 = s_heap st"
    and pcs: "\<And>t. pending (w_pc s0 t) = Map.empty \<and> locks_of (w_pc s0 t) = {} \<and> (\<forall>nx D f. pc_ok nx D f (w_pc s0 t))"
  shows "sinv s0 \<and> contents_of s0 vs"
proof -
  from wf have ch: "chain s_next (s_heap st) (s_first st) as" and d: "dom (s_heap st) = set as"
      and lk: "\<And>a n. s_heap st a = Some n \<Longrightarrow> s_lock n = k_init K" by (auto simp: wf_storage_def)
  have dist: "distinct as" using ch by (rule chain_distinct)
  have pa: "path (nxt (s_heap st)) (s_first st) as" using ch by (rule chain_path)
  have "list_ok s0"
    unfolding list_ok_def view_def using pa dist d s0 pcs
    by (intro exI [of _ "nxt (s_heap st)"] exI [of _ as]) simp
  moreover have "locks_ok lock_ok held wheld s0"
    unfolding locks_ok_def using lk init_free pcs s0 by auto
  moreover have "ptr_ok (set as) (nxt (s_heap st) a) \<and> nxt (s_heap st) a \<noteq> Some a" if "a \<in> set as" for a
  proof (cases "nxt (s_heap st) a")
    case None
    then show ?thesis by (simp add: ptr_ok_def)
  next
    case (Some b)
    from path_no_pred [OF pa dist that Some] have "b \<in> set as" by simp
    moreover have "b \<noteq> a"
    proof
      assume "b = a"
      with path_swap [OF pa dist Some, of a] Some that show False by auto
    qed
    ultimately show ?thesis using Some by (simp add: ptr_ok_def)
  qed
  moreover have "ptr_ok (set as) (s_first st)" using pa by (cases as) (auto simp: ptr_ok_def)
  ultimately have "sinv s0" using pcs s0 d by (auto simp: storage_inv_def nodes_ok_def)
  moreover have "contents_of s0 vs" using wf s0 by (auto simp: contents_of_def wf_storage_def)
  ultimately show ?thesis by blast
qed

lemma permuted:
  assumes inv: "sinv s" and same: "same_nodes s0 s" and c: "contents_of s0 vs" and q: "no_swap s"
  shows "\<exists>ws. contents_of s ws \<and> mset ws = mset vs \<and> (vs \<noteq> [] \<longrightarrow> hd ws = hd vs)"
proof -
  obtain nx as where v: "view (w_heap s) (w_pc s) nx" "path nx (w_first s) as" "distinct as"
      "set as = dom (w_heap s)" using inv by (rule inv_view)
  have "nx = nxt (w_heap s)" using v(1) q by (auto simp: view_def no_swap_def)
  with v have ch: "chain s_next (w_heap s) (w_first s) as" by (intro path_chain) auto
  from c obtain bs where bs: "chain s_next (w_heap s0) (w_first s0) bs" "dom (w_heap s0) = set bs"
      "svals (w_heap s0) bs = vs" by (auto simp: contents_of_def)
  have "mset as = mset bs"
    using v(3,4) chain_distinct [OF bs(1)] bs(2) same_nodes_dom [OF same] by (simp add: set_eq_iff_mset_eq_distinct)
  moreover have val: "svals (w_heap s) xs = svals (w_heap s0) xs" for xs
    using same by (simp add: svals_values same_nodes_def fun_eq_iff)
  ultimately have "mset (svals (w_heap s) as) = mset vs"
    using bs(3) by (metis mset_map svals_def)
  moreover have "hd (svals (w_heap s) as) = hd vs" if "vs \<noteq> []"
  proof -
    from that bs(3) obtain x xs where "bs = x # xs" by (cases bs) (auto simp: svals_def)
    moreover from this \<open>mset as = mset bs\<close> obtain y ys where "as = y # ys" by (cases as) auto
    moreover have "x = y" using calculation ch bs(1) same by (simp add: same_nodes_def)
    ultimately show ?thesis using val [of as] unfolding bs(3) [symmetric]
      by (simp add: svals_values)
  qed
  moreover have "contents_of s (svals (w_heap s) as)" using ch v(4) by (auto simp: contents_of_def)
  ultimately show ?thesis by blast
qed

end

section \<open>The three programs\<close>

lemma fill_storage_fills:
  assumes "initialize_storage True cap = Inr st" and "0 \<le> cap" and "cap \<le> 10 ^ 9"
    and "alloc_fresh alloc" and "never_null (nat cap) alloc"
  shows "\<exists>s' as. fill_storage alloc lock st = Some (Inr s') \<and>
    wf_storage lock s' as (map (decimal \<circ> nat) [0 .. cap - 1])"
proof -
  have st: "s_capacity st = cap" "wf_storage lock st [] []"
    using assms(1) by (auto simp: initialize_storage_def wf_storage_def svals_def)
  have "wf_storage lock st [] (map (decimal \<circ> nat) [0 .. 0 - 1])" using st(2) by simp
  from fill_loop_fills [OF _ _ _ this, of alloc] assms st(1) show ?thesis
    by (auto simp: fill_storage_def)
qed

lemma fresh_pc:
  "pending (if created w then start_pc w else S_done) = Map.empty \<and>
   locks_of (if created w then start_pc w else S_done) = {} \<and>
   (\<forall>nx D f. pc_ok nx D f (if created w then start_pc w else S_done))"
  by (cases w) (auto split: if_splits)

locale storage_program = node_lock K lock_ok held wheld
  for K :: "('l, worker) lock_ops" and lock_ok held wheld
begin

lemma starts:
  assumes "0 \<le> cap" and "cap \<le> 10 ^ 9" and "alloc_fresh alloc" and "never_null (nat cap) alloc"
  obtains s0 where "storage_main K alloc True calloc_ok created cap = Some (Inr s0)"
    "sinv s0" "contents_of s0 (map (decimal \<circ> nat) [0 .. cap - 1])"
    "w_counter s0 = None \<longleftrightarrow> \<not> calloc_ok"
proof -
  obtain st where st: "initialize_storage True cap = (Inr st :: fault + 'l storage)"
    by (simp add: initialize_storage_def)
  from fill_storage_fills [OF st assms, of "k_init K"] obtain s' as where
    s': "fill_storage alloc (k_init K) st = Some (Inr s')"
      "wf_storage (k_init K) s' as (map (decimal \<circ> nat) [0 .. cap - 1])" by blast
  let ?s0 = "storage_threads calloc_ok created s'"
  have pcs: "pending (w_pc ?s0 t) = Map.empty \<and> locks_of (w_pc ?s0 t) = {} \<and>
      (\<forall>nx D f. pc_ok nx D f (w_pc ?s0 t))" for t
    unfolding storage_threads_def sthreads.simps by (rule fresh_pc)
  have ok: "sinv ?s0 \<and> contents_of ?s0 (map (decimal \<circ> nat) [0 .. cap - 1])"
    by (rule start_storage [OF s'(2) _ _ pcs]) (simp_all add: storage_threads_def)
  show thesis
  proof (rule that)
    show "storage_main K alloc True calloc_ok created cap = Some (Inr ?s0)"
      by (simp add: storage_main_def st s'(1))
    show "w_counter ?s0 = None \<longleftrightarrow> \<not> calloc_ok" by (simp add: storage_threads_def)
  qed (use ok in blast)+
qed

lemma keeps_list:
  assumes "0 \<le> cap" and "cap \<le> 10 ^ 9" and "alloc_fresh alloc" and "never_null (nat cap) alloc"
  shows "\<exists>s0. storage_main K alloc True calloc_ok created cap = Some (Inr s0) \<and>
    (\<forall>s. reach (storage_step K ca) s0 s \<and> no_swap s \<longrightarrow>
      (\<exists>ws. contents_of s ws \<and> mset ws = mset (map (decimal \<circ> nat) [0 .. cap - 1]) \<and>
        (0 < cap \<longrightarrow> hd ws = ''0'')))"
proof -
  obtain s0 where s0: "storage_main K alloc True calloc_ok created cap = Some (Inr s0)" "sinv s0"
      "contents_of s0 (map (decimal \<circ> nat) [0 .. cap - 1])"
    using assms by (rule starts)
  have "\<exists>ws. contents_of s ws \<and> mset ws = mset (map (decimal \<circ> nat) [0 .. cap - 1]) \<and>
        (0 < cap \<longrightarrow> hd ws = ''0'')"
    if "reach (storage_step K ca) s0 s" "no_swap s" for s
  proof -
    from reach_storage [OF that(1) s0(2)] have "sinv s" "same_nodes s0 s" by auto
    from permuted [OF this s0(3) that(2)] show ?thesis
      by (cases "0 < cap") (auto simp: upto_rec1 decimal.simps digit_def char_of_def bit_simps)
  qed
  with s0(1) show ?thesis by blast
qed

lemma fails_only:
  assumes "0 \<le> cap" and "cap \<le> 10 ^ 9" and "alloc_fresh alloc" and "never_null (nat cap) alloc"
  shows "\<exists>s0. storage_main K alloc True calloc_ok created cap = Some (Inr s0) \<and>
    (\<forall>s ev e. reach (storage_step K ca) s0 s \<and> storage_step K ca s ev = Inl e \<longrightarrow>
      e = SignedOverflow \<or> e = NullDeref \<and> (w_counter s = None \<or> w_pc s (fst ev) = S_walk None))"
proof -
  obtain s0 where s0: "storage_main K alloc True calloc_ok created cap = Some (Inr s0)" "sinv s0"
    using assms by (rule starts)
  have "e = SignedOverflow \<or> e = NullDeref \<and> (w_counter s = None \<or> w_pc s (fst ev) = S_walk None)"
    if r: "reach (storage_step K ca) s0 s" and f: "storage_step K ca s ev = Inl e" for s ev e
  proof (cases "w_pc s (fst ev) = S_walk None")
    case True
    with f show ?thesis by (simp add: storage_step_def next_of_def)
  next
    case False
    from reach_storage [OF r s0(2)] have "sinv s" by simp
    from step_counted [OF this False, of ca] f show ?thesis by (auto simp: counted_def fine_def)
  qed
  with s0(1) show ?thesis by blast
qed

text \<open>
  While a thread holds locks, nobody else changes those nodes; in particular the neighbours
  that a thread compares are neighbours, and two threads that swap never hold the same node.
\<close>

lemma locks_exclude:
  assumes "0 \<le> cap" and "cap \<le> 10 ^ 9" and "alloc_fresh alloc" and "never_null (nat cap) alloc"
  shows "\<exists>s0. storage_main K alloc True calloc_ok created cap = Some (Inr s0) \<and>
    (\<forall>s. reach (storage_step K ca) s0 s \<longrightarrow>
      (\<forall>t u. t \<noteq> u \<and> swapper (w_pc s t) \<longrightarrow> locks_of (w_pc s t) \<inter> locks_of (w_pc s u) = {}) \<and>
      (\<forall>a n. w_heap s a = Some n \<longrightarrow> (\<forall>t. held (s_lock n) t \<longleftrightarrow> a \<in> locks_of (w_pc s t))) \<and>
      (\<forall>t a b. w_pc s t = P_cmp a b \<longrightarrow>
        (\<exists>n m. w_heap s a = Some n \<and> s_next n = Some b \<and> w_heap s b = Some m \<and> a \<noteq> b)))"
proof -
  obtain s0 where s0: "storage_main K alloc True calloc_ok created cap = Some (Inr s0)" "sinv s0"
    using assms by (rule starts)
  have "(\<forall>t u. t \<noteq> u \<and> swapper (w_pc s t) \<longrightarrow> locks_of (w_pc s t) \<inter> locks_of (w_pc s u) = {}) \<and>
      (\<forall>a n. w_heap s a = Some n \<longrightarrow> (\<forall>t. held (s_lock n) t \<longleftrightarrow> a \<in> locks_of (w_pc s t))) \<and>
      (\<forall>t a b. w_pc s t = P_cmp a b \<longrightarrow>
        (\<exists>n m. w_heap s a = Some n \<and> s_next n = Some b \<and> w_heap s b = Some m \<and> a \<noteq> b))"
    if r: "reach (storage_step K ca) s0 s" for s
  proof -
    from reach_storage [OF r s0(2)] have inv: "sinv s" by simp
    have "locks_of (w_pc s t) \<inter> locks_of (w_pc s u) = {}" if "t \<noteq> u" "swapper (w_pc s t)" for t u
      using alone [OF inv _ that(2), of _ u] that(1) by blast
    moreover have "held (s_lock n) t \<longleftrightarrow> a \<in> locks_of (w_pc s t)" if "w_heap s a = Some n" for a n t
      using inv that by (auto simp: storage_inv_def locks_ok_def)
    moreover have "\<exists>n m. w_heap s a = Some n \<and> s_next n = Some b \<and> w_heap s b = Some m \<and> a \<noteq> b"
      if "w_pc s t = P_cmp a b" for t a b
      using inv_pc [OF inv, of t, unfolded that] by (auto simp: nxt_def)
    ultimately show ?thesis by blast
  qed
  with s0(1) show ?thesis by blast
qed

end

interpretation mutex_program: storage_program mutex_ops "\<lambda>_. True" owned owned
  by unfold_locales

interpretation rwlock_program: storage_program rwlock_ops rw_ok rw_held "\<lambda>l t. l = RW_write t"
  by unfold_locales

interpretation spin_program: storage_program spin_ops "\<lambda>_. True" owned owned
  by unfold_locales

text \<open>The numbers from 0 as the program writes them: what the storage holds at the start.\<close>

lemmas program_defs = mutex_main_def rwlock_main_def spin_main_def mutex_step_def rwlock_step_def
  spin_storage_step_def

definition numbered :: "int \<Rightarrow> string list" where
  "numbered capacity = map (decimal \<circ> nat) [0 .. capacity - 1]"

text \<open>
  \<open>keeps_contents step s0 capacity\<close>: whenever no swap is half done, the nodes form one list
  from the head with exactly the strings it was filled with, and \<open>0\<close> is still the first.
\<close>

definition keeps_contents ::
  "(('l, worker) sthreads \<Rightarrow> worker \<times> int \<Rightarrow> fault + ('l, worker) sthreads) \<Rightarrow>
   ('l, worker) sthreads \<Rightarrow> int \<Rightarrow> bool" where
  "keeps_contents step s0 capacity \<longleftrightarrow>
     (\<forall>s. reach step s0 s \<and> no_swap s \<longrightarrow>
       (\<exists>ws. contents_of s ws \<and> mset ws = mset (numbered capacity) \<and> (0 < capacity \<longrightarrow> hd ws = ''0'')))"

text \<open>
  Property C3. Whatever the schedule, the random numbers, the failed thread creations and the
  addresses \<open>malloc\<close> returns: the swapping threads of all three programs only ever permute
  the list. Whenever no swap is half done, the list from the head visits every node once and
  holds exactly the numbers it was filled with, the first of them unmoved.
\<close>

theorem storage_permuted:
  assumes "0 \<le> capacity" and "capacity \<le> 10 ^ 9"
    and "alloc_fresh alloc" and "never_null (nat capacity) alloc"
    and "alloc_fresh alloc'" and "never_null (nat capacity) alloc'"
  shows "(\<exists>s0. mutex_main alloc True calloc_ok created capacity = Some (Inr s0) \<and>
      keeps_contents (mutex_step ca) s0 capacity) \<and>
    (\<exists>s0. rwlock_main alloc' True calloc_ok created capacity = Some (Inr s0) \<and>
      keeps_contents (rwlock_step ca) s0 capacity) \<and>
    (\<exists>s0. spin_main alloc True calloc_ok created capacity = Some (Inr s0) \<and>
      keeps_contents (spin_storage_step ca) s0 capacity)"
  unfolding keeps_contents_def numbered_def program_defs
  by (intro conjI mutex_program.keeps_list rwlock_program.keeps_list spin_program.keeps_list assms)

lemma storage_permuted_witness:
  "\<exists>s0. mutex_main (first_fit 3 \<lparr>s_value = '''', s_next = None, s_lock = None\<rparr>) True True (\<lambda>_. True) 3
      = Some (Inr s0) \<and> keeps_contents (mutex_step (\<lambda>_. 4096)) s0 3"
  using storage_permuted [of 3 "first_fit 3 \<lparr>s_value = '''', s_next = None, s_lock = None\<rparr>"
      "first_fit 3 \<lparr>s_value = '''', s_next = None, s_lock = RW_free\<rparr>" True "\<lambda>_. True" "\<lambda>_. 4096"]
  by (simp add: first_fit_fresh first_fit_never_null)




text \<open>
  \<open>locks_protect step held s0\<close>: a thread that swaps shares no node with any other thread, the
  lock of each node is held by exactly the threads that are working on it, and the two nodes
  that a thread compares are neighbours.
\<close>

definition locks_protect ::
  "(('l, worker) sthreads \<Rightarrow> worker \<times> int \<Rightarrow> fault + ('l, worker) sthreads) \<Rightarrow>
   ('l \<Rightarrow> worker \<Rightarrow> bool) \<Rightarrow> ('l, worker) sthreads \<Rightarrow> bool" where
  "locks_protect step held s0 \<longleftrightarrow>
    (\<forall>s. reach step s0 s \<longrightarrow>
      (\<forall>t u. t \<noteq> u \<and> swapper (w_pc s t) \<longrightarrow> locks_of (w_pc s t) \<inter> locks_of (w_pc s u) = {}) \<and>
      (\<forall>a n. w_heap s a = Some n \<longrightarrow> (\<forall>t. held (s_lock n) t \<longleftrightarrow> a \<in> locks_of (w_pc s t))) \<and>
      (\<forall>t a b. w_pc s t = P_cmp a b \<longrightarrow>
        (\<exists>n m. w_heap s a = Some n \<and> s_next n = Some b \<and> w_heap s b = Some m \<and> a \<noteq> b)))"

text \<open>
  Property C17. The locks of the three programs protect the nodes: a swapping thread has its
  three nodes for itself, no lock is kept or leaked by a thread that has moved on, and the
  nodes being compared are distinct neighbours.
\<close>

theorem storage_locks_protect:
  assumes "0 \<le> capacity" and "capacity \<le> 10 ^ 9"
    and "alloc_fresh alloc" and "never_null (nat capacity) alloc"
    and "alloc_fresh alloc'" and "never_null (nat capacity) alloc'"
  shows "(\<exists>s0. rwlock_main alloc True calloc_ok created capacity = Some (Inr s0) \<and>
      locks_protect (rwlock_step ca) rw_held s0) \<and>
    (\<exists>s0. mutex_main alloc' True calloc_ok created capacity = Some (Inr s0) \<and>
      locks_protect (mutex_step ca) owned s0) \<and>
    (\<exists>s0. spin_main alloc' True calloc_ok created capacity = Some (Inr s0) \<and>
      locks_protect (spin_storage_step ca) owned s0)"
  unfolding locks_protect_def program_defs
  by (intro conjI mutex_program.locks_exclude rwlock_program.locks_exclude spin_program.locks_exclude assms)

lemma storage_locks_protect_witness:
  "\<exists>s0. rwlock_main (first_fit 3 \<lparr>s_value = '''', s_next = None, s_lock = RW_free\<rparr>) True True (\<lambda>_. True) 3
      = Some (Inr s0) \<and> locks_protect (rwlock_step (\<lambda>_. 4096)) rw_held s0"
  using storage_locks_protect [of 3 "first_fit 3 \<lparr>s_value = '''', s_next = None, s_lock = RW_free\<rparr>"
      "first_fit 3 \<lparr>s_value = '''', s_next = None, s_lock = None\<rparr>" True "\<lambda>_. True" "\<lambda>_. 4096"]
  by (simp add: first_fit_fresh first_fit_never_null)

section \<open>A storage of three nodes\<close>

text \<open>The mutex program with three nodes, evaluated: a start state for examples.\<close>

definition walk_alloc :: "worker option snode allocator" where
  "walk_alloc = first_fit 3 \<lparr>s_value = '''', s_next = None, s_lock = None\<rparr>"

definition walk_start :: "(worker option, worker) sthreads" where
  "walk_start = storage_threads True (\<lambda>_. True)
     \<lparr>s_first = Some 0, s_capacity = 3,
      s_heap = [0 \<mapsto> \<lparr>s_value = ''0'', s_next = Some 1, s_lock = None\<rparr>,
                1 \<mapsto> \<lparr>s_value = ''1'', s_next = Some 2, s_lock = None\<rparr>,
                2 \<mapsto> \<lparr>s_value = ''2'', s_next = None, s_lock = None\<rparr>], s_mallocs = 3\<rparr>"

lemma decimal_small: "decimal 0 = ''0''" "decimal (Suc 0) = ''1''" "decimal 2 = ''2''"
  by (simp_all add: decimal.simps digit_def char_of_def bit_simps)

lemma walk_main: "mutex_main walk_alloc True True (\<lambda>_. True) 3 = Some (Inr walk_start)"
  by (simp add: mutex_main_def storage_main_def initialize_storage_def fill_storage_def fill_loop.simps add_node_def
      fill_node_def last_node.simps copy_string_def MAX_STRING_LENGTH_def walk_alloc_def
      first_fit_def walk_start_def mutex_ops_def decimal_small upt_rec fun_upd_twist)
    (simp add: numeral_eq_Suc)

section \<open>Printing under the locks\<close>

lemma rwlock_print_chain:
  "chain s_next h p as \<Longrightarrow> (\<And>a n. h a = Some n \<Longrightarrow> s_lock n = RW_free) \<Longrightarrow>
   rwlock_print_nodes t h p = Some (Inr (svals h as, h))"
proof (induction as arbitrary: p)
  case Nil
  then show ?case by (simp add: rwlock_print_nodes.simps svals_def)
next
  case (Cons a as)
  then obtain n where n: "p = Some a" "h a = Some n" "chain s_next h (s_next n) as" by auto
  have l: "s_lock n = RW_free" using Cons.prems(2) [OF n(2)] .
  then have "n\<lparr>s_lock := RW_free\<rparr> = n" by simp
  then have "h(a \<mapsto> n\<lparr>s_lock := RW_free\<rparr>) = h" using n(2) by auto
  with n l Cons.IH [OF n(3) Cons.prems(2)] show ?case
    by (simp add: rwlock_print_nodes.simps [of t h "Some a"] svals_def)
qed

text \<open>
  The storage of the read-write lock program, once filled, is printed in full by
  \<open>print_storage\<close>, which never blocks on it and leaves every lock free and the list as it was.
\<close>

lemma rwlock_storage_printed:
  assumes "0 \<le> capacity" and "capacity \<le> 10 ^ 9"
    and "alloc_fresh alloc" and "never_null (nat capacity) alloc"
  shows "\<exists>s s'. rwlock_initialize_storage True capacity = Inr s \<and>
    rwlock_fill_storage alloc s = Some (Inr s') \<and>
    rwlock_print_storage t s' = Some (Inr (numbered capacity, s'))"
proof -
  obtain s where s: "initialize_storage True capacity = (Inr s :: fault + 'a rwlock storage)"
    by (simp add: initialize_storage_def)
  from fill_storage_fills [OF s assms, of RW_free] obtain s' as where
    s': "fill_storage alloc RW_free s = Some (Inr s')" "wf_storage RW_free s' as (numbered capacity)"
    unfolding numbered_def by blast
  from s'(2) have "rwlock_print_nodes t (s_heap s') (s_first s') = Some (Inr (numbered capacity, s_heap s'))"
    using rwlock_print_chain [of "s_heap s'" "s_first s'" as t] by (auto simp: wf_storage_def)
  with s s'(1) show ?thesis
    by (simp add: rwlock_initialize_storage_def rwlock_fill_storage_def rwlock_print_storage_def)
qed

end
