(* ===== verification/StorageRuns.thy ===== *)
theory StorageRuns
  imports StoragePrograms Monitors
begin

text \<open>
  The complete programs of \<^verbatim>\<open>lab2/3\<close>: \<open>main\<close> creates the six threads and the one that prints
  their counters, and joins them in another order. The threads of \<open>StorageThreads\<close> run in it
  as they run alone.
\<close>

section \<open>The program\<close>

datatype sthread = Worker worker | Counting

definition creations :: "sthread list" where
  "creations = [Worker Ascending, Worker Descending, Worker EqualLength,
     Worker SwapOne, Worker SwapTwo, Worker SwapThree, Counting]"

definition joins :: "sthread list" where
  "joins = [Worker Ascending, Worker Descending, Worker EqualLength, Counting,
     Worker SwapOne, Worker SwapTwo, Worker SwapThree]"

text \<open>
  \<open>main\<close> after it has filled the storage, with the calls it has still to make; and \<open>count_monitor\<close>,
  which loads the six counters in any order and prints them.
\<close>

datatype smain_pc = Main_create "sthread list" | Main_join "sthread list" | Main_done

datatype count_pc = Count_load "int option list" | Count_sleep

record 'l srun =
  z_main :: smain_pc
  z_made :: "sthread list"
  z_threads :: "('l, worker) sthreads"
  z_count :: count_pc
  z_lines :: "int list list"

fun count_step :: "nat \<Rightarrow> count_pc \<Rightarrow> (worker \<Rightarrow> int) option \<Rightarrow> fault + count_pc \<times> int list list" where
  "count_step k (Count_load ls) counters =
     (if None \<notin> set ls then Inr (Count_sleep, [map the ls])
      else bindr (count_monitor counters) (\<lambda>xs. Inr (Count_load (load_field xs k ls), [])))"
| "count_step k Count_sleep counters = Inr (Count_load (replicate 6 None), [])"

fun ended :: "'l srun \<Rightarrow> sthread \<Rightarrow> bool" where
  "ended s (Worker w) = (w_pc (z_threads s) w = S_done)"
| "ended s Counting = False"

text \<open>
  \<open>create t\<close> is what \<open>pthread_create\<close> returns for a thread; nobody looks at it. A thread that was not
  created has no identifier, and joining it reads an uninitialised variable. A join waits
  for the end of the thread.
\<close>

fun smain_step :: "(sthread \<Rightarrow> int) \<Rightarrow> smain_pc \<Rightarrow> 'l srun \<Rightarrow> fault + 'l srun" where
  "smain_step create (Main_create []) s = Inr (s\<lparr>z_main := Main_join joins\<rparr>)"
| "smain_step create (Main_create (t # ts)) s =
     Inr (s\<lparr>z_main := Main_create ts, z_made := (if create t = 0 then t # z_made s else z_made s)\<rparr>)"
| "smain_step create (Main_join []) s = Inr (s\<lparr>z_main := Main_done\<rparr>)"
| "smain_step create (Main_join (t # ts)) s =
     (if t \<notin> set (z_made s) then Inl Uninitialised
      else Inr (if ended s t then s\<lparr>z_main := Main_join ts\<rparr> else s))"
| "smain_step create Main_done s = Inr s"

text \<open>An event is a step of \<open>main\<close>, of a worker (with the next value of \<open>rand() % 2\<close>) or of the counting thread.\<close>

datatype sevent = Main_moves | Worker_moves worker int | Count_moves nat

fun srun_move ::
  "(sthread \<Rightarrow> int) \<Rightarrow> ('l, worker) lock_ops \<Rightarrow> (worker \<Rightarrow> int) \<Rightarrow> 'l srun \<Rightarrow> sevent \<Rightarrow> fault + 'l srun" where
  "srun_move create K ca s Main_moves = smain_step create (z_main s) s"
| "srun_move create K ca s (Worker_moves w rnd) =
     (if Worker w \<in> set (z_made s)
      then bindr (storage_step K ca (z_threads s) (w, rnd)) (\<lambda>t. Inr (s\<lparr>z_threads := t\<rparr>))
      else Inr s)"
| "srun_move create K ca s (Count_moves k) =
     (if Counting \<in> set (z_made s)
      then bindr (count_step k (z_count s) (w_counter (z_threads s))) (\<lambda>(pc, lines).
           Inr (s\<lparr>z_count := pc, z_lines := z_lines s @ lines\<rparr>))
      else Inr s)"

text \<open>When \<open>main\<close> has returned the process is over.\<close>

definition srun_step ::
  "(sthread \<Rightarrow> int) \<Rightarrow> ('l, worker) lock_ops \<Rightarrow> (worker \<Rightarrow> int) \<Rightarrow> 'l srun \<Rightarrow> sevent \<Rightarrow> fault + 'l srun" where
  "srun_step create K ca s ev = (if z_main s = Main_done then Inr s else srun_move create K ca s ev)"

definition srun_start :: "('l, worker) sthreads \<Rightarrow> 'l srun" where
  "srun_start t =
     \<lparr>z_main = Main_create creations, z_made = [], z_threads = t, z_count = Count_load (replicate 6 None), z_lines = []\<rparr>"

section \<open>The threads in the whole program\<close>

lemma smain_step_keeps:
  "smain_step create pc s = Inr s' \<Longrightarrow> z_threads s' = z_threads s \<and> z_count s' = z_count s \<and> z_lines s' = z_lines s"
  by (cases "(create, pc, s)" rule: smain_step.cases) (auto split: if_splits)

lemma srun_step_threads:
  "srun_step create K ca s ev = Inr s' \<Longrightarrow>
     z_threads s' = z_threads s \<or> (\<exists>e. storage_step K ca (z_threads s) e = Inr (z_threads s'))"
  by (cases ev) (auto simp: srun_step_def bindr_Inr_iff split: if_splits dest: smain_step_keeps)

lemma srun_reach_threads:
  "reach (srun_step create K ca) s0 s \<Longrightarrow> reach (storage_step K ca) (z_threads s0) (z_threads s)"
proof (induction rule: reach.induct)
  case (step s ev s')
  from srun_step_threads [OF step.hyps(2)] step.IH show ?case by (auto intro: reach.step)
qed (rule reach.start)

text \<open>\<open>main\<close> never returns: the counting thread never ends, and it is joined.\<close>

fun main_ok :: "(sthread \<Rightarrow> int) \<Rightarrow> sthread list \<Rightarrow> smain_pc \<Rightarrow> bool" where
  "main_ok create made (Main_create ts) =
     (\<exists>done. creations = done @ ts \<and> set made = {t \<in> set done. create t = 0})"
| "main_ok create made (Main_join ts) = (Counting \<in> set ts \<and> set made = {t. create t = 0})"
| "main_ok create made Main_done = False"

lemma all_threads: "set creations = UNIV" "Counting \<in> set joins"
proof -
  have "t \<in> set creations" for t
    by (cases t; simp add: creations_def) (metis worker.exhaust)
  then show "set creations = UNIV" by blast
qed (simp add: joins_def)

interpretation smain: invariant_of "srun_step create K ca"
    "\<lambda>s. z_main s = Main_create creations \<and> z_made s = []" "\<lambda>s. main_ok create (z_made s) (z_main s)"
  for create K ca
proof
  fix s ev s'
  assume ok: "main_ok create (z_made s) (z_main s)" and st: "srun_step create K ca s ev = Inr s'"
  then have move: "srun_move create K ca s ev = Inr s'" by (auto simp: srun_step_def split: if_splits)
  show "main_ok create (z_made s') (z_main s')"
  proof (cases ev)
    case Main_moves
    with move have main: "smain_step create (z_main s) s = Inr s'" by simp
    show ?thesis
    proof (cases "(create, z_main s, s)" rule: smain_step.cases)
      case 1
      with main ok all_threads show ?thesis by auto
    next
      case (2 c t ts s1)
      then obtain ds where ds: "creations = ds @ t # ts" "set (z_made s) = {t \<in> set ds. create t = 0}"
        using ok by auto
      from 2 main have s': "z_main s' = Main_create ts"
          "z_made s' = (if create t = 0 then t # z_made s else z_made s)" by auto
      have "\<exists>ds. creations = ds @ ts \<and> set (z_made s') = {t \<in> set ds. create t = 0}"
        using ds unfolding s' by (intro exI [of _ "ds @ [t]"]) auto
      with s'(1) show ?thesis by simp
    qed (use main ok in \<open>auto split: if_splits\<close>)
  qed (use move ok in \<open>auto simp: bindr_Inr_iff split: if_splits\<close>)
qed auto

section \<open>The counters\<close>

text \<open>A counter is changed by its own thread only, which adds one.\<close>

definition present :: "('l, worker) sthreads \<Rightarrow> int list" where
  "present t = (case count_monitor (w_counter t) of Inl e \<Rightarrow> replicate 6 0 | Inr xs \<Rightarrow> xs)"

definition counted_up :: "('l, 't) sthreads \<Rightarrow> ('l, 't) sthreads \<Rightarrow> bool" where
  "counted_up t t' \<longleftrightarrow>
     (case (w_counter t, w_counter t') of
        (None, None) \<Rightarrow> True
      | (Some c, Some c') \<Rightarrow> (\<forall>w. c w \<le> c' w)
      | _ \<Rightarrow> False)"

lemma counted_same: "w_counter t' = w_counter t \<Longrightarrow> counted_up t t'"
  by (simp add: counted_up_def split: option.split)

lemma lock_counter:
  "try_lock try w p yes no t = Inr t' \<Longrightarrow> w_counter t' = w_counter t"
  "un_lock K w p pc t = Inr t' \<Longrightarrow> w_counter t' = w_counter t"
  by (auto simp: try_lock_def un_lock_def goto_def bindr_Inr_iff split: option.splits)

lemma set_next_counter: "set_next a p t = Inr t' \<Longrightarrow> w_counter t' = w_counter t"
  by (auto simp: set_next_def bindr_Inr_iff simp del: store.simps)

lemma incr_counted: "incr_counter w pc t = Inr t' \<Longrightarrow> counted_up t t'"
  by (auto simp: incr_counter_def counted_up_def goto_def bindr_Inr_iff c_int_Inr split: option.splits)

lemma goto_counter [simp]: "w_counter (goto w pc t) = w_counter t"
  by (simp add: goto_def)

lemma process_counts_up: "process_step K ca w pc t = Inr t' \<Longrightarrow> counted_up t t'"
  by (cases "pc = P_count", simp add: incr_counted, cases pc)
    (auto simp: bindr_Inr_iff Let_def split: if_splits option.splits intro!: counted_same dest: lock_counter)

lemma swap_counts_up: "swap_step K rnd w pc t = Inr t' \<Longrightarrow> counted_up t t'"
  by (cases "\<exists>a b c. pc = S_count a b c", auto simp: incr_counted, cases pc)
    (auto simp: bindr_Inr_iff split: if_splits option.splits prod.splits
      intro!: counted_same dest: lock_counter set_next_counter, metis goto_counter)

lemma storage_counted: "storage_step K ca t ev = Inr t' \<Longrightarrow> counted_up t t'"
  unfolding storage_step_def by (auto split: if_splits dest: process_counts_up swap_counts_up)

lemma present_grows: "counted_up t t' \<Longrightarrow> below (present t) (present t')"
  by (auto simp: counted_up_def present_def count_monitor_def below_def list_all2_refl split: option.splits)

text \<open>
  The lines of the counting thread are in order, beginning with a line of zeros that is not
  printed.
\<close>

abbreviation zeros :: "int list" where
  "zeros \<equiv> replicate 6 0"

abbreviation six :: "nat list" where
  "six \<equiv> [0, 1, 2, 3, 4, 5]"

fun count_watching :: "int list list \<Rightarrow> count_pc \<Rightarrow> int list \<Rightarrow> bool" where
  "count_watching los (Count_load ls) hi = (length ls = 6 \<and> watching six los ls hi)"
| "count_watching los Count_sleep hi = True"

lemma length_present [simp]: "length (present t) = 6"
  by (simp add: present_def count_monitor_def split: option.split)

lemma pick_six: "length xs = 6 \<Longrightarrow> pick six xs = xs"
  by (auto simp: pick_def list_eq_iff_nth_eq less_Suc_eq eval_nat_numeral)

lemma count_step_watched:
  assumes inv: "watched los (present t)" "count_watching los pc (present t)"
    and st: "count_step k pc (w_counter t) = Inr (pc', lines)"
  shows "watched (los @ lines) (present t) \<and> count_watching (los @ lines) pc' (present t)"
proof (cases pc)
  case (Count_load ls)
  show ?thesis
  proof (cases "None \<in> set ls")
    case True
    with Count_load st obtain xs where xs: "count_monitor (w_counter t) = Inr xs" "lines = []"
        "pc' = Count_load (load_field xs k ls)" by (auto simp: bindr_Inr_iff)
    then have "present t = xs" by (simp add: present_def)
    with xs Count_load inv watching_load [of los six xs ls k] pick_six [of xs] length_present [of t]
    show ?thesis by simp
  next
    case False
    with Count_load st have "lines = [map the ls]" "pc' = Count_sleep" by auto
    moreover have "ls \<noteq> []" using inv(2) Count_load by auto
    ultimately show ?thesis using watched_line [OF inv(1) _ False, of six] inv(2) Count_load pick_six [of "map the ls"]
      by simp
  qed
next
  case Count_sleep
  have "watching six los (replicate 6 None) (present t)" by (rule watching_empty [OF inv(1)]) auto
  with Count_sleep inv st show ?thesis by auto
qed

definition run_watched :: "'l srun \<Rightarrow> bool" where
  "run_watched s \<longleftrightarrow> watched (zeros # z_lines s) (present (z_threads s)) \<and>
     count_watching (zeros # z_lines s) (z_count s) (present (z_threads s))"

interpretation counting: invariant_of "srun_step create K ca"
    "\<lambda>s. present (z_threads s) = zeros \<and> z_count s = Count_load (replicate 6 None) \<and> z_lines s = []" run_watched
  for create K ca
proof
  fix s :: "'a srun"
  assume start: "present (z_threads s) = zeros \<and> z_count s = Count_load (replicate 6 None) \<and> z_lines s = []"
  then have "watched (zeros # z_lines s) (present (z_threads s))" by (simp add: watched_def)
  with start watching_empty [OF this, of six 6] show "run_watched s" by (simp add: run_watched_def)
next
  fix s :: "'a srun" and ev s'
  assume old: "run_watched s" and st: "srun_step create K ca s ev = Inr s'"
  show "run_watched s'"
  proof (cases "s' = s \<or> ev = Main_moves")
    case True
    with st have "s' = s \<or> smain_step create (z_main s) s = Inr s'" by (auto simp: srun_step_def split: if_splits)
    with old smain_step_keeps [of create "z_main s" s s'] show ?thesis by (auto simp: run_watched_def)
  next
    case False
    with st have move: "srun_move create K ca s ev = Inr s'" by (simp add: srun_step_def split: if_splits)
    show ?thesis
    proof (cases ev)
      case (Worker_moves w rnd)
      with move False obtain t where t: "storage_step K ca (z_threads s) (w, rnd) = Inr t" "s' = s\<lparr>z_threads := t\<rparr>"
        by (auto simp: bindr_Inr_iff split: if_splits)
      have "below (present (z_threads s)) (present t)" by (rule present_grows [OF storage_counted [OF t(1)]])
      with old t(2) show ?thesis
        by (cases "z_count s") (auto simp: run_watched_def intro: watched_grows watching_grows)
    next
      case (Count_moves k)
      with move False obtain pc lines where c: "count_step k (z_count s) (w_counter (z_threads s)) = Inr (pc, lines)"
          "s' = s\<lparr>z_count := pc, z_lines := z_lines s @ lines\<rparr>"
        by (auto simp: bindr_Inr_iff split: if_splits)
      with old count_step_watched [OF _ _ c(1), of "zeros # z_lines s"] show ?thesis by (simp add: run_watched_def)
    qed (use False in simp)
  qed
qed

section \<open>What the programs do\<close>

text \<open>
  \<open>runs_well create K ca s0 capacity\<close>: in every reachable state of the program \<open>main\<close> has not
  returned; the list, when no swap is half done, holds what it was filled with; the lines of
  counters are not negative and no counter ever decreases; and a step fails only as the workers
  can, by reading counters that were not allocated, or by joining a thread that was not created.
\<close>

definition runs_well ::
  "(sthread \<Rightarrow> int) \<Rightarrow> ('l, worker) lock_ops \<Rightarrow> (worker \<Rightarrow> int) \<Rightarrow> ('l, worker) sthreads \<Rightarrow> int \<Rightarrow> bool" where
  "runs_well create K ca s0 capacity \<longleftrightarrow> (\<forall>s. reach (srun_step create K ca) (srun_start s0) s \<longrightarrow>
     z_main s \<noteq> Main_done \<and>
     (no_swap (z_threads s) \<longrightarrow>
       (\<exists>ws. contents_of (z_threads s) ws \<and> mset ws = mset (numbered capacity) \<and> (0 < capacity \<longrightarrow> hd ws = ''0''))) \<and>
     sorted_wrt below (zeros # z_lines s) \<and>
     (\<forall>ev e. srun_step create K ca s ev = Inl e \<longrightarrow>
       e = SignedOverflow \<or>
       e = NullDeref \<and> (w_counter (z_threads s) = None \<or> (\<exists>w. w_pc (z_threads s) w = S_walk None)) \<or>
       e = Uninitialised \<and> ev = Main_moves \<and> (\<exists>t. create t \<noteq> 0)))"

lemma smain_fault:
  "smain_step create pc s = Inl e \<Longrightarrow> main_ok create (z_made s) pc \<Longrightarrow> e = Uninitialised \<and> (\<exists>t. create t \<noteq> 0)"
  by (cases "(create, pc, s)" rule: smain_step.cases) (auto split: if_splits)

lemma count_fault:
  "count_step k pc c = Inl e \<Longrightarrow> e = NullDeref \<and> c = None"
  by (cases pc) (auto simp: bindr_Inl_iff count_monitor_def split: if_splits option.splits)

context storage_program
begin

lemma program_runs:
  assumes "0 \<le> cap" and "cap \<le> 10 ^ 9" and "alloc_fresh alloc" and "never_null (nat cap) alloc"
  shows "\<exists>s0. storage_main K alloc True calloc_ok (\<lambda>w. create (Worker w) = 0) cap = Some (Inr s0) \<and>
    runs_well create K ca s0 cap"
proof -
  obtain s0 where s0: "storage_main K alloc True calloc_ok (\<lambda>w. create (Worker w) = 0) cap = Some (Inr s0)"
    and list: "\<And>s. reach (storage_step K ca) s0 s \<Longrightarrow> no_swap s \<Longrightarrow>
      \<exists>ws. contents_of s ws \<and> mset ws = mset (numbered cap) \<and> (0 < cap \<longrightarrow> hd ws = ''0'')"
    using keeps_list [OF assms] unfolding numbered_def by metis
  have fails: "e = SignedOverflow \<or> e = NullDeref \<and> (w_counter s = None \<or> w_pc s (fst ev) = S_walk None)"
    if "reach (storage_step K ca) s0 s" "storage_step K ca s ev = Inl e" for s ev e
    using fails_only [OF assms, of calloc_ok "\<lambda>w. create (Worker w) = 0" ca] s0 that
    by (metis Inr_inject option.inject)
  have zero: "present s0 = zeros"
    using s0 by (auto simp: storage_main_def storage_threads_def present_def count_monitor_def
        eval_nat_numeral split: sum.splits option.splits if_splits)
  have "z_main s \<noteq> Main_done \<and> sorted_wrt below (zeros # z_lines s) \<and>
      reach (storage_step K ca) s0 (z_threads s) \<and> main_ok create (z_made s) (z_main s)"
    if "reach (srun_step create K ca) (srun_start s0) s" for s
    using srun_reach_threads [OF that] smain.reach_good [OF that] counting.reach_good [OF that] zero
    by (auto simp: srun_start_def run_watched_def watched_def)
  note run = this
  have "e = SignedOverflow \<or>
       e = NullDeref \<and> (w_counter (z_threads s) = None \<or> (\<exists>w. w_pc (z_threads s) w = S_walk None)) \<or>
       e = Uninitialised \<and> ev = Main_moves \<and> (\<exists>t. create t \<noteq> 0)"
    if r: "reach (srun_step create K ca) (srun_start s0) s" and f: "srun_step create K ca s ev = Inl e" for s ev e
  proof (cases ev)
    case Main_moves
    with f run [OF r] smain_fault [of create "z_main s" s e] show ?thesis by (auto simp: srun_step_def split: if_splits)
  next
    case (Worker_moves w rnd)
    with f run [OF r] fails [of "z_threads s" "(w, rnd)" e] show ?thesis
      by (auto simp: srun_step_def bindr_Inl_iff split: if_splits)
  next
    case (Count_moves k)
    with f count_fault [of k "z_count s" "w_counter (z_threads s)" e] show ?thesis
      by (auto simp: srun_step_def bindr_Inl_iff split: if_splits)
  qed
  with s0 run list show ?thesis unfolding runs_well_def by blast
qed

end

text \<open>
  Property C10. The complete programs of \<^verbatim>\<open>lab2/3\<close>, under every schedule and for any failed
  creations: \<open>main\<close> never returns; the list is only permuted; the numbers that \<open>count_monitor\<close> prints
  without a lock are never negative and never decrease; and the programs fail only by the overflow
  of a counter, counters that were not allocated, the unlocked walk, or a join of a
  thread whose creation failed.
\<close>

theorem storage_programs_run:
  assumes "0 \<le> capacity" and "capacity \<le> 10 ^ 9"
    and "alloc_fresh alloc" and "never_null (nat capacity) alloc"
    and "alloc_fresh alloc'" and "never_null (nat capacity) alloc'"
  shows "(\<exists>s0. mutex_main alloc True calloc_ok (\<lambda>w. create (Worker w) = 0) capacity = Some (Inr s0) \<and>
      runs_well create mutex_ops ca s0 capacity) \<and>
    (\<exists>s0. rwlock_main alloc' True calloc_ok (\<lambda>w. create (Worker w) = 0) capacity = Some (Inr s0) \<and>
      runs_well create rwlock_ops ca s0 capacity) \<and>
    (\<exists>s0. spin_main alloc True calloc_ok (\<lambda>w. create (Worker w) = 0) capacity = Some (Inr s0) \<and>
      runs_well create spin_ops ca s0 capacity)"
  unfolding program_defs
  by (intro conjI mutex_program.program_runs rwlock_program.program_runs spin_program.program_runs assms)

text \<open>The seven creations, and a first line of six zeros.\<close>

lemma storage_programs_run_witness:
  "\<exists>s. mutex_main walk_alloc True True (\<lambda>_. True) 3 = Some (Inr walk_start) \<and>
     runs_well (\<lambda>_. 0) mutex_ops (\<lambda>_. 4096) walk_start 3 \<and>
     run (srun_step (\<lambda>_. 0) mutex_ops (\<lambda>_. 4096)) (srun_start walk_start)
       (replicate 7 Main_moves @ map Count_moves [5, 4, 3, 2, 1, 0, 0]) = Inr s \<and>
     z_lines s = [[0, 0, 0, 0, 0, 0]]"
proof -
  have al: "alloc_fresh walk_alloc" "never_null (nat 3) walk_alloc"
    by (simp_all add: walk_alloc_def first_fit_fresh first_fit_never_null)
  have al': "alloc_fresh (first_fit 3 \<lparr>s_value = '''', s_next = None, s_lock = RW_free\<rparr>)"
    "never_null (nat 3) (first_fit 3 \<lparr>s_value = '''', s_next = None, s_lock = RW_free\<rparr>)"
    by (simp_all add: first_fit_fresh first_fit_never_null)
  have cap: "(0 :: int) \<le> 3" "(3 :: int) \<le> 10 ^ 9" by simp_all
  from conjunct1 [OF storage_programs_run [OF cap al al', of True "\<lambda>_. 0" "\<lambda>_. 4096"]] walk_main
  have "runs_well (\<lambda>_. 0) mutex_ops (\<lambda>_. 4096) walk_start 3" by simp
  moreover obtain s where "run (srun_step (\<lambda>_. 0) mutex_ops (\<lambda>_. 4096)) (srun_start walk_start)
       (replicate 7 Main_moves @ map Count_moves [5, 4, 3, 2, 1, 0, 0]) = Inr s" "z_lines s = [[0, 0, 0, 0, 0, 0]]"
    by (simp add: srun_step_def srun_start_def creations_def joins_def walk_start_def storage_threads_def
        count_monitor_def load_field_def eval_nat_numeral cong: bindr_weak_cong)
  ultimately show ?thesis using walk_main by blast
qed

text \<open>When no thread could be created, the first join reads an identifier that was never written.\<close>

lemma failed_creation_joined:
  "\<exists>s. run (srun_step (\<lambda>_. 11) K ca) (srun_start t) (replicate 8 Main_moves) = Inr s \<and>
     srun_step (\<lambda>_. 11) K ca s Main_moves = Inl Uninitialised"
  by (simp add: srun_step_def srun_start_def creations_def joins_def eval_nat_numeral cong: bindr_weak_cong)

end
