(* ===== verification/StorageWalk.thy ===== *)
theory StorageWalk
  imports StoragePrograms
begin

text \<open>
  The unlocked walk of \<open>swap_thread\<close> in \<^verbatim>\<open>lab2/3\<close>: a pass that \<open>rand() % 2\<close> skips reads
  \<open>curr1->next\<close> twice without a lock. For any capacity from 3 on, so for the 1000 nodes of the
  programs, a second swap thread can reach the end of the list and make the second read give
  NULL.
\<close>

section \<open>One turn of a swap thread alone\<close>

text \<open>
  A lock that was released is as good as new: \<open>taken t\<close> is the lock in the hands of \<open>t\<close>.
\<close>

locale trylock_program = storage_program K lock_ok held wheld
  for K :: "('l, worker) lock_ops" and lock_ok held wheld +
  fixes taken :: "worker \<Rightarrow> 'l"
  assumes write_free: "k_try_write K (k_init K) t = Some (taken t)"
    and unlock_taken: "k_unlock K (taken t) t = Some (k_init K)"
begin

lemmas turn_simps = storage_step_def try_lock_def un_lock_def next_of_def set_next_def
  incr_counter_def goto_def write_free unlock_taken numeral_eq_Suc

lemma takes_three:
  assumes "w_pc s t = S_loop (Some a)" and "distinct [a, b, c]"
    and "w_heap s a = Some \<lparr>s_value = u, s_next = Some b, s_lock = k_init K\<rparr>"
    and "w_heap s b = Some \<lparr>s_value = v, s_next = Some c, s_lock = k_init K\<rparr>"
    and "w_heap s c = Some \<lparr>s_value = w, s_next = q, s_lock = k_init K\<rparr>"
  shows "run (storage_step K ca) s (replicate 6 (t, 1)) = Inr (s\<lparr>
      w_heap := (w_heap s)(a \<mapsto> \<lparr>s_value = u, s_next = Some b, s_lock = taken t\<rparr>,
                           b \<mapsto> \<lparr>s_value = v, s_next = Some c, s_lock = taken t\<rparr>,
                           c \<mapsto> \<lparr>s_value = w, s_next = q, s_lock = taken t\<rparr>),
      w_pc := (w_pc s)(t := S_st1 a b c)\<rparr>)"
  using assms by (simp add: turn_simps)

lemma swaps_and_leaves:
  assumes "w_pc s t = S_st1 a b c" and "distinct [a, b, c]"
    and "w_heap s a = Some \<lparr>s_value = u, s_next = Some b, s_lock = taken t\<rparr>"
    and "w_heap s b = Some \<lparr>s_value = v, s_next = Some c, s_lock = taken t\<rparr>"
    and "w_heap s c = Some \<lparr>s_value = w, s_next = q, s_lock = taken t\<rparr>"
    and "w_counter s = Some cs" and "c_int (cs t + 1) = Inr x"
  shows "run (storage_step K ca) s (replicate 8 (t, 1)) = Inr (s\<lparr>
      w_heap := (w_heap s)(a \<mapsto> \<lparr>s_value = u, s_next = Some c, s_lock = k_init K\<rparr>,
                           c \<mapsto> \<lparr>s_value = w, s_next = Some b, s_lock = k_init K\<rparr>,
                           b \<mapsto> \<lparr>s_value = v, s_next = q, s_lock = k_init K\<rparr>),
      w_counter := Some (cs(t := x)), w_pc := (w_pc s)(t := S_loop (Some c))\<rparr>)"
  using assms by (simp add: turn_simps fun_upd_twist)

lemma begins:
  assumes "w_pc s t = S_outer" and "chain s_next (w_heap s) (w_first s) (a # b # c # ys)"
  shows "run (storage_step K ca) s (replicate 4 (t, r)) =
    Inr (s\<lparr>w_pc := (w_pc s)(t := if r = 0 then S_walk (Some a) else S_loop (Some a))\<rparr>)"
  using assms by (auto simp: turn_simps)

end

section \<open>A pass of a swap thread\<close>

text \<open>The three nodes that a turn works on, and the list once it has exchanged the last two.\<close>

lemma chain_nodes:
  assumes "chain s_next h p (xs @ a # b # c # ys)" and "\<forall>x n. h x = Some n \<longrightarrow> s_lock n = l"
  obtains u v w q where "h a = Some \<lparr>s_value = u, s_next = Some b, s_lock = l\<rparr>"
    "h b = Some \<lparr>s_value = v, s_next = Some c, s_lock = l\<rparr>"
    "h c = Some \<lparr>s_value = w, s_next = q, s_lock = l\<rparr>" "q = None \<longleftrightarrow> ys = []"
proof -
  from assms(1) obtain na nb nc where n: "h a = Some na" "s_next na = Some b" "h b = Some nb"
      "s_next nb = Some c" "h c = Some nc" "chain s_next h (s_next nc) ys"
    by (auto simp: chain_simps)
  from n(6) have "s_next nc = None \<longleftrightarrow> ys = []" by (cases ys) auto
  moreover have "na = \<lparr>s_value = s_value na, s_next = Some b, s_lock = l\<rparr>"
    "nb = \<lparr>s_value = s_value nb, s_next = Some c, s_lock = l\<rparr>"
    "nc = \<lparr>s_value = s_value nc, s_next = s_next nc, s_lock = l\<rparr>"
    using n assms(2) by simp_all
  ultimately show thesis using that n(1,3,5) by metis
qed

lemma chain_exchange:
  assumes ch: "chain s_next h p (xs @ a # b # c # ys)" and q: "h c = Some m" "s_next m = q"
    and n: "s_next na = Some c" "s_next nc = Some b" "s_next nb = q"
  shows "chain s_next (h(a \<mapsto> na, c \<mapsto> nc, b \<mapsto> nb)) p (xs @ a # c # b # ys)"
proof -
  have "distinct (xs @ a # b # c # ys)" using ch by (rule chain_distinct)
  with ch q n show ?thesis by (auto simp: chain_simps)
qed

text \<open>
  \<open>swapping lock n k s\<close>: the second swap thread, alone so far, stands before the \<open>k\<close>-th of the
  \<open>n\<close> nodes, and at least three are left.
\<close>

definition swapping :: "'l \<Rightarrow> nat \<Rightarrow> nat \<Rightarrow> ('l, worker) sthreads \<Rightarrow> bool" where
  "swapping lock n k s \<longleftrightarrow>
     (\<exists>xs a b c ys. chain s_next (w_heap s) (w_first s) (xs @ a # b # c # ys) \<and>
        length xs = k \<and> length ys + k + 3 = n \<and> w_pc s SwapTwo = S_loop (Some a)) \<and>
     (\<forall>x m. w_heap s x = Some m \<longrightarrow> s_lock m = lock) \<and> w_pc s SwapOne = S_outer \<and>
     (\<exists>cs. w_counter s = Some cs \<and> cs SwapTwo = int k)"

context trylock_program
begin

lemma next_turn:
  assumes "swapping (k_init K) n k s" and "k + 3 < n" and "n \<le> 10 ^ 9"
  shows "\<exists>s'. reach (storage_step K ca) s s' \<and> swapping (k_init K) n (Suc k) s'"
proof -
  from assms(1) obtain xs a b c ys cs where ch: "chain s_next (w_heap s) (w_first s) (xs @ a # b # c # ys)"
      and k: "length xs = k" "length ys + k + 3 = n" "w_pc s SwapTwo = S_loop (Some a)"
      and l: "\<forall>x m. w_heap s x = Some m \<longrightarrow> s_lock m = k_init K" and o: "w_pc s SwapOne = S_outer"
      and cs: "w_counter s = Some cs" "cs SwapTwo = int k"
    by (auto simp: swapping_def)
  from chain_nodes [OF ch l] obtain u v w q where
    h: "w_heap s a = Some \<lparr>s_value = u, s_next = Some b, s_lock = k_init K\<rparr>"
      "w_heap s b = Some \<lparr>s_value = v, s_next = Some c, s_lock = k_init K\<rparr>"
      "w_heap s c = Some \<lparr>s_value = w, s_next = q, s_lock = k_init K\<rparr>" by metis
  have d: "distinct [a, b, c]" using chain_distinct [OF ch] by auto
  have x: "c_int (cs SwapTwo + 1) = Inr (int (Suc k))"
    using assms(2,3) cs(2) by (simp add: c_int_def c_limits)
  note t = takes_three [OF k(3) d h, of ca]
  obtain s' where s': "run (storage_step K ca) s (replicate 6 (SwapTwo, 1) @ replicate 8 (SwapTwo, 1)) = Inr s'"
    and f: "w_first s' = w_first s" "w_counter s' = Some (cs(SwapTwo := int (Suc k)))"
      "w_pc s' = (w_pc s)(SwapTwo := S_loop (Some c))"
    and h': "w_heap s' = (w_heap s)(a \<mapsto> \<lparr>s_value = u, s_next = Some c, s_lock = k_init K\<rparr>,
                           c \<mapsto> \<lparr>s_value = w, s_next = Some b, s_lock = k_init K\<rparr>,
                           b \<mapsto> \<lparr>s_value = v, s_next = q, s_lock = k_init K\<rparr>)"
    using d cs(1) x t
    by (simp add: swaps_and_leaves [where a = a and b = b and c = c and u = u and v = v and w = w and q = q and cs = cs and x = "int (Suc k)"] fun_upd_twist)
  have "chain s_next (w_heap s') (w_first s') (xs @ a # c # b # ys)"
    unfolding h' f(1) by (rule chain_exchange [OF ch h(3)]) simp_all
  moreover obtain z zs where "ys = z # zs" using k(2) assms(2) by (cases ys) auto
  ultimately have "swapping (k_init K) n (Suc k) s'"
    unfolding swapping_def using k l o f h'
    by (intro conjI exI [of _ "xs @ [a]"] exI [of _ c] exI [of _ b] exI [of _ z] exI [of _ zs]) auto
  with run_reach [OF s'] show ?thesis by blast
qed

text \<open>A thread that skips its pass walks up to any node that has a successor.\<close>

lemma walks:
  "chain s_next (w_heap s) p (zs @ b # c # ys) \<Longrightarrow> w_pc s t = S_walk p \<Longrightarrow>
   reach (storage_step K ca) s (s\<lparr>w_pc := (w_pc s)(t := S_walk2 b)\<rparr>)"
proof (induction zs arbitrary: p s)
  case Nil
  then have "run (storage_step K ca) s [(t, 0)] = Inr (s\<lparr>w_pc := (w_pc s)(t := S_walk2 b)\<rparr>)"
    by (auto simp: turn_simps)
  then show ?case by (rule run_reach)
next
  case (Cons z zs)
  then obtain m where m: "p = Some z" "w_heap s z = Some m"
      "chain s_next (w_heap s) (s_next m) (zs @ b # c # ys)" by auto
  from m(3) obtain y where y: "s_next m = Some y" by (cases zs) auto
  let ?u = "s\<lparr>w_pc := (w_pc s)(t := S_walk (s_next m))\<rparr>"
  have u: "?u\<lparr>w_pc := (w_pc ?u)(t := S_walk2 b)\<rparr> = s\<lparr>w_pc := (w_pc s)(t := S_walk2 b)\<rparr>"
    by (rule sthreads.equality) auto
  from m y have "run (storage_step K ca) s (replicate 2 (t, 0)) = Inr ?u"
    using Cons.prems(2) by (simp add: turn_simps)
  then have "reach (storage_step K ca) s ?u" by (rule run_reach)
  moreover have "chain s_next (w_heap ?u) (s_next m) (zs @ b # c # ys)" "w_pc ?u t = S_walk (s_next m)"
    using m(3) by simp_all
  then have "reach (storage_step K ca) ?u (s\<lparr>w_pc := (w_pc s)(t := S_walk2 b)\<rparr>)"
    unfolding u [symmetric] by (rule Cons.IH)
  ultimately show ?case using reach_trans by metis
qed

text \<open>At the end of the list, the walk and the first store of the swap meet.\<close>

lemma last_turn:
  assumes "swapping (k_init K) n k s" and "k + 3 = n"
  shows "\<exists>s'. reach (storage_step K ca) s s' \<and> storage_step K ca s' (SwapOne, r) = Inl NullDeref"
proof -
  from assms obtain xs a b c where ch: "chain s_next (w_heap s) (w_first s) (xs @ a # b # c # [])"
      and pc: "w_pc s SwapTwo = S_loop (Some a)" "w_pc s SwapOne = S_outer"
      and l: "\<forall>x m. w_heap s x = Some m \<longrightarrow> s_lock m = k_init K"
    by (auto simp: swapping_def)
  from chain_nodes [OF ch l] obtain u v w where
    h: "w_heap s a = Some \<lparr>s_value = u, s_next = Some b, s_lock = k_init K\<rparr>"
      "w_heap s b = Some \<lparr>s_value = v, s_next = Some c, s_lock = k_init K\<rparr>"
      "w_heap s c = Some \<lparr>s_value = w, s_next = None, s_lock = k_init K\<rparr>" by metis
  have d: "distinct [a, b, c]" using chain_distinct [OF ch] by auto
  let ?s = "s\<lparr>w_pc := (w_pc s)(SwapOne := S_walk (w_first s))\<rparr>"
  obtain f g g' fs where "xs @ a # b # c # [] = f # g # g' # fs"
    by (cases xs; cases "tl xs"; cases "tl (tl xs)") auto
  with ch begins [OF pc(2), of f g g' fs ca 0]
  have "run (storage_step K ca) s (replicate 4 (SwapOne, 0)) = Inr ?s" by auto
  then have "reach (storage_step K ca) s ?s" by (rule run_reach)
  moreover define s1 where "s1 = s\<lparr>w_pc := (w_pc s)(SwapOne := S_walk2 b)\<rparr>"
  have "reach (storage_step K ca) ?s s1"
    using walks [of ?s "w_first s" "xs @ [a]" b c "[]" SwapOne ca] ch by (simp add: s1_def)
  ultimately have r1: "reach (storage_step K ca) s s1" by (rule reach_trans [rotated])
  have "\<exists>s'. run (storage_step K ca) s1 (replicate 6 (SwapTwo, 1) @ [(SwapTwo, 1), (SwapOne, 0)]) = Inr s' \<and>
      storage_step K ca s' (SwapOne, r) = Inl NullDeref"
    using takes_three [of s1 SwapTwo a b c u v w None ca] pc h d by (simp add: s1_def turn_simps)
  with r1 show ?thesis using run_reach reach_trans by metis
qed

lemma walk_meets_swap:
  assumes "3 \<le> cap" and "cap \<le> 10 ^ 9" and "alloc_fresh alloc" and "never_null (nat cap) alloc"
    and "created SwapOne" and "created SwapTwo"
  shows "\<exists>s0 s. storage_main K alloc True True created cap = Some (Inr s0) \<and>
    reach (storage_step K ca) s0 s \<and> storage_step K ca s (SwapOne, r) = Inl NullDeref"
proof -
  obtain st where st: "initialize_storage True cap = (Inr st :: fault + 'l storage)"
    by (simp add: initialize_storage_def)
  from fill_storage_fills [OF st _ assms(2-4), of "k_init K"] assms(1) obtain s' as where
    s': "fill_storage alloc (k_init K) st = Some (Inr s')"
      "wf_storage (k_init K) s' as (map (decimal \<circ> nat) [0 .. cap - 1])" by auto
  let ?s0 = "storage_threads True created s'"
  have main: "storage_main K alloc True True created cap = Some (Inr ?s0)"
    by (simp add: storage_main_def st s'(1))
  from s'(2) have n: "length as = nat cap"
    by (auto simp: wf_storage_def svals_def dest!: arg_cong [where f = length])
  with assms(1) obtain a b c ys where as: "as = a # b # c # ys"
    by (cases as; cases "tl as"; cases "tl (tl as)") auto
  have ch: "chain s_next (w_heap ?s0) (w_first ?s0) (a # b # c # ys)"
    using s'(2) as by (simp add: wf_storage_def storage_threads_def)
  have pc: "w_pc ?s0 SwapOne = S_outer" "w_pc ?s0 SwapTwo = S_outer"
    using assms(5,6) by (simp_all add: storage_threads_def)
  let ?s1 = "?s0\<lparr>w_pc := (w_pc ?s0)(SwapTwo := S_loop (Some a))\<rparr>"
  have r1: "reach (storage_step K ca) ?s0 ?s1"
    using begins [OF pc(2) ch, of ca 1] by (intro run_reach) simp
  have "swapping (k_init K) (nat cap) 0 ?s1"
    unfolding swapping_def
  proof (intro conjI exI)
    show "chain s_next (w_heap ?s1) (w_first ?s1) ([] @ a # b # c # ys)" using ch by simp
    show "length ys + 0 + 3 = nat cap" using n as by simp
    show "\<forall>x m. w_heap ?s1 x = Some m \<longrightarrow> s_lock m = k_init K"
      using s'(2) by (simp add: wf_storage_def storage_threads_def)
  qed (use pc in \<open>simp_all add: storage_threads_def\<close>)
  with r1 have "\<exists>s. reach (storage_step K ca) ?s0 s \<and> swapping (k_init K) (nat cap) 0 s" by blast
  moreover have le: "nat cap \<le> 10 ^ 9" using assms(2) by simp
  ultimately have "\<exists>s. reach (storage_step K ca) ?s0 s \<and> swapping (k_init K) (nat cap) k s"
    if "k + 3 \<le> nat cap" for k
    using that
  proof (induction k)
    case (Suc k)
    then obtain s where s: "reach (storage_step K ca) ?s0 s" "swapping (k_init K) (nat cap) k s" by auto
    obtain t where "reach (storage_step K ca) s t" "swapping (k_init K) (nat cap) (Suc k) t"
      using next_turn [OF s(2) _ le, of ca] Suc.prems by auto
    with reach_trans [OF _ s(1)] show ?case by blast
  qed simp
  from this [of "nat cap - 3"] assms(1) obtain s where
    s: "reach (storage_step K ca) ?s0 s" "swapping (k_init K) (nat cap) (nat cap - 3) s" by auto
  from last_turn [OF s(2), of ca r] assms(1) obtain u where
    "reach (storage_step K ca) s u" "storage_step K ca u (SwapOne, r) = Inl NullDeref" by auto
  with reach_trans [OF _ s(1)] main show ?thesis by blast
qed

end

section \<open>The three programs\<close>

interpretation mutex_walk: trylock_program mutex_ops "\<lambda>_. True" owned owned Some
  by unfold_locales (simp_all add: mutex_ops_def excl_defs)

interpretation rwlock_walk: trylock_program rwlock_ops rw_ok rw_held "\<lambda>l t. l = RW_write t" RW_write
  by unfold_locales (simp_all add: rwlock_ops_def)

interpretation spin_walk: trylock_program spin_ops "\<lambda>_. True" owned owned Some
  by unfold_locales (simp_all add: spin_ops_def excl_defs)

text \<open>
  Property C37. In all three programs, with any capacity of at least 3 and so with the 1000
  nodes of the source, an execution in which every \<open>malloc\<close> and \<open>calloc\<close> succeeds and the
  first two swap threads were created reaches a null dereference: the first thread skips its
  pass, tests that the last but one node has a successor and reads its \<open>next\<close> again without a
  lock, while the second one, which has swapped its way to the end of the list, is between
  the stores of a swap.
\<close>

theorem storage_walk_null:
  assumes "3 \<le> capacity" and "capacity \<le> 10 ^ 9" and "created SwapOne" and "created SwapTwo"
    and "alloc_fresh alloc" and "never_null (nat capacity) alloc"
    and "alloc_fresh alloc'" and "never_null (nat capacity) alloc'"
  shows "(\<exists>s0 s. mutex_main alloc True True created capacity = Some (Inr s0) \<and>
      reach (mutex_step ca) s0 s \<and> mutex_step ca s (SwapOne, r) = Inl NullDeref) \<and>
    (\<exists>s0 s. rwlock_main alloc' True True created capacity = Some (Inr s0) \<and>
      reach (rwlock_step ca) s0 s \<and> rwlock_step ca s (SwapOne, r) = Inl NullDeref) \<and>
    (\<exists>s0 s. spin_main alloc True True created capacity = Some (Inr s0) \<and>
      reach (spin_storage_step ca) s0 s \<and> spin_storage_step ca s (SwapOne, r) = Inl NullDeref)"
  unfolding program_defs
  by (intro conjI mutex_walk.walk_meets_swap rwlock_walk.walk_meets_swap spin_walk.walk_meets_swap assms)

lemma storage_walk_null_witness:
  "\<exists>s0 s. mutex_main (first_fit 1000 \<lparr>s_value = '''', s_next = None, s_lock = None\<rparr>) True True (\<lambda>_. True)
      STORAGE_CAPACITY = Some (Inr s0) \<and>
    reach (mutex_step (\<lambda>_. 4096)) s0 s \<and> mutex_step (\<lambda>_. 4096) s (SwapOne, 0) = Inl NullDeref"
  using storage_walk_null [of STORAGE_CAPACITY "\<lambda>_. True"
      "first_fit 1000 \<lparr>s_value = '''', s_next = None, s_lock = None\<rparr>"
      "first_fit 1000 \<lparr>s_value = '''', s_next = None, s_lock = RW_free\<rparr>" "\<lambda>_. 4096" 0]
  by (simp add: STORAGE_CAPACITY_def first_fit_fresh first_fit_never_null)

end
