(* ===== verification/Proxy.thy ===== *)
theory Proxy
  imports Prelude "HOL-Library.Sublist"
begin

text \<open>
  \<^verbatim>\<open>proxy/main.c\<close>, the parts that run in one thread: the C strings, the extraction of the host
  from a request, the connection to the remote server, the relay loop and the handler of a
  client. The loop of \<open>main\<close> that starts the handlers is in \<open>ProxyServer\<close>.

  The operating system is a parameter, a record of functions. Each is given the number of
  the call, so its results are arbitrary from call to call.
\<close>

section \<open>C strings\<close>

text \<open>
  The string that starts at an array of characters ends before its first NUL. A pointer into a
  string is the rest of the string from there.
\<close>

definition cstr :: "string \<Rightarrow> string" where
  "cstr bs = takeWhile (\<lambda>c. c \<noteq> CHR 0x00) bs"

fun strstr :: "string \<Rightarrow> string \<Rightarrow> string option" where
  "strstr [] needle = (if needle = [] then Some [] else None)"
| "strstr (c # s) needle = (if prefix needle (c # s) then Some (c # s) else strstr s needle)"

text \<open>\<open>strpbrk\<close>, and \<open>strchr\<close> for one character: how many characters come before the first match.\<close>

fun strpbrk :: "string \<Rightarrow> string \<Rightarrow> nat option" where
  "strpbrk [] accept = None"
| "strpbrk (c # s) accept = (if c \<in> set accept then Some 0 else map_option Suc (strpbrk s accept))"

definition strchr :: "string \<Rightarrow> char \<Rightarrow> nat option" where
  "strchr s c = strpbrk s [c]"

text \<open>
  \<open>printf\<close> with a format and no further argument: \<open>%%\<close> prints a percent sign, any other
  conversion of the C standard reads an argument that was not passed. (\<open>%m\<close>, which glibc adds and
  which takes no argument, is not in the standard; it is a fault here.)
\<close>

fun printf_plain :: "string \<Rightarrow> fault + string" where
  "printf_plain [] = Inr []"
| "printf_plain [c] = (if c = CHR ''%'' then Inl Uninitialised else Inr [c])"
| "printf_plain (c # d # s) =
     (if c = CHR ''%'' then
        (if d = CHR ''%'' then bindr (printf_plain s) (\<lambda>out. Inr (c # out)) else Inl Uninitialised)
      else bindr (printf_plain (d # s)) (\<lambda>out. Inr (c # out)))"

section \<open>get_host\<close>

definition HOST_LEN :: nat where
  "HOST_LEN = 1024"

definition BUFFER_SIZE :: nat where
  "BUFFER_SIZE = 4096"

text \<open>
  The result is None for -1; otherwise the host that is written to the array of \<open>HOST_LEN\<close>
  characters, together with its terminating NUL.
\<close>

definition get_host :: "string \<Rightarrow> int \<Rightarrow> fault + string option" where
  "get_host request before_host_flag =
     (let found =
        (if before_host_flag = 0 then
           (case strstr request ''http://'' of
              None \<Rightarrow> None
            | Some p \<Rightarrow> let host_start = drop (length ''http://'') p
                        in Some (host_start, strchr host_start (CHR ''/'')))
         else
           (case strstr request ''Host:'' of
              None \<Rightarrow> None
            | Some p \<Rightarrow> let host_start = drop (length ''Host:'') p
                        in Some (host_start, strpbrk host_start [CHR '' '', CHR 0x0D, CHR 0x0A, CHR '':''])))
      in case found of
           None \<Rightarrow> Inr None
         | Some (host_start, host_end) \<Rightarrow>
             (case host_end of
                None \<Rightarrow> Inr None
              | Some host_length \<Rightarrow>
                  if host_length \<le> 0 then Inr None
                  else if HOST_LEN \<le> host_length then Inl OutOfBounds
                  else Inr (Some (take host_length host_start))))"

section \<open>The operating system\<close>

text \<open>
  \<open>p_open\<close> are the open descriptors, \<open>p_infos\<close> the number of address lists from \<open>getaddrinfo\<close>
  that are not freed, \<open>p_blocks\<close> the blocks from \<open>calloc\<close> with their contents (followed by
  NULs), \<open>p_sent\<close> what was written to which descriptor.
\<close>

record proxy =
  p_calls :: nat
  p_open :: "int set"
  p_infos :: nat
  p_blocks :: "string heap"
  p_sent :: "(int \<times> string) list"

record os =
  os_socket :: "nat \<Rightarrow> int set \<Rightarrow> int"
  os_bind :: "nat \<Rightarrow> int \<Rightarrow> int \<Rightarrow> int"
  os_listen :: "nat \<Rightarrow> int \<Rightarrow> int"
  os_accept :: "nat \<Rightarrow> int set \<Rightarrow> int"
  os_recv :: "nat \<Rightarrow> int \<Rightarrow> string option"
  os_getaddrinfo :: "nat \<Rightarrow> string \<Rightarrow> int"
  os_connect :: "nat \<Rightarrow> int \<Rightarrow> int"
  os_read :: "nat \<Rightarrow> int \<Rightarrow> string option"
  os_write :: "nat \<Rightarrow> int \<Rightarrow> string \<Rightarrow> int"
  os_calloc :: "nat \<Rightarrow> string heap \<Rightarrow> ptr"
  os_thread :: "nat \<Rightarrow> int"

text \<open>
  The documented behaviour: a new descriptor was not open and is not negative, \<open>recv\<close> and \<open>read\<close>
  deliver no more than was asked for, \<open>write\<close> takes part of what it is given or fails with -1,
  \<open>calloc\<close> returns a new block or NULL.
\<close>

definition os_ok :: "os \<Rightarrow> bool" where
  "os_ok os \<longleftrightarrow>
     (\<forall>n fds. os_socket os n fds = - 1 \<or> 0 \<le> os_socket os n fds \<and> os_socket os n fds \<notin> fds) \<and>
     (\<forall>n fds. os_accept os n fds = - 1 \<or> 0 \<le> os_accept os n fds \<and> os_accept os n fds \<notin> fds) \<and>
     (\<forall>n fd bs. os_recv os n fd = Some bs \<longrightarrow> length bs \<le> BUFFER_SIZE) \<and>
     (\<forall>n fd bs. os_read os n fd = Some bs \<longrightarrow> length bs \<le> BUFFER_SIZE) \<and>
     (\<forall>n fd bs. - 1 \<le> os_write os n fd bs \<and> os_write os n fd bs \<le> int (length bs)) \<and>
     (\<forall>n h a. os_calloc os n h = Some a \<longrightarrow> h a = None)"

definition tick :: "proxy \<Rightarrow> proxy" where
  "tick s = s\<lparr>p_calls := Suc (p_calls s)\<rparr>"

definition opened :: "int \<Rightarrow> proxy \<Rightarrow> proxy" where
  "opened fd s = s\<lparr>p_open := insert fd (p_open s)\<rparr>"

definition close_fd :: "int \<Rightarrow> proxy \<Rightarrow> proxy" where
  "close_fd fd s = s\<lparr>p_open := p_open s - {fd}\<rparr>"

definition free_block :: "ptr \<Rightarrow> proxy \<Rightarrow> fault + proxy" where
  "free_block p s = bindr (free (p_blocks s) p) (\<lambda>h. Inr (s\<lparr>p_blocks := h\<rparr>))"

text \<open>\<open>write\<close>: the result, and the bytes that were taken.\<close>

definition write_fd :: "os \<Rightarrow> int \<Rightarrow> string \<Rightarrow> proxy \<Rightarrow> int \<times> proxy" where
  "write_fd os fd bs s =
     (let r = os_write os (p_calls s) fd bs; s = tick s
      in (r, if r = - 1 then s else s\<lparr>p_sent := p_sent s @ [(fd, take (nat r) bs)]\<rparr>))"

text \<open>\<open>calloc(BUFFER_SIZE, sizeof(char))\<close>\<close>

definition calloc_block :: "os \<Rightarrow> proxy \<Rightarrow> ptr \<times> proxy" where
  "calloc_block os s =
     (let p = os_calloc os (p_calls s) (p_blocks s); s = tick s
      in (p, case p of None \<Rightarrow> s | Some a \<Rightarrow> s\<lparr>p_blocks := (p_blocks s)(a \<mapsto> [])\<rparr>))"

section \<open>Sockets\<close>

text \<open>\<open>htons(port)\<close> takes the low 16 bits of the port.\<close>

definition create_server_socket :: "os \<Rightarrow> int \<Rightarrow> proxy \<Rightarrow> int \<times> proxy" where
  "create_server_socket os port s =
     (let server_socket = os_socket os (p_calls s) (p_open s); s = tick s in
      if server_socket = - 1 then (- 1, s)
      else
        let s = opened server_socket s;
            r = os_bind os (p_calls s) server_socket (port mod 2 ^ 16); s = tick s in
        if r = - 1 then (- 1, close_fd server_socket s)
        else
          let r = os_listen os (p_calls s) server_socket; s = tick s in
          if r = - 1 then (- 1, close_fd server_socket s) else (server_socket, s))"

text \<open>
  \<open>recv\<close> fills at most the whole block; the NUL that \<open>read_request\<close> writes behind the bytes may
  then be outside. With NULL from \<open>calloc\<close>, \<open>recv\<close> has nowhere to put the bytes and fails.
\<close>

definition read_request :: "os \<Rightarrow> int \<Rightarrow> ptr \<Rightarrow> proxy \<Rightarrow> fault + int \<times> proxy" where
  "read_request os client_socket request s =
     (case os_recv os (p_calls s) client_socket of
        None \<Rightarrow> Inr (- 1, tick s)
      | Some bs \<Rightarrow>
          if bs = [] then Inr (- 1, tick s)
          else if request = None then Inr (- 1, tick s)
          else
            bindr (store (p_blocks s) request (\<lambda>_. bs)) (\<lambda>h.
            if BUFFER_SIZE \<le> length bs then Inl OutOfBounds
            else Inr (0, (tick s)\<lparr>p_blocks := h\<rparr>)))"

definition connect_to_remote :: "os \<Rightarrow> string \<Rightarrow> proxy \<Rightarrow> int \<times> proxy" where
  "connect_to_remote os host s =
     (let status = os_getaddrinfo os (p_calls s) host; s = tick s in
      if status \<noteq> 0 then (- 1, s)
      else
        let s = s\<lparr>p_infos := p_infos s + 1\<rparr>;
            dest_socket = os_socket os (p_calls s) (p_open s); s = tick s in
        if dest_socket = - 1 then (- 1, s\<lparr>p_infos := p_infos s - 1\<rparr>)
        else
          let s = opened dest_socket s; r = os_connect os (p_calls s) dest_socket; s = tick s in
          if r = - 1 then (- 1, (close_fd dest_socket s)\<lparr>p_infos := p_infos s - 1\<rparr>)
          else (dest_socket, s\<lparr>p_infos := p_infos s - 1\<rparr>))"

section \<open>The relay and the handler\<close>

text \<open>
  The loop of \<open>client_handler\<close> that copies the answer. It may not end when the remote server never
  stops sending. The result tells whether it left at the end of the input (or a read error), or
  because a write failed. Only the result -1 of \<open>write\<close> is an error: bytes that it did not take
  are dropped.
\<close>

partial_function (option) relay :: "os \<Rightarrow> int \<Rightarrow> int \<Rightarrow> addr \<Rightarrow> proxy \<Rightarrow> (bool \<times> proxy) option" where
  "relay os dest_socket client_socket buffer s =
     (case os_read os (p_calls s) dest_socket of
        None \<Rightarrow> Some (True, tick s)
      | Some bs \<Rightarrow>
          if bs = [] then Some (True, tick s)
          else
            (let s = (tick s)\<lparr>p_blocks := (p_blocks s)(buffer \<mapsto> bs)\<rparr>;
                 (bytes_sent, s) = write_fd os client_socket bs s
             in if bytes_sent = - 1 then Some (False, s)
                else relay os dest_socket client_socket buffer s))"

text \<open>
  \<open>client_handler\<close> after the connection is made. When \<open>calloc\<close> fails, \<open>read\<close> is called with NULL
  and fails.
\<close>

definition serve :: "os \<Rightarrow> int \<Rightarrow> addr \<Rightarrow> int \<Rightarrow> string \<Rightarrow> proxy \<Rightarrow> (fault + proxy) option" where
  "serve os client_socket request_temp dest_socket request s =
     (let (bytes_sent, s) = write_fd os dest_socket request s in
      if bytes_sent = - 1 then Some (Inr (close_fd dest_socket (close_fd client_socket s)))
      else
        let (buffer, s) = calloc_block os s in
        case (case buffer of None \<Rightarrow> Some (True, tick s)
                           | Some b \<Rightarrow> relay os dest_socket client_socket b s) of
          None \<Rightarrow> None
        | Some (ended, s) \<Rightarrow>
            (let s = close_fd dest_socket (close_fd client_socket s) in
             Some (bindr (free_block buffer s) (\<lambda>s.
               if ended then free_block (Some request_temp) s else Inr s))))"

text \<open>The host that the handler looks for: that of an absolute address, else that of the header.\<close>

definition find_host :: "string \<Rightarrow> fault + string option" where
  "find_host request =
     bindr (get_host request 0) (\<lambda>host. if host \<noteq> None then Inr host else get_host request 1)"

definition client_handler :: "os \<Rightarrow> int \<Rightarrow> addr \<Rightarrow> proxy \<Rightarrow> (fault + proxy) option" where
  "client_handler os client_socket request_temp s =
     (case deref (p_blocks s) (Some request_temp) of
        Inl e \<Rightarrow> Some (Inl e)
      | Inr bytes \<Rightarrow>
          (case printf_plain (cstr bytes) of
             Inl e \<Rightarrow> Some (Inl e)
           | Inr out \<Rightarrow>
               if BUFFER_SIZE \<le> length (cstr bytes) then Some (Inr s)
               else
                 (case find_host (cstr bytes) of
                    Inl e \<Rightarrow> Some (Inl e)
                  | Inr None \<Rightarrow> Some (Inr s)
                  | Inr (Some host) \<Rightarrow>
                      (case connect_to_remote os host s of
                         (dest_socket, s) \<Rightarrow>
                           if dest_socket = - 1 then Some (Inr (close_fd client_socket s))
                           else serve os client_socket request_temp dest_socket (cstr bytes) s))))"

section \<open>What get_host finds\<close>

lemma strstr_None: "strstr s needle = None \<longleftrightarrow> (\<forall>pre post. s \<noteq> pre @ needle @ post)"
proof (induction s)
  case Nil
  then show ?case by auto
next
  case (Cons c s)
  have "(\<forall>pre post. c # s \<noteq> pre @ needle @ post) \<longleftrightarrow>
      \<not> prefix needle (c # s) \<and> (\<forall>pre post. s \<noteq> pre @ needle @ post)"
    unfolding prefix_def by (auto simp: Cons_eq_append_conv)
  with Cons show ?case by auto
qed

lemma strstr_Some:
  "strstr s needle = Some t \<longleftrightarrow>
     (\<exists>pre. s = pre @ t \<and> prefix needle t \<and> (\<forall>pre' post. s = pre' @ needle @ post \<longrightarrow> length pre \<le> length pre'))"
proof (induction s arbitrary: t)
  case Nil
  then show ?case by auto
next
  case (Cons c s)
  show ?case
  proof (cases "prefix needle (c # s)")
    case True
    then obtain post where post: "c # s = needle @ post" by (auto simp: prefix_def)
    have hit: "strstr (c # s) needle = Some (c # s)" using True by simp
    show ?thesis
    proof
      assume "strstr (c # s) needle = Some t"
      with hit True show "\<exists>pre. c # s = pre @ t \<and> prefix needle t \<and>
          (\<forall>pre' post. c # s = pre' @ needle @ post \<longrightarrow> length pre \<le> length pre')"
        by (intro exI [of _ "[]"]) simp
    next
      assume "\<exists>pre. c # s = pre @ t \<and> prefix needle t \<and>
          (\<forall>pre' post. c # s = pre' @ needle @ post \<longrightarrow> length pre \<le> length pre')"
      then obtain pre where pre: "c # s = pre @ t"
          "\<forall>pre' post. c # s = pre' @ needle @ post \<longrightarrow> length pre \<le> length pre'" by blast
      have "length pre \<le> length ([] :: string)" using pre(2) post by (metis append_Nil)
      with pre(1) hit show "strstr (c # s) needle = Some t" by simp
    qed
  next
    case False
    have first: "pre \<noteq> []" if "c # s = pre @ t" "prefix needle t" for pre t
      using that False by auto
    have shift: "(\<forall>pre' post. c # s = pre' @ needle @ post \<longrightarrow> Suc n \<le> length pre') \<longleftrightarrow>
        (\<forall>pre' post. s = pre' @ needle @ post \<longrightarrow> n \<le> length pre')" for n
    proof (intro iffI allI impI)
      fix pre' post
      assume "\<forall>pre' post. c # s = pre' @ needle @ post \<longrightarrow> Suc n \<le> length pre'" "s = pre' @ needle @ post"
      then have "Suc n \<le> length (c # pre')" by (metis append_Cons)
      then show "n \<le> length pre'" by simp
    next
      fix pre' post
      assume *: "\<forall>pre' post. s = pre' @ needle @ post \<longrightarrow> n \<le> length pre'" "c # s = pre' @ needle @ post"
      with False obtain d pre1 where "pre' = d # pre1" by (cases pre') (auto simp: prefix_def)
      with * show "Suc n \<le> length pre'" by auto
    qed
    show ?thesis
    proof
      assume "strstr (c # s) needle = Some t"
      with False Cons [of t] obtain pre where
        "s = pre @ t" "prefix needle t" "\<forall>pre' post. s = pre' @ needle @ post \<longrightarrow> length pre \<le> length pre'" by auto
      with shift [of "length pre"] show "\<exists>pre. c # s = pre @ t \<and> prefix needle t \<and>
          (\<forall>pre' post. c # s = pre' @ needle @ post \<longrightarrow> length pre \<le> length pre')"
        by (intro exI [of _ "c # pre"]) auto
    next
      assume "\<exists>pre. c # s = pre @ t \<and> prefix needle t \<and>
          (\<forall>pre' post. c # s = pre' @ needle @ post \<longrightarrow> length pre \<le> length pre')"
      then obtain pre where pre: "c # s = pre @ t" "prefix needle t"
          "\<forall>pre' post. c # s = pre' @ needle @ post \<longrightarrow> length pre \<le> length pre'" by blast
      from first [OF pre(1,2)] pre(1) obtain pre1 where p: "pre = c # pre1" "s = pre1 @ t" by (cases pre) auto
      with shift [of "length pre1"] pre(3) have "\<forall>pre' post. s = pre' @ needle @ post \<longrightarrow> length pre1 \<le> length pre'"
        by auto
      with p(2) pre(2) Cons [of t] False show "strstr (c # s) needle = Some t" by auto
    qed
  qed
qed

lemma strpbrk_Some:
  "strpbrk s accept = Some n \<longleftrightarrow>
     (\<exists>h c post. s = h @ c # post \<and> length h = n \<and> c \<in> set accept \<and> set h \<inter> set accept = {})"
proof (induction s arbitrary: n)
  case Nil
  then show ?case by simp
next
  case (Cons d s)
  show ?case
  proof (cases "d \<in> set accept")
    case True
    then show ?thesis by (auto simp: Cons_eq_append_conv)
  next
    case False
    then have "strpbrk (d # s) accept = Some n \<longleftrightarrow> (\<exists>m. n = Suc m \<and> strpbrk s accept = Some m)"
      by (auto simp: eq_commute [of n])
    also have "\<dots> \<longleftrightarrow> (\<exists>m h c post. n = Suc m \<and> s = h @ c # post \<and> length h = m \<and> c \<in> set accept \<and>
        set h \<inter> set accept = {})"
      unfolding Cons by blast
    also have "\<dots> \<longleftrightarrow> (\<exists>h c post. d # s = h @ c # post \<and> length h = n \<and> c \<in> set accept \<and>
        set h \<inter> set accept = {})"
    proof
      assume "\<exists>m h c post. n = Suc m \<and> s = h @ c # post \<and> length h = m \<and> c \<in> set accept \<and>
        set h \<inter> set accept = {}"
      then obtain h c post where "n = Suc (length h)" "s = h @ c # post" "c \<in> set accept"
          "set h \<inter> set accept = {}" by blast
      with False show "\<exists>h c post. d # s = h @ c # post \<and> length h = n \<and> c \<in> set accept \<and>
        set h \<inter> set accept = {}"
        by (intro exI [of _ "d # h"] exI [of _ c] exI [of _ post]) simp
    next
      assume "\<exists>h c post. d # s = h @ c # post \<and> length h = n \<and> c \<in> set accept \<and> set h \<inter> set accept = {}"
      then obtain h c post where h: "d # s = h @ c # post" "length h = n" "c \<in> set accept" "set h \<inter> set accept = {}"
        by blast
      with False obtain h' where "h = d # h'" by (cases h) auto
      with h show "\<exists>m h c post. n = Suc m \<and> s = h @ c # post \<and> length h = m \<and> c \<in> set accept \<and>
        set h \<inter> set accept = {}" by auto
    qed
    finally show ?thesis .
  qed
qed

text \<open>
  \<open>host_at request key ends h\<close>: the first occurrence of \<open>key\<close> is followed by \<open>h\<close>, up to the first of
  the characters \<open>ends\<close>.
\<close>

definition host_at :: "string \<Rightarrow> string \<Rightarrow> string \<Rightarrow> string \<Rightarrow> bool" where
  "host_at request key ends h \<longleftrightarrow>
     (\<exists>pre c post. request = pre @ key @ h @ c # post \<and> c \<in> set ends \<and> set h \<inter> set ends = {} \<and>
       (\<forall>pre' post'. request = pre' @ key @ post' \<longrightarrow> length pre \<le> length pre'))"

lemma host_at_strstr:
  "host_at request key ends h \<longleftrightarrow>
     (\<exists>p n. strstr request key = Some p \<and> strpbrk (drop (length key) p) ends = Some n \<and>
        take n (drop (length key) p) = h)"
proof
  assume "host_at request key ends h"
  then obtain pre c post where r: "request = pre @ key @ h @ c # post" "c \<in> set ends" "set h \<inter> set ends = {}"
      "\<forall>pre' post'. request = pre' @ key @ post' \<longrightarrow> length pre \<le> length pre'"
    unfolding host_at_def by blast
  have "strstr request key = Some (key @ h @ c # post)"
    unfolding strstr_Some using r by (intro exI [of _ pre]) auto
  moreover have "strpbrk (h @ c # post) ends = Some (length h)"
    unfolding strpbrk_Some using r by blast
  ultimately show "\<exists>p n. strstr request key = Some p \<and> strpbrk (drop (length key) p) ends = Some n \<and>
      take n (drop (length key) p) = h" by auto
next
  assume "\<exists>p n. strstr request key = Some p \<and> strpbrk (drop (length key) p) ends = Some n \<and>
      take n (drop (length key) p) = h"
  then obtain p n where p: "strstr request key = Some p" and n: "strpbrk (drop (length key) p) ends = Some n"
      and h: "take n (drop (length key) p) = h" by blast
  from p obtain pre post where pre: "request = pre @ p" "p = key @ post"
      "\<forall>pre' post. request = pre' @ key @ post \<longrightarrow> length pre \<le> length pre'"
    unfolding strstr_Some prefix_def by blast
  from n pre(2) obtain h' c post' where "post = h' @ c # post'" "length h' = n" "c \<in> set ends" "set h' \<inter> set ends = {}"
    unfolding strpbrk_Some by auto
  with pre h show "host_at request key ends h" unfolding host_at_def by auto
qed

lemma host_at_unique: "host_at request key ends h \<Longrightarrow> host_at request key ends h' \<Longrightarrow> h = h'"
  by (auto simp: host_at_strstr)

text \<open>The key and the end characters of the two searches.\<close>

definition host_key :: "int \<Rightarrow> string" where
  "host_key flag = (if flag = 0 then ''http://'' else ''Host:'')"

definition host_ends :: "int \<Rightarrow> string" where
  "host_ends flag = (if flag = 0 then ''/'' else [CHR '' '', CHR 0x0D, CHR 0x0A, CHR '':''])"

lemma get_host_cases:
  "get_host request flag =
     (if \<exists>h. host_at request (host_key flag) (host_ends flag) h then
        (let h = (case strstr request (host_key flag) of Some p \<Rightarrow>
                    (case strpbrk (drop (length (host_key flag)) p) (host_ends flag) of
                       Some n \<Rightarrow> take n (drop (length (host_key flag)) p)))
         in if h = [] then Inr None else if HOST_LEN \<le> length h then Inl OutOfBounds else Inr (Some h))
      else Inr None)"
proof -
  have len: "n \<le> length s" if "strpbrk s ends = Some n" for s ends n
    using that by (auto simp: strpbrk_Some)
  have pos: "n = 0 \<or> drop m s \<noteq> [] \<and> min (length s - m) n = n" if "strpbrk (drop m s) ends = Some n" for s m ends n
    using len [OF that] by auto
  show ?thesis
    unfolding host_at_strstr
    by (auto simp: get_host_def host_key_def host_ends_def strchr_def Let_def split: option.splits dest: len pos)
qed

text \<open>
  Property C24. \<open>get_host\<close> finds exactly the text between the first occurrence of its key and the
  next end character, for both kinds of request: it returns that text when it is not empty and
  fits, it overruns the array of the host exactly when the text has \<open>HOST_LEN\<close> characters or
  more, and it returns -1 in every other case.
\<close>

theorem get_host_correct:
  "(get_host request flag = Inr (Some h) \<longleftrightarrow>
      host_at request (host_key flag) (host_ends flag) h \<and> h \<noteq> [] \<and> length h < HOST_LEN) \<and>
   (get_host request flag = Inl e \<longleftrightarrow>
      e = OutOfBounds \<and> (\<exists>h. host_at request (host_key flag) (host_ends flag) h \<and> HOST_LEN \<le> length h)) \<and>
   (get_host request flag = Inr None \<longleftrightarrow>
      \<not> (\<exists>h. host_at request (host_key flag) (host_ends flag) h \<and> h \<noteq> []))"
proof (cases "\<exists>h. host_at request (host_key flag) (host_ends flag) h")
  case False
  then have "get_host request flag = Inr None" by (simp only: get_host_cases if_False)
  with False show ?thesis by auto
next
  case True
  then obtain g where g: "host_at request (host_key flag) (host_ends flag) g" ..
  then have u: "host_at request (host_key flag) (host_ends flag) h \<longleftrightarrow> h = g" for h
    by (blast dest: host_at_unique)
  have "get_host request flag =
      (if g = [] then Inr None else if HOST_LEN \<le> length g then Inl OutOfBounds else Inr (Some g))"
    using True g by (simp only: get_host_cases if_True) (auto simp: host_at_strstr Let_def)
  then show ?thesis unfolding u by (auto simp: HOST_LEN_def)
qed

section \<open>Sockets are not leaked\<close>

text \<open>What a caller owns beside the counter of calls: descriptors, address lists and blocks.\<close>

definition same_resources :: "proxy \<Rightarrow> proxy \<Rightarrow> bool" where
  "same_resources s s' \<longleftrightarrow> p_open s' = p_open s \<and> p_infos s' = p_infos s \<and> p_blocks s' = p_blocks s \<and>
     p_sent s' = p_sent s"

lemmas resource_defs = same_resources_def tick_def opened_def close_fd_def Let_def

lemma connect_cases:
  assumes "os_ok os"
  obtains s' where "connect_to_remote os host s = (- 1, s')" "same_resources s s'"
    | fd s' where "connect_to_remote os host s = (fd, s')" "fd \<noteq> - 1" "fd \<notin> p_open s"
        "p_open s' = insert fd (p_open s)" "p_infos s' = p_infos s" "p_blocks s' = p_blocks s" "p_sent s' = p_sent s"
proof -
  let ?fd = "os_socket os (Suc (p_calls s)) (p_open s)"
  have new: "?fd = - 1 \<or> 0 \<le> ?fd \<and> ?fd \<notin> p_open s" using assms unfolding os_ok_def by blast
  show thesis
  proof (cases "os_getaddrinfo os (p_calls s) host \<noteq> 0 \<or> ?fd = - 1 \<or>
      os_connect os (Suc (Suc (p_calls s))) ?fd = - 1")
    case True
    with new show thesis
      by (intro that(1) [of "snd (connect_to_remote os host s)"])
        (auto simp: connect_to_remote_def resource_defs)
  next
    case False
    with new show thesis
      by (intro that(2) [of ?fd "snd (connect_to_remote os host s)"])
        (auto simp: connect_to_remote_def resource_defs)
  qed
qed

lemma server_socket_cases:
  assumes "os_ok os"
  shows "(\<exists>s'. create_server_socket os port s = (- 1, s') \<and> same_resources s s') \<or>
    (\<exists>fd s'. create_server_socket os port s = (fd, s') \<and> 0 \<le> fd \<and> fd \<notin> p_open s \<and>
       same_resources (opened fd s) s')"
proof -
  let ?fd = "os_socket os (p_calls s) (p_open s)"
  have "?fd = - 1 \<or> 0 \<le> ?fd \<and> ?fd \<notin> p_open s" using assms unfolding os_ok_def by blast
  then show ?thesis by (auto simp: create_server_socket_def resource_defs)
qed

section \<open>The relay\<close>

lemma write_fd_resources:
  "write_fd os fd bs s = (r, s') \<Longrightarrow>
     p_open s' = p_open s \<and> p_infos s' = p_infos s \<and> p_blocks s' = p_blocks s"
  by (auto simp: write_fd_def tick_def Let_def split: if_splits)

lemma relay_resources:
  assumes "relay os dest client buffer s = Some y"
  shows "p_open (snd y) = p_open s \<and> p_infos (snd y) = p_infos s \<and>
    (\<forall>a. a \<noteq> buffer \<longrightarrow> p_blocks (snd y) a = p_blocks s a) \<and>
    (p_blocks s buffer \<noteq> None \<longrightarrow> p_blocks (snd y) buffer \<noteq> None)"
  using assms
proof (induction os dest client buffer s y rule: relay.raw_induct [rotated, consumes 1])
  case (1 f os dest client buffer s y)
  show ?case
  proof (cases "os_read os (p_calls s) dest")
    case None
    with 1 show ?thesis by (auto simp: tick_def)
  next
    case (Some bs)
    let ?s = "(tick s)\<lparr>p_blocks := (p_blocks s)(buffer \<mapsto> bs)\<rparr>"
    obtain r s1 where w: "write_fd os client bs ?s = (r, s1)" by force
    have s1: "p_open s1 = p_open s \<and> p_infos s1 = p_infos s \<and> p_blocks s1 = (p_blocks s)(buffer \<mapsto> bs)"
      using write_fd_resources [OF w] by (simp add: tick_def)
    consider "bs = []" "y = (True, tick s)" | "bs \<noteq> []" "r = - 1" "y = (False, s1)"
      | "bs \<noteq> []" "r \<noteq> - 1" "f os dest client buffer s1 = Some y"
      using 1(2) Some w by (cases "bs = []"; cases "r = - 1") (auto simp: Let_def)
    then show ?thesis
    proof cases
      case 3
      from 1(1) [OF this(3)] s1 show ?thesis by simp
    qed (use s1 in \<open>auto simp: tick_def\<close>)
  qed
qed

text \<open>
  \<open>sends os fd n chunks\<close>: the reads from \<open>fd\<close> at the calls \<open>n\<close>, \<open>n + 2\<close>, ... (a write lies
  between two of them) deliver \<open>chunks\<close> and then the end of the input or an error.
\<close>

fun sends :: "os \<Rightarrow> int \<Rightarrow> nat \<Rightarrow> string list \<Rightarrow> bool" where
  "sends os fd n [] = (os_read os n fd = None \<or> os_read os n fd = Some [])"
| "sends os fd n (c # cs) = (os_read os n fd = Some c \<and> c \<noteq> [] \<and> sends os fd (n + 2) cs)"

text \<open>What of the chunks is taken by the writes that follow the reads.\<close>

fun taken :: "os \<Rightarrow> int \<Rightarrow> nat \<Rightarrow> string list \<Rightarrow> string list" where
  "taken os fd n [] = []"
| "taken os fd n (c # cs) = take (nat (os_write os (n + 1) fd c)) c # taken os fd (n + 2) cs"

lemma relay_sends:
  assumes "sends os dest (p_calls s) chunks" and "\<And>n bs. os_write os n client bs \<noteq> - 1"
  shows "\<exists>s'. relay os dest client buffer s = Some (True, s') \<and>
    p_sent s' = p_sent s @ map (Pair client) (taken os client (p_calls s) chunks)"
  using assms(1)
proof (induction chunks arbitrary: s)
  case Nil
  then show ?case by (auto simp: relay.simps [of os dest client buffer s] tick_def)
next
  case (Cons c cs)
  let ?s = "(tick s)\<lparr>p_blocks := (p_blocks s)(buffer \<mapsto> c)\<rparr>"
  let ?s1 = "snd (write_fd os client c ?s)"
  have calls: "p_calls ?s1 = p_calls s + 2"
    and sent: "p_sent ?s1 = p_sent s @ [(client, take (nat (os_write os (p_calls s + 1) client c)) c)]"
    using assms(2) by (simp_all add: write_fd_def tick_def Let_def)
  from Cons.prems calls have "sends os dest (p_calls ?s1) cs" by simp
  from Cons.IH [OF this] obtain s' where s': "relay os dest client buffer ?s1 = Some (True, s')"
      "p_sent s' = p_sent ?s1 @ map (Pair client) (taken os client (p_calls ?s1) cs)" by blast
  have "fst (write_fd os client c ?s) \<noteq> - 1" using assms(2) by (simp add: write_fd_def Let_def)
  then have "relay os dest client buffer s = relay os dest client buffer ?s1"
    using Cons.prems by (simp add: relay.simps [of os dest client buffer s] Let_def split_beta)
  with s' calls sent show ?case by simp
qed

lemma taken_complete: "(\<And>n bs. os_write os n fd bs = int (length bs)) \<Longrightarrow> taken os fd n chunks = chunks"
  by (induction chunks arbitrary: n) simp_all

section \<open>The handler\<close>

lemma free_block_ok:
  "p_blocks s a \<noteq> None \<Longrightarrow> free_block (Some a) s = Inr (s\<lparr>p_blocks := (p_blocks s)(a := None)\<rparr>)"
  by (auto simp: free_block_def)

lemma free_block_null [simp]: "free_block None s = Inr s"
  by (simp add: free_block_def)

text \<open>
  Once connected, the handler closes both sockets and frees its buffer; the request is freed
  only when the relay came to its end.
\<close>

lemma serve_cases:
  assumes ok: "os_ok os" and req: "p_blocks s req \<noteq> None"
  shows "serve os client req dest text s = None \<or>
    (\<exists>s'. serve os client req dest text s = Some (Inr s') \<and> p_open s' = p_open s - {client, dest} \<and>
       p_infos s' = p_infos s \<and> (p_blocks s' = p_blocks s \<or> p_blocks s' = (p_blocks s)(req := None)))"
proof -
  obtain r s1 where w: "write_fd os dest text s = (r, s1)" by force
  note s1 = write_fd_resources [OF w]
  show ?thesis
  proof (cases "r = - 1")
    case True
    with w s1 show ?thesis by (auto simp: serve_def close_fd_def)
  next
    case False
    let ?s2 = "snd (calloc_block os s1)"
    show ?thesis
    proof (cases "fst (calloc_block os s1)")
      case None
      then have "serve os client req dest text s =
          Some (free_block (Some req) (close_fd dest (close_fd client (tick ?s2))))"
        using w False by (simp add: serve_def split_beta)
      moreover have "p_open ?s2 = p_open s \<and> p_infos ?s2 = p_infos s \<and> p_blocks ?s2 = p_blocks s"
        using None s1 by (simp add: calloc_block_def tick_def Let_def)
      ultimately show ?thesis using req by (auto simp: free_block_ok close_fd_def tick_def)
    next
      case (Some b)
      then have b: "p_blocks s b = None" "p_open ?s2 = p_open s" "p_infos ?s2 = p_infos s"
          "p_blocks ?s2 = (p_blocks s)(b \<mapsto> [])"
        using ok s1 by (auto simp: calloc_block_def tick_def Let_def os_ok_def)
      show ?thesis
      proof (cases "relay os dest client b ?s2")
        case None
        with w False Some show ?thesis by (simp add: serve_def split_beta)
      next
        case (Some y)
        let ?s3 = "snd y"
        from relay_resources [OF Some] b have s3: "p_open ?s3 = p_open s" "p_infos ?s3 = p_infos s"
            "p_blocks ?s3 b \<noteq> None" "\<forall>a. a \<noteq> b \<longrightarrow> p_blocks ?s3 a = p_blocks s a" by auto
        then have blocks: "(p_blocks ?s3)(b := None) = p_blocks s" using b(1) by auto
        let ?s4 = "(close_fd dest (close_fd client ?s3))\<lparr>p_blocks := p_blocks s\<rparr>"
        have "free_block (Some b) (close_fd dest (close_fd client ?s3)) = Inr ?s4"
          using s3(3) blocks by (simp add: free_block_ok close_fd_def)
        then have "serve os client req dest text s =
            Some (if fst y then free_block (Some req) ?s4 else Inr ?s4)"
          using w False \<open>fst (calloc_block os s1) = Some b\<close> Some by (simp add: serve_def split_beta)
        with req s3 show ?thesis by (auto simp: free_block_ok close_fd_def)
      qed
    qed
  qed
qed

lemma handler_unfold:
  assumes "p_blocks s req = Some bytes" and "length bytes < BUFFER_SIZE"
  shows "client_handler os client req s =
    (case printf_plain (cstr bytes) of
       Inl e \<Rightarrow> Some (Inl e)
     | Inr _ \<Rightarrow>
         (case find_host (cstr bytes) of
            Inl e \<Rightarrow> Some (Inl e)
          | Inr None \<Rightarrow> Some (Inr s)
          | Inr (Some host) \<Rightarrow>
              (case connect_to_remote os host s of
                 (dest, s) \<Rightarrow> if dest = - 1 then Some (Inr (close_fd client s))
                            else serve os client req dest (cstr bytes) s)))"
proof -
  have "length (cstr bytes) < BUFFER_SIZE"
    using assms(2) length_takeWhile_le [of "\<lambda>c. c \<noteq> CHR 0x00" bytes] by (simp add: cstr_def)
  then show ?thesis using assms
    by (simp add: client_handler_def)
qed

lemma handler_outcome:
  assumes "os_ok os" and "p_blocks s req = Some bytes" and "length bytes < BUFFER_SIZE" and "client \<in> p_open s"
  shows "(\<forall>e. client_handler os client req s = Some (Inl e) \<longrightarrow>
      printf_plain (cstr bytes) = Inl e \<or> find_host (cstr bytes) = Inl e) \<and>
    (\<forall>s'. client_handler os client req s = Some (Inr s') \<longrightarrow>
      p_infos s' = p_infos s \<and>
      (if find_host (cstr bytes) = Inr None then s' = s else p_open s' = p_open s - {client}) \<and>
      (p_blocks s' = p_blocks s \<or> p_blocks s' = (p_blocks s)(req := None)))"
proof -
  note unfold = handler_unfold [OF assms(2,3), of os client]
  show ?thesis
  proof (cases "printf_plain (cstr bytes)")
    case (Inl e)
    with unfold show ?thesis by simp
  next
    case (Inr out)
    show ?thesis
    proof (cases "find_host (cstr bytes)")
      case (Inl e)
      with unfold Inr show ?thesis by simp
    next
      case host: (Inr h)
      show ?thesis
      proof (cases h)
        case None
        with unfold Inr host show ?thesis by simp
      next
        case (Some name)
        show ?thesis
          using assms(1)
        proof (rule connect_cases [of os name s])
          fix s1
          assume "connect_to_remote os name s = (- 1, s1)" "same_resources s s1"
          with unfold Inr host Some show ?thesis by (simp add: same_resources_def close_fd_def)
        next
          fix fd s1
          assume c: "connect_to_remote os name s = (fd, s1)" "fd \<noteq> - 1" "fd \<notin> p_open s"
            "p_open s1 = insert fd (p_open s)" "p_infos s1 = p_infos s" "p_blocks s1 = p_blocks s"
          then have eq: "client_handler os client req s = serve os client req fd (cstr bytes) s1"
            using unfold Inr host Some by simp
          have "p_blocks s1 req \<noteq> None" using c(6) assms(2) by simp
          from serve_cases [OF assms(1) this, of client fd "cstr bytes"]
          consider "client_handler os client req s = None"
            | s' where "client_handler os client req s = Some (Inr s')" "p_open s' = p_open s - {client}"
                "p_infos s' = p_infos s" "p_blocks s' = p_blocks s \<or> p_blocks s' = (p_blocks s)(req := None)"
            unfolding eq using c by auto
          then show ?thesis using host Some by cases simp_all
        qed
      qed
    qed
  qed
qed

text \<open>
  Property C23. However the system calls turn out, a handler that returns has left no address
  list allocated and no socket to a remote server open, has freed its buffer, and has touched
  nothing of other clients. It fails only when the request is not a valid format for \<open>printf\<close> or when
  its host overruns the array. But it keeps the client's socket when it finds no host, and
  frees the request only after a complete relay.
\<close>

theorem handler_resources:
  assumes "os_ok os" and "p_blocks s req = Some bytes" and "length bytes < BUFFER_SIZE" and "client \<in> p_open s"
  shows "(\<forall>e. client_handler os client req s = Some (Inl e) \<longrightarrow>
      printf_plain (cstr bytes) = Inl e \<or> find_host (cstr bytes) = Inl e) \<and>
    (\<forall>s'. client_handler os client req s = Some (Inr s') \<longrightarrow>
      p_infos s' = p_infos s \<and>
      (if find_host (cstr bytes) = Inr None then s' = s else p_open s' = p_open s - {client}) \<and>
      (p_blocks s' = p_blocks s \<or> p_blocks s' = (p_blocks s)(req := None)))"
  using assms by (rule handler_outcome)

text \<open>
  An operating system that behaves as documented: every call succeeds, descriptors and blocks
  are the first free ones, and the remote server answers with \<open>answer\<close> and closes.
\<close>

definition demo_os :: "string \<Rightarrow> string \<Rightarrow> os" where
  "demo_os request answer =
     \<lparr>os_socket = (\<lambda>n fds. if 4 \<in> fds then - 1 else 4), os_bind = (\<lambda>_ _ _. 0), os_listen = (\<lambda>_ _. 0),
      os_accept = (\<lambda>n fds. if 3 \<in> fds then - 1 else 3), os_recv = (\<lambda>_ _. Some (take BUFFER_SIZE request)),
      os_getaddrinfo = (\<lambda>_ _. 0), os_connect = (\<lambda>_ _. 0),
      os_read = (\<lambda>n _. if n = 5 then Some (take BUFFER_SIZE answer) else None),
      os_write = (\<lambda>_ _ bs. int (length bs)), os_calloc = (\<lambda>n h. if h n = None then Some n else None),
      os_thread = (\<lambda>_. 0)\<rparr>"

lemma demo_os_ok: "os_ok (demo_os request answer)"
  by (auto simp: os_ok_def demo_os_def)

definition demo_start :: "string \<Rightarrow> proxy" where
  "demo_start request =
     \<lparr>p_calls = 0, p_open = {3}, p_infos = 0, p_blocks = [7 \<mapsto> request], p_sent = []\<rparr>"

definition demo_request :: string where
  "demo_request = ''GET http://a.b/c HTTP/1.0''"

lemmas demo_defs = demo_os_def demo_start_def demo_request_def

lemma demo_find_host: "find_host (cstr demo_request) = Inr (Some ''a.b'')"
  by (simp add: demo_request_def find_host_def get_host_def cstr_def strchr_def HOST_LEN_def Let_def)

lemma demo_printf: "printf_plain (cstr demo_request) = Inr demo_request"
  by (simp add: demo_request_def cstr_def)

lemma demo_length: "length demo_request < BUFFER_SIZE"
  by (simp add: demo_request_def BUFFER_SIZE_def)

definition no_host_os :: os where
  "no_host_os = (demo_os [] [])\<lparr>os_getaddrinfo := (\<lambda>_ _. 1)\<rparr>"

lemma handler_resources_witness:
  "\<exists>s'. client_handler no_host_os 3 7 (demo_start demo_request) = Some (Inr s') \<and> p_open s' = {}"
proof -
  have req: "p_blocks (demo_start demo_request) 7 = Some demo_request" by (simp add: demo_start_def)
  have "os_ok no_host_os" by (auto simp: os_ok_def no_host_os_def demo_os_def)
  moreover have "connect_to_remote no_host_os ''a.b'' (demo_start demo_request) = (- 1, tick (demo_start demo_request))"
    by (simp add: connect_to_remote_def no_host_os_def)
  then have "client_handler no_host_os 3 7 (demo_start demo_request) =
      Some (Inr (close_fd 3 (tick (demo_start demo_request))))"
    unfolding handler_unfold [OF req demo_length] by (simp add: demo_find_host demo_printf)
  ultimately show ?thesis
    using handler_resources [of no_host_os "demo_start demo_request" 7 demo_request 3] req demo_find_host demo_length
    by (simp add: demo_start_def)
qed

text \<open>
  Property C18. Suppose the request is shorter than \<open>BUFFER_SIZE\<close> and a valid format for \<open>printf\<close>, its
  host is found and reached, \<open>calloc\<close> gives the buffer, and no write fails. Then the handler
  returns: it has sent the request to the remote server and what the server sent, up to the end
  of the input or a failed read, to the client, in order, as far as the writes took it; if every
  write takes all it is given, nothing is lost. Both sockets are closed and the request is freed.
\<close>

theorem handler_forwards:
  assumes "os_ok os" and "p_blocks s req = Some bytes" and "length bytes < BUFFER_SIZE"
    and "printf_plain (cstr bytes) = Inr out" and "find_host (cstr bytes) = Inr (Some host)"
    and "connect_to_remote os host s = (dest, s1)" and "dest \<noteq> - 1"
    and "\<And>n fd bs. os_write os n fd bs \<noteq> - 1" and "os_calloc os (p_calls s1 + 1) (p_blocks s) \<noteq> None"
    and "sends os dest (p_calls s1 + 2) chunks"
  shows "\<exists>s'. client_handler os client req s = Some (Inr s') \<and>
    p_sent s' = p_sent s @ (dest, take (nat (os_write os (p_calls s1) dest (cstr bytes))) (cstr bytes)) #
      map (Pair client) (taken os client (p_calls s1 + 2) chunks) \<and>
    ((\<forall>n fd bs. os_write os n fd bs = int (length bs)) \<longrightarrow>
      p_sent s' = p_sent s @ (dest, cstr bytes) # map (Pair client) chunks) \<and>
    p_open s' = p_open s - {client} \<and> p_blocks s' = (p_blocks s)(req := None)"
proof -
  have s1: "p_open s1 = insert dest (p_open s) \<and> p_blocks s1 = p_blocks s \<and> p_sent s1 = p_sent s \<and> dest \<notin> p_open s"
    using assms(1) by (rule connect_cases [of os host s]) (use assms(6,7) in auto)
  have eq: "client_handler os client req s = serve os client req dest (cstr bytes) s1"
    unfolding handler_unfold [OF assms(2,3)] using assms(4,5,6,7) by simp
  let ?w = "snd (write_fd os dest (cstr bytes) s1)"
  have w: "fst (write_fd os dest (cstr bytes) s1) \<noteq> - 1" "p_calls ?w = p_calls s1 + 1" "p_blocks ?w = p_blocks s"
      "p_open ?w = p_open s1"
      "p_sent ?w = p_sent s @ [(dest, take (nat (os_write os (p_calls s1) dest (cstr bytes))) (cstr bytes))]"
    using assms(8) s1 by (simp_all add: write_fd_def tick_def Let_def)
  obtain b where b: "os_calloc os (p_calls ?w) (p_blocks ?w) = Some b" using assms(9) w(2,3) by auto
  let ?c = "snd (calloc_block os ?w)"
  have c: "fst (calloc_block os ?w) = Some b" "p_calls ?c = p_calls s1 + 2" "p_open ?c = p_open s1"
      "p_blocks ?c = (p_blocks s)(b \<mapsto> [])" "p_sent ?c = p_sent ?w"
    using b w by (simp_all add: calloc_block_def tick_def Let_def)
  have new: "p_blocks s b = None" using assms(1) b w(3) unfolding os_ok_def by metis
  obtain s2 where s2: "relay os dest client b ?c = Some (True, s2)"
      "p_sent s2 = p_sent ?c @ map (Pair client) (taken os client (p_calls ?c) chunks)"
    using relay_sends [of os dest ?c chunks client b] assms(8,10) c(2) by auto
  have r: "p_open s2 = p_open s1" "p_blocks s2 b \<noteq> None" "\<forall>a. a \<noteq> b \<longrightarrow> p_blocks s2 a = p_blocks s a"
    using relay_resources [OF s2(1)] c by auto
  have blocks: "(p_blocks s2)(b := None) = p_blocks s" using r(3) new by auto
  let ?d = "(close_fd dest (close_fd client s2))\<lparr>p_blocks := p_blocks s\<rparr>"
  have "free_block (Some b) (close_fd dest (close_fd client s2)) = Inr ?d"
    using r(2) blocks by (simp add: free_block_ok close_fd_def)
  then have "client_handler os client req s = Some (free_block (Some req) ?d)"
    unfolding eq using w(1) c(1) s2(1) by (simp add: serve_def split_beta)
  then have res: "client_handler os client req s = Some (Inr (?d\<lparr>p_blocks := (p_blocks s)(req := None)\<rparr>))"
    using assms(2) by (simp add: free_block_ok)
  have sent: "p_sent s2 = p_sent s @ (dest, take (nat (os_write os (p_calls s1) dest (cstr bytes))) (cstr bytes)) #
      map (Pair client) (taken os client (p_calls s1 + 2) chunks)"
    using s2(2) c(2,5) w(5) by simp
  show ?thesis
    using res sent s1 r(1) taken_complete [of os client "p_calls s1 + 2" chunks]
    by (auto simp: close_fd_def)
qed


lemma handler_forwards_witness:
  "\<exists>s'. client_handler (demo_os [] ''ok'') 3 7 (demo_start demo_request) = Some (Inr s') \<and>
     p_sent s' = [(4, demo_request), (3, ''ok'')] \<and> p_open s' = {} \<and> p_blocks s' = Map.empty"
proof -
  let ?os = "demo_os [] ''ok''"
  let ?s1 = "\<lparr>p_calls = 3, p_open = {3, 4}, p_infos = 0, p_blocks = [7 \<mapsto> demo_request], p_sent = []\<rparr>"
  have "connect_to_remote ?os ''a.b'' (demo_start demo_request) = (4, ?s1)"
    by (auto simp: connect_to_remote_def tick_def opened_def Let_def demo_os_def demo_start_def)
  moreover have "sends ?os 4 (p_calls ?s1 + 2) [''ok'']"
    by (simp add: demo_os_def BUFFER_SIZE_def)
  moreover have "os_calloc ?os (p_calls ?s1 + 1) (p_blocks (demo_start demo_request)) \<noteq> None"
    by (simp add: demo_os_def demo_start_def)
  moreover have "os_write ?os n fd bs = int (length bs)" for n fd bs by (simp add: demo_os_def)
  moreover have "p_blocks (demo_start demo_request) 7 = Some demo_request" by (simp add: demo_start_def)
  moreover have "cstr demo_request = demo_request" by (simp add: demo_request_def cstr_def)
  ultimately show ?thesis
    using handler_forwards [of ?os "demo_start demo_request" 7 demo_request demo_request "''a.b''" 4 ?s1
        "[''ok'']" 3] demo_os_ok demo_find_host demo_printf demo_length
    by (auto simp: demo_start_def)
qed

text \<open>
  Property C39. Take a request shorter than \<open>BUFFER_SIZE\<close> that is a valid format for \<open>printf\<close>, that
  contains no absolute address (no \<open>http://\<close>) and whose first \<open>Host:\<close> is followed by a space, as usual
  clients write it. It is not served: the handler returns at once, without a connection or an
  answer, and neither closes the client's socket nor frees the request.
\<close>

theorem host_header_with_space:
  assumes "p_blocks s req = Some bytes" and "length bytes < BUFFER_SIZE"
    and "printf_plain (cstr bytes) = Inr out"
    and "\<And>pre post. cstr bytes \<noteq> pre @ ''http://'' @ post"
    and "cstr bytes = pre @ ''Host: '' @ post"
    and "\<And>pre' post'. cstr bytes = pre' @ ''Host:'' @ post' \<Longrightarrow> length pre \<le> length pre'"
  shows "client_handler os client req s = Some (Inr s)"
proof -
  have "strstr (cstr bytes) ''http://'' = None" using assms(4) by (simp only: strstr_None) blast
  then have "get_host (cstr bytes) 0 = Inr None" by (simp add: get_host_def)
  moreover have "strstr (cstr bytes) ''Host:'' = Some (''Host: '' @ post)"
    unfolding strstr_Some by (intro exI [of _ pre] conjI) (use assms(5,6) in \<open>auto simp: prefix_def\<close>)
  then have "get_host (cstr bytes) 1 = Inr None" by (simp add: get_host_def Let_def)
  ultimately have "find_host (cstr bytes) = Inr None" by (simp add: find_host_def)
  with assms(3) show ?thesis unfolding handler_unfold [OF assms(1,2)] by simp
qed

definition origin_request :: string where
  "origin_request = ''GET / HTTP/1.1'' @ [CHR 0x0D, CHR 0x0A] @ ''Host: a.b'' @ [CHR 0x0D, CHR 0x0A, CHR 0x0D, CHR 0x0A]"

lemma origin_strstr:
  "cstr origin_request = origin_request" "strstr origin_request ''http://'' = None"
  "strstr origin_request ''Host:'' = Some (drop 16 origin_request)"
  "printf_plain origin_request = Inr origin_request"
  by (simp_all add: origin_request_def cstr_def)

lemma host_header_with_space_witness:
  "client_handler (demo_os [] ''ok'') 3 7 (demo_start origin_request) =
     Some (Inr (demo_start origin_request))"
proof (rule host_header_with_space [where bytes = origin_request and out = origin_request
      and pre = "take 16 origin_request" and post = "drop 22 origin_request"])
  show "cstr origin_request \<noteq> pre @ ''http://'' @ post" for pre post
    using origin_strstr(1,2) by (simp add: strstr_None)
  show "length (take 16 origin_request) \<le> length pre'" if "cstr origin_request = pre' @ ''Host:'' @ post'" for pre' post'
  proof -
    obtain pre where pre: "origin_request = pre @ drop 16 origin_request"
        "\<forall>pre' post. origin_request = pre' @ ''Host:'' @ post \<longrightarrow> length pre \<le> length pre'"
      using origin_strstr(3) unfolding strstr_Some by blast
    have "length pre = 16"
      using arg_cong [where f = length, OF pre(1)] by (simp add: origin_request_def)
    moreover have "length pre \<le> length pre'" using pre(2) that unfolding origin_strstr(1) by blast
    ultimately show ?thesis by simp
  qed
qed (simp_all add: origin_strstr demo_start_def, simp_all add: origin_request_def BUFFER_SIZE_def)

end
