(* ===== verification/ProxyHandler.thy ===== *)
theory ProxyHandler
  imports Proxy
begin

text \<open>
  \<^verbatim>\<open>proxy/main.c\<close>, \<open>client_handler\<close> once more, as a machine that makes one system call per step,
  so that \<open>main\<close> and the handlers of other clients can run in between. Run from its first to its
  last step without interruption it is the function \<open>client_handler\<close> of \<open>Proxy\<close>.
\<close>

section \<open>The steps of a handler\<close>

text \<open>
  Where a handler is. The arguments are its local variables: the client's socket, the pointer
  to the request, the copy of the request, the host, the socket to the remote server, the
  buffer and the bytes in it. The last flag of \<open>H_close\<close> tells whether the loop has come to the
  end of the input.
\<close>

datatype hpc =
    H_none
  | H_start
  | H_format int ptr
  | H_resolve int ptr string string
  | H_socket int ptr string
  | H_connect int ptr string int
  | H_abandon int
  | H_write int ptr string int
  | H_drop int int
  | H_drop2 int
  | H_calloc int ptr int
  | H_read int ptr int ptr
  | H_send int ptr int addr string
  | H_close int ptr int ptr bool
  | H_close2 ptr int ptr bool
  | H_free ptr ptr bool
  | H_free2 ptr
  | H_done

definition info_freed :: "proxy \<Rightarrow> proxy" where
  "info_freed s = s\<lparr>p_infos := p_infos s - 1\<rparr>"

text \<open>
  \<open>H_format\<close> is the code up to the call of \<open>connect_to_remote\<close>: it only reads the request, which
  belongs to this handler. \<open>H_resolve\<close>, \<open>H_socket\<close> and \<open>H_connect\<close> are \<open>connect_to_remote\<close>.
\<close>

fun client_step :: "os \<Rightarrow> hpc \<Rightarrow> proxy \<Rightarrow> fault + hpc \<times> proxy" where
  "client_step os (H_format client request) s =
     bindr (deref (p_blocks s) request) (\<lambda>bytes.
     bindr (printf_plain (cstr bytes)) (\<lambda>out.
     if BUFFER_SIZE \<le> length (cstr bytes) then Inr (H_done, s)
     else
       bindr (find_host (cstr bytes)) (\<lambda>host.
       case host of
         None \<Rightarrow> Inr (H_done, s)
       | Some host \<Rightarrow> Inr (H_resolve client request (cstr bytes) host, s))))"
| "client_step os (H_resolve client request text host) s =
     (let status = os_getaddrinfo os (p_calls s) host; s = tick s in
      if status \<noteq> 0 then Inr (H_abandon client, s)
      else Inr (H_socket client request text, s\<lparr>p_infos := p_infos s + 1\<rparr>))"
| "client_step os (H_socket client request text) s =
     (let dest = os_socket os (p_calls s) (p_open s); s = tick s in
      if dest = - 1 then Inr (H_abandon client, info_freed s)
      else Inr (H_connect client request text dest, opened dest s))"
| "client_step os (H_connect client request text dest) s =
     (let r = os_connect os (p_calls s) dest; s = tick s in
      if r = - 1 then Inr (H_abandon client, info_freed (close_fd dest s))
      else Inr (H_write client request text dest, info_freed s))"
| "client_step os (H_abandon client) s = Inr (H_done, close_fd client s)"
| "client_step os (H_write client request text dest) s =
     (let (bytes_sent, s) = write_fd os dest text s in
      if bytes_sent = - 1 then Inr (H_drop client dest, s) else Inr (H_calloc client request dest, s))"
| "client_step os (H_drop client dest) s = Inr (H_drop2 dest, close_fd client s)"
| "client_step os (H_drop2 dest) s = Inr (H_done, close_fd dest s)"
| "client_step os (H_calloc client request dest) s =
     (let (buffer, s) = calloc_block os s in Inr (H_read client request dest buffer, s))"
| "client_step os (H_read client request dest buffer) s =
     (case buffer of
        None \<Rightarrow> Inr (H_close client request dest buffer True, tick s)
      | Some b \<Rightarrow>
          (case os_read os (p_calls s) dest of
             None \<Rightarrow> Inr (H_close client request dest buffer True, tick s)
           | Some bs \<Rightarrow>
               if bs = [] then Inr (H_close client request dest buffer True, tick s)
               else Inr (H_send client request dest b bs, (tick s)\<lparr>p_blocks := (p_blocks s)(b \<mapsto> bs)\<rparr>)))"
| "client_step os (H_send client request dest b bs) s =
     (let (bytes_sent, s) = write_fd os client bs s in
      if bytes_sent = - 1 then Inr (H_close client request dest (Some b) False, s)
      else Inr (H_read client request dest (Some b), s))"
| "client_step os (H_close client request dest buffer ended) s =
     Inr (H_close2 request dest buffer ended, close_fd client s)"
| "client_step os (H_close2 request dest buffer ended) s =
     Inr (H_free request buffer ended, close_fd dest s)"
| "client_step os (H_free request buffer ended) s =
     bindr (free_block buffer s) (\<lambda>s. Inr (if ended then H_free2 request else H_done, s))"
| "client_step os (H_free2 request) s = bindr (free_block request s) (\<lambda>s. Inr (H_done, s))"
| "client_step os h s = Inr (h, s)"

section \<open>Uninterrupted, it is client_handler\<close>

partial_function (option) client_run :: "os \<Rightarrow> hpc \<Rightarrow> proxy \<Rightarrow> (fault + proxy) option" where
  "client_run os h s =
     (if h = H_done then Some (Inr s)
      else
        (case client_step os h s of
           Inl e \<Rightarrow> Some (Inl e)
         | Inr (h, s) \<Rightarrow> client_run os h s))"

lemma run_done [simp]: "client_run os H_done s = Some (Inr s)"
  by (simp add: client_run.simps [of os H_done])

lemma run_step:
  "h \<noteq> H_done \<Longrightarrow> client_run os h s =
     (case client_step os h s of Inl e \<Rightarrow> Some (Inl e) | Inr (h, s) \<Rightarrow> client_run os h s)"
  by (subst client_run.simps) simp

text \<open>What is left to do after the loop.\<close>

definition wind_up :: "int \<Rightarrow> ptr \<Rightarrow> int \<Rightarrow> ptr \<Rightarrow> bool \<Rightarrow> proxy \<Rightarrow> (fault + proxy) option" where
  "wind_up client request dest buffer ended s =
     Some (bindr (free_block buffer (close_fd dest (close_fd client s))) (\<lambda>s.
           if ended then free_block request s else Inr s))"

lemma run_close: "client_run os (H_close client request dest buffer ended) s = wind_up client request dest buffer ended s"
proof (cases "free_block buffer (close_fd dest (close_fd client s))")
  case (Inr t)
  then show ?thesis by (cases ended; cases "free_block request t") (simp_all add: run_step wind_up_def)
qed (simp add: run_step wind_up_def)

lemma relay_run:
  "relay os dest client b s = Some y \<Longrightarrow>
     client_run os (H_read client request dest (Some b)) s = wind_up client request dest (Some b) (fst y) (snd y)"
proof (induction os dest client b s y rule: relay.raw_induct [rotated, consumes 1])
  case (1 f os dest client b s y)
  show ?case
  proof (cases "os_read os (p_calls s) dest")
    case None
    with 1(2) show ?thesis by (auto simp: run_step run_close)
  next
    case (Some bs)
    let ?s = "(tick s)\<lparr>p_blocks := (p_blocks s)(b \<mapsto> bs)\<rparr>"
    obtain r s1 where w: "write_fd os client bs ?s = (r, s1)" by force
    consider "bs = []" "y = (True, tick s)" | "bs \<noteq> []" "r = - 1" "y = (False, s1)"
      | "bs \<noteq> []" "r \<noteq> - 1" "f os dest client b s1 = Some y"
      using 1(2) Some w by (cases "bs = []"; cases "r = - 1") (auto simp: Let_def)
    then show ?thesis
    proof cases
      case 3
      from 1(1) [OF this(3)] 3 Some w show ?thesis by (simp add: run_step)
    qed (use Some w in \<open>simp_all add: run_step run_close\<close>)
  qed
qed

lemma run_relay:
  "client_run os h s = Some y \<Longrightarrow>
     (\<forall>client request dest b. h = H_read client request dest (Some b) \<longrightarrow> relay os dest client b s \<noteq> None) \<and>
     (\<forall>client request dest b bs. h = H_send client request dest b bs \<longrightarrow>
        fst (write_fd os client bs s) = - 1 \<or> relay os dest client b (snd (write_fd os client bs s)) \<noteq> None)"
proof (induction os h s y rule: client_run.raw_induct [rotated, consumes 1])
  case (1 f os h s y)
  have "relay os dest client b s \<noteq> None" if h: "h = H_read client request dest (Some b)" for client request dest b
  proof (cases "os_read os (p_calls s) dest")
    case None
    then show ?thesis by (simp add: relay.simps [of os dest client b s])
  next
    case (Some bs)
    show ?thesis
    proof (cases "bs = []")
      case True
      with Some show ?thesis by (simp add: relay.simps [of os dest client b s])
    next
      case False
      let ?s = "(tick s)\<lparr>p_blocks := (p_blocks s)(b \<mapsto> bs)\<rparr>"
      from 1(2) h Some False have "f os (H_send client request dest b bs) ?s = Some y" by simp
      from 1(1) [OF this] False Some show ?thesis
        by (auto simp: relay.simps [of os dest client b s] Let_def split: prod.split)
    qed
  qed
  moreover have "fst (write_fd os client bs s) = - 1 \<or> relay os dest client b (snd (write_fd os client bs s)) \<noteq> None"
    if h: "h = H_send client request dest b bs" for client request dest b bs
  proof (cases "fst (write_fd os client bs s) = - 1")
    case False
    with 1(2) h have "f os (H_read client request dest (Some b)) (snd (write_fd os client bs s)) = Some y"
      by (simp add: split_beta)
    from 1(1) [OF this] show ?thesis by simp
  qed simp
  ultimately show ?case by blast
qed

lemma run_read:
  "client_run os (H_read client request dest (Some b)) s =
     (case relay os dest client b s of
        None \<Rightarrow> None
      | Some y \<Rightarrow> wind_up client request dest (Some b) (fst y) (snd y))"
proof (cases "relay os dest client b s")
  case None
  with run_relay [of os "H_read client request dest (Some b)" s] show ?thesis
    by (cases "client_run os (H_read client request dest (Some b)) s") auto
qed (simp add: relay_run)

lemma run_write:
  "client_run os (H_write client (Some a) text dest) s = serve os client a dest text s"
proof -
  obtain r s1 where w: "write_fd os dest text s = (r, s1)" by force
  obtain buffer s2 where c: "calloc_block os s1 = (buffer, s2)" by force
  show ?thesis
  proof (cases "r = - 1")
    case True
    with w show ?thesis by (simp add: run_step serve_def)
  next
    case False
    with w c have "client_run os (H_write client (Some a) text dest) s = client_run os (H_read client (Some a) dest buffer) s2"
      by (simp add: run_step)
    moreover have "client_run os (H_read client (Some a) dest None) s2 = wind_up client (Some a) dest None True (tick s2)"
      by (simp add: run_step [of "H_read client (Some a) dest None"] run_close)
    ultimately show ?thesis
      using False w c by (cases buffer) (auto simp: run_read serve_def wind_up_def split: option.split)
  qed
qed

lemma run_connect:
  "client_run os (H_resolve client (Some a) text host) s =
     (case connect_to_remote os host s of
        (dest, s) \<Rightarrow> if dest = - 1 then Some (Inr (close_fd client s)) else serve os client a dest text s)"
proof -
  have abandon: "client_run os (H_abandon client) s = Some (Inr (close_fd client s))" for s
    by (simp add: run_step)
  let ?fd = "os_socket os (Suc (p_calls s)) (p_open s)"
  show ?thesis
  proof (cases "os_getaddrinfo os (p_calls s) host = 0 \<and> ?fd \<noteq> - 1")
    case False
    then show ?thesis
      by (auto simp: run_step abandon connect_to_remote_def tick_def info_freed_def Let_def)
  next
    case True
    then show ?thesis
      by (auto simp: run_step abandon run_write connect_to_remote_def tick_def info_freed_def opened_def close_fd_def Let_def)
  qed
qed

text \<open>
  Property C8. The handler that makes one system call per step, run without interruption, is
  \<open>client_handler\<close>: the same faults, the same effects, and it fails to return for exactly the same
  inputs.
\<close>

theorem handler_steps_equivalent:
  "client_run os (H_format client (Some a)) s = client_handler os client a s"
proof (cases "p_blocks s a")
  case (Some bytes)
  show ?thesis
  proof (cases "printf_plain (cstr bytes)")
    case (Inr out)
    show ?thesis
    proof (cases "BUFFER_SIZE \<le> length (cstr bytes)")
      case False
      show ?thesis
      proof (cases "find_host (cstr bytes)")
        case host: (Inr h)
        with Some Inr False show ?thesis
          by (cases h) (simp_all add: run_step [of "H_format client (Some a)"] run_connect client_handler_def)
      qed (use Some Inr False in \<open>simp add: run_step client_handler_def\<close>)
    qed (use Some Inr in \<open>simp add: run_step client_handler_def\<close>)
  qed (use Some in \<open>simp add: run_step client_handler_def\<close>)
qed (simp add: run_step client_handler_def)

end
