(* ===== verification/ProxyServer.thy ===== *)
theory ProxyServer
  imports ProxyHandler
begin

text \<open>
  \<^verbatim>\<open>proxy/main.c\<close>, \<open>main\<close>: the loop that accepts clients and starts a detached thread for each.
  The thread is given the address of \<open>ctx\<close>, a local variable of the loop body: it is read when
  the thread begins, and it exists until the body ends.

  A step is one system call of the loop body, or a step of a handler: the reading of \<open>ctx\<close>, or one of
  the system calls of \<open>ProxyHandler\<close>.
\<close>

section \<open>The program\<close>

text \<open>
  Where \<open>main\<close> is in the loop body; the arguments are \<open>client_socket\<close> and \<open>request\<close>, until they are in
  \<open>ctx\<close>. \<open>M_free\<close> and \<open>M_close\<close> are what the error branches do.
\<close>

datatype mpc =
    M_accept
  | M_calloc int
  | M_recv int ptr
  | M_free int ptr
  | M_close int
  | M_create
  | M_detach

text \<open>
  \<open>v_ctx\<close> is the variable \<open>ctx\<close> while it exists, with the number of the thread that it is for.
\<close>

record server =
  v_proxy :: proxy
  v_socket :: int
  v_pc :: mpc
  v_ctx :: "(nat \<times> int \<times> ptr) option"
  v_count :: nat
  v_handlers :: "nat \<Rightarrow> hpc"

definition empty_proxy :: proxy where
  "empty_proxy = \<lparr>p_calls = 0, p_open = {0, 1, 2}, p_infos = 0, p_blocks = Map.empty, p_sent = []\<rparr>"

text \<open>\<open>main\<close> up to the loop; the result of \<open>scanf\<close> is not tested.\<close>

definition server_start :: "os \<Rightarrow> int option \<Rightarrow> fault + server" where
  "server_start os port =
     (case port of
        None \<Rightarrow> Inl Uninitialised
      | Some port \<Rightarrow>
          (case create_server_socket os port empty_proxy of
             (server_socket, p) \<Rightarrow>
               if server_socket = - 1 then Inl (Exit 1)
               else Inr \<lparr>v_proxy = p, v_socket = server_socket, v_pc = M_accept, v_ctx = None, v_count = 0,
                         v_handlers = (\<lambda>_. H_none)\<rparr>))"

fun main_step :: "os \<Rightarrow> mpc \<Rightarrow> server \<Rightarrow> fault + server" where
  "main_step os M_accept s =
     (let p = v_proxy s; client_socket = os_accept os (p_calls p) (p_open p); p = tick p in
      if client_socket = - 1 then Inr (s\<lparr>v_proxy := p\<rparr>)
      else Inr (s\<lparr>v_proxy := opened client_socket p, v_pc := M_calloc client_socket\<rparr>))"
| "main_step os (M_calloc client_socket) s =
     (let (request, p) = calloc_block os (v_proxy s)
      in Inr (s\<lparr>v_proxy := p, v_pc := M_recv client_socket request\<rparr>))"
| "main_step os (M_recv client_socket request) s =
     bindr (read_request os client_socket request (v_proxy s)) (\<lambda>(err, p).
     if err = - 1 then Inr (s\<lparr>v_proxy := p, v_pc := M_free client_socket request\<rparr>)
     else Inr (s\<lparr>v_proxy := p, v_ctx := Some (v_count s, client_socket, request), v_pc := M_create\<rparr>))"
| "main_step os (M_free client_socket request) s =
     bindr (free_block request (v_proxy s)) (\<lambda>p. Inr (s\<lparr>v_proxy := p, v_pc := M_close client_socket\<rparr>))"
| "main_step os (M_close client_socket) s =
     Inr (s\<lparr>v_proxy := close_fd client_socket (v_proxy s), v_ctx := None, v_pc := M_accept\<rparr>)"
| "main_step os M_create s =
     (let err = os_thread os (p_calls (v_proxy s)); p = tick (v_proxy s) in
      if err \<noteq> 0 then
        (case v_ctx s of
           None \<Rightarrow> Inl UseAfterFree
         | Some (k, client_socket, request) \<Rightarrow> Inr (s\<lparr>v_proxy := p, v_pc := M_free client_socket request\<rparr>))
      else Inr (s\<lparr>v_proxy := p, v_handlers := (v_handlers s)(v_count s := H_start),
                  v_count := Suc (v_count s), v_pc := M_detach\<rparr>))"
| "main_step os M_detach s = Inr (s\<lparr>v_ctx := None, v_pc := M_accept\<rparr>)"

definition handler_step :: "os \<Rightarrow> nat \<Rightarrow> hpc \<Rightarrow> server \<Rightarrow> fault + server" where
  "handler_step os i h s =
     (if h = H_start then
        (case v_ctx s of
           None \<Rightarrow> Inl UseAfterFree
         | Some (k, client, request) \<Rightarrow>
             if k = i then Inr (s\<lparr>v_handlers := (v_handlers s)(i := H_format client request)\<rparr>)
             else Inl UseAfterFree)
      else
        bindr (client_step os h (v_proxy s)) (\<lambda>(h, p).
        Inr (s\<lparr>v_proxy := p, v_handlers := (v_handlers s)(i := h)\<rparr>)))"

text \<open>The event \<open>None\<close> is a step of \<open>main\<close>, \<open>Some i\<close> a step of handler \<open>i\<close>.\<close>

definition server_step :: "os \<Rightarrow> server \<Rightarrow> nat option \<Rightarrow> fault + server" where
  "server_step os s e =
     (case e of None \<Rightarrow> main_step os (v_pc s) s | Some i \<Rightarrow> handler_step os i (v_handlers s i) s)"

text \<open>
  \<open>main\<close> overtakes the thread it started last when it leaves the loop body before the thread has
  read \<open>ctx\<close>; \<open>prompt_step\<close> is the program on a scheduler that never lets it.
\<close>

definition overtakes :: "server \<Rightarrow> nat option \<Rightarrow> bool" where
  "overtakes s e \<longleftrightarrow> e = None \<and> v_pc s = M_detach \<and> v_handlers s (v_count s - 1) = H_start"

definition prompt_step :: "os \<Rightarrow> server \<Rightarrow> nat option \<Rightarrow> fault + server" where
  "prompt_step os s e = (if overtakes s e then Inr s else server_step os s e)"

section \<open>Ownership\<close>

text \<open>The descriptors and blocks that a handler owns, and whether it holds an address list.\<close>

fun fds_of :: "hpc \<Rightarrow> int set" where
  "fds_of (H_format c r) = {c}" | "fds_of (H_resolve c r t h) = {c}" | "fds_of (H_socket c r t) = {c}"
| "fds_of (H_connect c r t d) = {c, d}" | "fds_of (H_abandon c) = {c}" | "fds_of (H_write c r t d) = {c, d}"
| "fds_of (H_drop c d) = {c, d}" | "fds_of (H_drop2 d) = {d}" | "fds_of (H_calloc c r d) = {c, d}"
| "fds_of (H_read c r d b) = {c, d}" | "fds_of (H_send c r d b bs) = {c, d}"
| "fds_of (H_close c r d b e) = {c, d}" | "fds_of (H_close2 r d b e) = {d}" | "fds_of _ = {}"

fun blocks_of :: "hpc \<Rightarrow> addr set" where
  "blocks_of (H_format c r) = set_option r" | "blocks_of (H_resolve c r t h) = set_option r"
| "blocks_of (H_socket c r t) = set_option r" | "blocks_of (H_connect c r t d) = set_option r"
| "blocks_of (H_write c r t d) = set_option r" | "blocks_of (H_calloc c r d) = set_option r"
| "blocks_of (H_read c r d b) = set_option r \<union> set_option b"
| "blocks_of (H_send c r d b bs) = insert b (set_option r)"
| "blocks_of (H_close c r d b e) = set_option r \<union> set_option b"
| "blocks_of (H_close2 r d b e) = set_option r \<union> set_option b"
| "blocks_of (H_free r b e) = set_option r \<union> set_option b" | "blocks_of (H_free2 r) = set_option r"
| "blocks_of _ = {}"

fun has_info :: "hpc \<Rightarrow> bool" where
  "has_info (H_socket c r t) = True" | "has_info (H_connect c r t d) = True" | "has_info _ = False"

text \<open>What else a position implies: its resources are distinct, and a new request fits its block.\<close>

fun pos_ok :: "string heap \<Rightarrow> hpc \<Rightarrow> bool" where
  "pos_ok h (H_format c r) = (\<exists>a bytes. r = Some a \<and> h a = Some bytes \<and> length bytes < BUFFER_SIZE)"
| "pos_ok h (H_connect c r t d) = (c \<noteq> d)" | "pos_ok h (H_write c r t d) = (c \<noteq> d)"
| "pos_ok h (H_drop c d) = (c \<noteq> d)" | "pos_ok h (H_calloc c r d) = (c \<noteq> d)"
| "pos_ok h (H_read c r d b) = (c \<noteq> d \<and> (b = None \<or> b \<noteq> r))"
| "pos_ok h (H_send c r d b bs) = (c \<noteq> d \<and> Some b \<noteq> r)"
| "pos_ok h (H_close c r d b e) = (c \<noteq> d \<and> (b = None \<or> b \<noteq> r))"
| "pos_ok h (H_close2 r d b e) = (b = None \<or> b \<noteq> r)"
| "pos_ok h (H_free r b e) = (b = None \<or> b \<noteq> r)"
| "pos_ok h _ = True"

definition owned :: "hpc \<Rightarrow> proxy \<Rightarrow> bool" where
  "owned h p \<longleftrightarrow> fds_of h \<subseteq> p_open p \<and> blocks_of h \<subseteq> dom (p_blocks p) \<and> pos_ok (p_blocks p) h"

text \<open>
  A step from \<open>h\<close> to \<open>h'\<close> that touches only what the handler owns, or what was free before.
\<close>

definition moves_own :: "hpc \<Rightarrow> proxy \<Rightarrow> hpc \<Rightarrow> proxy \<Rightarrow> bool" where
  "moves_own h p h' p' \<longleftrightarrow> owned h' p' \<and>
     (\<forall>x. x \<in> p_open p \<and> x \<notin> fds_of h \<longrightarrow> x \<in> p_open p' \<and> x \<notin> fds_of h') \<and>
     (\<forall>a. p_blocks p a \<noteq> None \<and> a \<notin> blocks_of h \<longrightarrow> p_blocks p' a = p_blocks p a \<and> a \<notin> blocks_of h') \<and>
     p_infos p' + of_bool (has_info h) = p_infos p + of_bool (has_info h')"

definition server_fails :: "fault \<Rightarrow> bool" where
  "server_fails e \<longleftrightarrow> e = OutOfBounds \<or> e = Uninitialised"

lemma get_host_fails: "get_host r f = Inl e \<Longrightarrow> e = OutOfBounds"
  by (auto simp: get_host_def Let_def split: option.splits if_splits)

lemma format_fails: "printf_plain r = Inl e \<Longrightarrow> server_fails e"
  by (induction r rule: printf_plain.induct) (auto simp: outcome_simps server_fails_def split: if_splits)

lemma host_fails: "find_host r = Inl e \<Longrightarrow> server_fails e"
  by (auto simp: find_host_def outcome_simps server_fails_def split: if_splits dest: get_host_fails)

lemma tick_fields [simp]:
  "p_open (tick p) = p_open p" "p_blocks (tick p) = p_blocks p" "p_infos (tick p) = p_infos p"
  "p_open (info_freed p) = p_open p" "p_blocks (info_freed p) = p_blocks p" "p_infos (info_freed p) = p_infos p - 1"
  "p_open (close_fd fd p) = p_open p - {fd}" "p_blocks (close_fd fd p) = p_blocks p" "p_infos (close_fd fd p) = p_infos p"
  "p_open (opened fd p) = insert fd (p_open p)" "p_blocks (opened fd p) = p_blocks p" "p_infos (opened fd p) = p_infos p"
  by (simp_all add: tick_def info_freed_def close_fd_def opened_def)

text \<open>What a step of a handler may do.\<close>

definition step_ok :: "hpc \<Rightarrow> proxy \<Rightarrow> fault + hpc \<times> proxy \<Rightarrow> bool" where
  "step_ok h p r \<longleftrightarrow>
     (case r of Inl e \<Rightarrow> server_fails e | Inr (h', p') \<Rightarrow> moves_own h p h' p' \<and> h' \<noteq> H_none \<and> h' \<noteq> H_start)"

lemma client_step_ok:
  assumes os: "os_ok os" and own: "owned h p" and info: "has_info h \<Longrightarrow> 0 < p_infos p"
    and h: "h \<noteq> H_none" "h \<noteq> H_start"
  shows "step_ok h p (client_step os h p)"
proof (cases h)
  case (H_format c r)
  with own obtain a bytes where a: "r = Some a" "p_blocks p a = Some bytes" by (auto simp: owned_def)
  show ?thesis
  proof (cases "printf_plain (cstr bytes)")
    case (Inl e)
    with H_format a show ?thesis by (simp add: step_ok_def format_fails)
  next
    case fmt: (Inr out)
    show ?thesis
    proof (cases "find_host (cstr bytes)")
      case (Inl e)
      with H_format a fmt own show ?thesis by (simp add: step_ok_def host_fails moves_own_def owned_def)
    next
      case (Inr host)
      with H_format a fmt own show ?thesis
        by (cases host) (simp_all add: step_ok_def moves_own_def owned_def)
    qed
  qed
next
  case (H_socket c r t)
  let ?d = "os_socket os (p_calls p) (p_open p)"
  have d: "?d = - 1 \<or> ?d \<notin> p_open p" using os unfolding os_ok_def by blast
  have c: "c \<in> p_open p" using own H_socket by (simp add: owned_def)
  show ?thesis
  proof (cases "?d = - 1")
    case True
    with H_socket own info show ?thesis by (simp add: step_ok_def moves_own_def owned_def)
  next
    case False
    with d c have "?d \<notin> p_open p" "c \<noteq> ?d" by auto
    with H_socket own False show ?thesis by (auto simp: step_ok_def moves_own_def owned_def Let_def)
  qed
next
  case (H_write c r t d)
  obtain x p1 where w: "write_fd os d t p = (x, p1)" by force
  with H_write own write_fd_resources [OF w] show ?thesis
    by (auto simp: step_ok_def moves_own_def owned_def)
next
  case (H_calloc c r d)
  show ?thesis
  proof (cases "os_calloc os (p_calls p) (p_blocks p)")
    case None
    with H_calloc own show ?thesis by (simp add: step_ok_def moves_own_def owned_def calloc_block_def)
  next
    case (Some b)
    then have "p_blocks p b = None" using os unfolding os_ok_def by blast
    with H_calloc own Some show ?thesis by (auto simp: step_ok_def moves_own_def owned_def calloc_block_def Let_def)
  qed
next
  case (H_read c r d b)
  show ?thesis
  proof (cases b)
    case None
    with H_read own show ?thesis by (simp add: step_ok_def moves_own_def owned_def)
  next
    case b: (Some a)
    show ?thesis
    proof (cases "os_read os (p_calls p) d")
      case None
      with H_read own b show ?thesis by (simp add: step_ok_def moves_own_def owned_def)
    next
      case (Some bs)
      with H_read own b show ?thesis by (cases "bs = []") (auto simp: step_ok_def moves_own_def owned_def)
    qed
  qed
next
  case (H_send c r d b bs)
  obtain x p1 where w: "write_fd os c bs p = (x, p1)" by force
  with H_send own write_fd_resources [OF w] show ?thesis
    by (auto simp: step_ok_def moves_own_def owned_def)
next
  case (H_free r b e)
  show ?thesis
  proof (cases b)
    case None
    with H_free own show ?thesis by (simp add: step_ok_def moves_own_def owned_def)
  next
    case (Some a)
    with H_free own have "p_blocks p a \<noteq> None" by (auto simp: owned_def)
    with H_free own Some show ?thesis
      by (cases r) (auto simp: step_ok_def moves_own_def owned_def free_block_ok)
  qed
next
  case (H_free2 r)
  show ?thesis
  proof (cases r)
    case None
    with H_free2 own show ?thesis by (simp add: step_ok_def moves_own_def owned_def)
  next
    case (Some a)
    with H_free2 own have "p_blocks p a \<noteq> None" by (auto simp: owned_def)
    with H_free2 own Some show ?thesis
      by (auto simp: step_ok_def moves_own_def owned_def free_block_ok)
  qed
qed (use h own info in \<open>auto simp: step_ok_def moves_own_def owned_def Let_def\<close>)


lemma pos_ok_cong: "(\<And>a. a \<in> blocks_of h \<Longrightarrow> g a = g' a) \<Longrightarrow> pos_ok g h = pos_ok g' h"
  by (cases h) (auto, metis+)

text \<open>
  All positions together, \<open>e\<close>, and descriptors \<open>K\<close> that belong to no handler: nothing is owned
  twice, and the address lists that exist are those that the handlers hold.
\<close>

definition owns_ok :: "int set \<Rightarrow> (nat \<Rightarrow> hpc) \<Rightarrow> proxy \<Rightarrow> bool" where
  "owns_ok K e p \<longleftrightarrow>
     (\<forall>i. owned (e i) p \<and> fds_of (e i) \<inter> K = {}) \<and> K \<subseteq> p_open p \<and>
     (\<forall>i j. i \<noteq> j \<longrightarrow> fds_of (e i) \<inter> fds_of (e j) = {} \<and> blocks_of (e i) \<inter> blocks_of (e j) = {}) \<and>
     finite {i. has_info (e i)} \<and> p_infos p = card {i. has_info (e i)}"

lemma owns_okD:
  assumes "owns_ok K e p"
  shows "owned (e i) p" and "fds_of (e i) \<inter> K = {}" and "K \<subseteq> p_open p"
    and "i \<noteq> j \<Longrightarrow> fds_of (e i) \<inter> fds_of (e j) = {}" and "i \<noteq> j \<Longrightarrow> blocks_of (e i) \<inter> blocks_of (e j) = {}"
    and "finite {i. has_info (e i)}" and "p_infos p = card {i. has_info (e i)}"
  using assms unfolding owns_ok_def by blast+

lemma card_except:
  "finite {j. P j} \<Longrightarrow> card {j. P j} = card {j. j \<noteq> i \<and> P j} + of_bool (P i)"
proof -
  assume fin: "finite {j. P j}"
  have "{j. j \<noteq> i \<and> P j} = {j. P j} - {i}" by auto
  then show ?thesis using fin card_Suc_Diff1 [OF fin, of i] by (cases "P i") auto
qed

lemma owns_move:
  assumes own: "owns_ok K e p" and move: "moves_own (e i) p h' p'"
  shows "owns_ok K (e(i := h')) p'"
proof -
  let ?e = "e(i := h')"
  have h': "owned h' p'" using move by (simp add: moves_own_def)
  have open': "x \<in> p_open p' \<and> x \<notin> fds_of h'" if "x \<in> p_open p" "x \<notin> fds_of (e i)" for x
    using move that unfolding moves_own_def by blast
  have block': "p_blocks p' a = p_blocks p a \<and> a \<notin> blocks_of h'" if "p_blocks p a \<noteq> None" "a \<notin> blocks_of (e i)" for a
    using move that unfolding moves_own_def by blast
  have fds: "x \<in> p_open p' \<and> x \<notin> fds_of h'" if "j \<noteq> i" "x \<in> fds_of (e j)" for j x
    using that owns_okD(4) [OF own that(1)] owns_okD(1) [OF own, of j] open' unfolding owned_def by blast
  have blocks: "p_blocks p a \<noteq> None \<and> p_blocks p' a = p_blocks p a \<and> a \<notin> blocks_of h'"
    if "j \<noteq> i" "a \<in> blocks_of (e j)" for j a
    using that owns_okD(5) [OF own that(1)] owns_okD(1) [OF own, of j] block' unfolding owned_def by blast
  have other: "owned (e j) p'" if "j \<noteq> i" for j
  proof -
    have "pos_ok (p_blocks p') (e j)"
      using owns_okD(1) [OF own, of j] pos_ok_cong [of "e j" "p_blocks p'" "p_blocks p"] blocks [OF that]
      by (simp add: owned_def)
    moreover have "fds_of (e j) \<subseteq> p_open p'" using fds [OF that] by blast
    moreover have "blocks_of (e j) \<subseteq> dom (p_blocks p')" using blocks [OF that] by (auto simp: dom_def)
    ultimately show ?thesis by (simp add: owned_def)
  qed
  have K: "K \<subseteq> p_open p'" "fds_of h' \<inter> K = {}"
    using owns_okD(2,3) [OF own] open' by blast+
  have "fds_of (?e j) \<inter> fds_of (?e k) = {} \<and> blocks_of (?e j) \<inter> blocks_of (?e k) = {}" if "j \<noteq> k" for j k
    using that owns_okD(4,5) [OF own that] fds blocks by (cases "j = i"; cases "k = i") (simp; blast)+
  moreover have "{j. has_info (?e j)} \<subseteq> insert i {j. has_info (e j)}" by auto
  then have fin: "finite {j. has_info (?e j)}" using owns_okD(6) [OF own] finite_subset by blast
  moreover have "p_infos p' = card {j. has_info (?e j)}"
  proof -
    have "{j. j \<noteq> i \<and> has_info (?e j)} = {j. j \<noteq> i \<and> has_info (e j)}" by auto
    then show ?thesis
      using card_except [OF fin, of i] card_except [OF owns_okD(6) [OF own], of i] owns_okD(7) [OF own] move
      by (simp add: moves_own_def)
  qed
  moreover have "owned (?e j) p' \<and> fds_of (?e j) \<inter> K = {}" for j
    using h' other K(2) owns_okD(2) [OF own] by simp
  ultimately show ?thesis using K(1) unfolding owns_ok_def by blast
qed

lemma owns_info: "owns_ok K e p \<Longrightarrow> has_info (e i) \<Longrightarrow> 0 < p_infos p"
  using owns_okD(6,7) [of K e p] card_gt_0_iff by fastforce


section \<open>The steps keep the ownership\<close>

text \<open>
  What \<open>main\<close> holds counts as the next thread's: \<open>holds\<close> is a position with the same holdings. The
  socket and the request in \<open>ctx\<close> are those of the thread that \<open>ctx\<close> is for, from \<open>main\<close>'s
  initialisation of \<open>ctx\<close> until the thread has read it.
\<close>

fun holds :: "mpc \<Rightarrow> hpc" where
  "holds (M_calloc fd) = H_abandon fd"
| "holds (M_recv fd req) = H_resolve fd req [] []"
| "holds (M_free fd req) = H_resolve fd req [] []"
| "holds (M_close fd) = H_abandon fd"
| "holds _ = H_done"

definition eff :: "server \<Rightarrow> nat \<Rightarrow> hpc" where
  "eff s i =
     (if i = v_count s \<and> v_pc s \<noteq> M_create then holds (v_pc s)
      else if v_handlers s i = H_none \<or> v_handlers s i = H_start then
        (case v_ctx s of None \<Rightarrow> H_done | Some (k, fd, req) \<Rightarrow> if k = i then H_format fd req else H_done)
      else v_handlers s i)"

definition server_ok :: "server \<Rightarrow> bool" where
  "server_ok s \<longleftrightarrow> owns_ok {0, 1, 2, v_socket s} (eff s) (v_proxy s) \<and>
     (\<forall>i. v_handlers s i = H_none \<longleftrightarrow> v_count s \<le> i) \<and>
     (\<forall>i. v_handlers s i = H_start \<longrightarrow> v_pc s = M_detach \<and> Suc i = v_count s) \<and>
     (\<forall>k c. v_ctx s = Some (k, c) \<longrightarrow> (if v_pc s = M_detach then Suc k = v_count s else k = v_count s)) \<and>
     (v_pc s = M_create \<or> v_pc s = M_detach \<longrightarrow> v_ctx s \<noteq> None) \<and> (v_pc s = M_accept \<longrightarrow> v_ctx s = None)"

lemma server_okD:
  assumes "server_ok s"
  shows "owns_ok {0, 1, 2, v_socket s} (eff s) (v_proxy s)" and "v_handlers s i = H_none \<longleftrightarrow> v_count s \<le> i"
    and "v_handlers s i = H_start \<Longrightarrow> v_pc s = M_detach \<and> Suc i = v_count s"
    and "v_pc s = M_create \<Longrightarrow> \<exists>c. v_ctx s = Some (v_count s, c)"
    and "v_pc s = M_detach \<Longrightarrow> \<exists>c k. v_count s = Suc k \<and> v_ctx s = Some (k, c)"
  using assms unfolding server_ok_def by auto

text \<open>A step of \<open>main\<close> before the thread exists: only its own holdings change.\<close>

lemma main_move:
  assumes ok: "server_ok s" and pc: "v_pc s \<noteq> M_detach" "v_pc t \<noteq> M_detach"
    and move: "moves_own (eff s (v_count s)) (v_proxy s) (eff t (v_count s)) (v_proxy t)"
    and ctx: "v_ctx t = None \<or> (\<exists>c. v_ctx t = Some (v_count s, c))" "v_pc t = M_create \<Longrightarrow> v_ctx t \<noteq> None"
      "v_pc t = M_accept \<Longrightarrow> v_ctx t = None"
    and same: "v_count t = v_count s" "v_handlers t = v_handlers s" "v_socket t = v_socket s"
  shows "server_ok t"
proof -
  let ?n = "v_count s"
  have nstart: "v_handlers s i \<noteq> H_start" for i using server_okD(3) [OF ok] pc(1) by auto
  have old: "v_ctx s = None \<or> (\<exists>c. v_ctx s = Some (?n, c))"
    using ok pc(1) by (cases "v_ctx s") (auto simp: server_ok_def)
  have "eff t i = ((eff s)(?n := eff t ?n)) i" for i
    using old ctx(1) same by (cases "i = ?n") (auto simp: eff_def)
  then have "eff t = (eff s)(?n := eff t ?n)" ..
  moreover have "owns_ok {0, 1, 2, v_socket s} ((eff s)(?n := eff t ?n)) (v_proxy t)"
    using server_okD(1) [OF ok] move by (rule owns_move)
  ultimately have "owns_ok {0, 1, 2, v_socket t} (eff t) (v_proxy t)" using same(3) by simp
  then show ?thesis
    using server_okD(2) [OF ok] nstart ctx pc(2) same by (auto simp: server_ok_def)
qed

lemma main_keeps:
  assumes os: "os_ok os" and ok: "server_ok s" and prompt: "\<not> overtakes s None"
  shows "(\<exists>e. main_step os (v_pc s) s = Inl e \<and> server_fails e) \<or>
    (\<exists>s'. main_step os (v_pc s) s = Inr s' \<and> server_ok s')"
proof -
  let ?n = "v_count s" and ?p = "v_proxy s"
  note own = owns_okD(1) [OF server_okD(1) [OF ok], of ?n]
  have at: "v_handlers s ?n = H_none" using server_okD(2) [OF ok] by simp
  have holding: "eff s ?n = holds (v_pc s)" if "v_pc s \<noteq> M_create" using that by (simp add: eff_def)
  have ctx: "v_ctx s = None \<or> (\<exists>c. v_ctx s = Some (?n, c))" if "v_pc s \<noteq> M_detach"
    using ok that by (cases "v_ctx s") (auto simp: server_ok_def)
  show ?thesis
  proof (cases "v_pc s")
    case M_accept
    let ?fd = "os_accept os (p_calls ?p) (p_open ?p)"
    have fd: "?fd = - 1 \<or> ?fd \<notin> p_open ?p" using os unfolding os_ok_def by blast
    show ?thesis
    proof (cases "?fd = - 1")
      case True
      have "server_ok (s\<lparr>v_proxy := tick ?p\<rparr>)"
        by (rule main_move [OF ok]) (use M_accept ok in \<open>simp_all add: server_ok_def eff_def moves_own_def owned_def\<close>)
      with True M_accept show ?thesis by (simp add: Let_def)
    next
      case False
      have "server_ok (s\<lparr>v_proxy := opened ?fd (tick ?p), v_pc := M_calloc ?fd\<rparr>)"
        by (rule main_move [OF ok])
          (use M_accept ok False fd in \<open>auto simp: server_ok_def eff_def moves_own_def owned_def\<close>)
      with False M_accept show ?thesis by (simp add: Let_def)
    qed
  next
    case (M_calloc fd)
    then have own: "owned (H_abandon fd) ?p" using own holding by simp
    obtain req p where c: "calloc_block os ?p = (req, p)" by force
    have move: "moves_own (H_abandon fd) ?p (H_resolve fd req [] []) p"
    proof (cases req)
      case None
      with c own show ?thesis by (auto simp: calloc_block_def Let_def moves_own_def owned_def)
    next
      case (Some a)
      with c have "os_calloc os (p_calls ?p) (p_blocks ?p) = Some a" "p = (tick ?p)\<lparr>p_blocks := (p_blocks ?p)(a \<mapsto> [])\<rparr>"
        by (auto simp: calloc_block_def Let_def)
      moreover from this(1) have "p_blocks ?p a = None" using os unfolding os_ok_def by blast
      ultimately show ?thesis using own Some by (auto simp: moves_own_def owned_def)
    qed
    have "server_ok (s\<lparr>v_proxy := p, v_pc := M_recv fd req\<rparr>)"
      by (rule main_move [OF ok]) (use M_calloc ctx move in \<open>simp_all add: eff_def\<close>)
    with M_calloc c show ?thesis by simp
  next
    case (M_recv fd req)
    then have own: "owned (H_resolve fd req [] []) ?p" using own holding by simp
    consider "read_request os fd req ?p = Inr (- 1, tick ?p)"
      | a bs where "req = Some a" "length bs < BUFFER_SIZE"
          "read_request os fd req ?p = Inr (0, (tick ?p)\<lparr>p_blocks := (p_blocks ?p)(a \<mapsto> bs)\<rparr>)"
      | "read_request os fd req ?p = Inl OutOfBounds"
    proof (cases "os_recv os (p_calls ?p) fd = None \<or> os_recv os (p_calls ?p) fd = Some [] \<or> req = None")
      case True
      then show thesis by (intro that(1)) (auto simp: read_request_def split: option.split)
    next
      case False
      then obtain bs a where bs: "os_recv os (p_calls ?p) fd = Some bs" "bs \<noteq> []" "req = Some a" by auto
      with own obtain old where "p_blocks ?p a = Some old" by (auto simp: owned_def)
      with bs that(2) [of a bs] that(3) show thesis
        by (cases "length bs < BUFFER_SIZE") (simp_all add: read_request_def)
    qed
    then show ?thesis
    proof cases
      case 1
      have "server_ok (s\<lparr>v_proxy := tick ?p, v_pc := M_free fd req\<rparr>)"
        by (rule main_move [OF ok])
          (use M_recv ctx own in \<open>simp_all add: eff_def moves_own_def owned_def\<close>)
      with M_recv 1 show ?thesis by simp
    next
      case (2 a bs)
      let ?q = "(tick ?p)\<lparr>p_blocks := (p_blocks ?p)(a \<mapsto> bs)\<rparr>"
      have "moves_own (H_resolve fd req [] []) ?p (H_format fd req) ?q"
        using own 2 by (auto simp: moves_own_def owned_def)
      then have "server_ok (s\<lparr>v_proxy := ?q, v_ctx := Some (?n, fd, req), v_pc := M_create\<rparr>)"
        by (intro main_move [OF ok]) (use M_recv at in \<open>simp_all add: eff_def\<close>)
      with M_recv 2 show ?thesis by simp
    next
      case 3
      with M_recv show ?thesis by (simp add: server_fails_def)
    qed
  next
    case (M_free fd req)
    then have own: "owned (H_resolve fd req [] []) ?p" using own holding by simp
    then obtain p where p: "free_block req ?p = Inr p" "moves_own (H_resolve fd req [] []) ?p (H_abandon fd) p"
      by (cases req) (auto simp: owned_def moves_own_def free_block_ok)
    have "server_ok (s\<lparr>v_proxy := p, v_pc := M_close fd\<rparr>)"
      by (rule main_move [OF ok]) (use M_free ctx p(2) in \<open>simp_all add: eff_def\<close>)
    with M_free p(1) show ?thesis by simp
  next
    case (M_close fd)
    then have "moves_own (H_abandon fd) ?p H_done (close_fd fd ?p)"
      using own holding by (simp add: owned_def moves_own_def)
    then have "server_ok (s\<lparr>v_proxy := close_fd fd ?p, v_ctx := None, v_pc := M_accept\<rparr>)"
      by (intro main_move [OF ok]) (use M_close in \<open>simp_all add: eff_def\<close>)
    with M_close show ?thesis by simp
  next
    case M_create
    then obtain fd req where c: "v_ctx s = Some (?n, fd, req)" using server_okD(4) [OF ok] by auto
    have e: "eff s ?n = H_format fd req" using at c M_create by (simp add: eff_def)
    show ?thesis
    proof (cases "os_thread os (p_calls ?p) = 0")
      case True
      let ?s = "s\<lparr>v_proxy := tick ?p, v_handlers := (v_handlers s)(?n := H_start), v_count := Suc ?n, v_pc := M_detach\<rparr>"
      have none: "v_handlers s i = H_none \<longleftrightarrow> ?n \<le> i" "v_handlers s i \<noteq> H_start" for i
        using server_okD(2,3) [OF ok] M_create by auto
      have "eff ?s i = eff s i" for i
        using none [of i] at c M_create by (auto simp: eff_def)
      then have "eff ?s = (eff s)(?n := H_format fd req)" using e by (auto simp: fun_eq_iff)
      moreover have "owns_ok {0, 1, 2, v_socket s} ((eff s)(?n := H_format fd req)) (tick ?p)"
        using server_okD(1) [OF ok] by (rule owns_move) (use own e in \<open>simp add: moves_own_def owned_def\<close>)
      ultimately have "server_ok ?s" using none c by (auto simp: server_ok_def)
      with True M_create show ?thesis by (simp add: Let_def)
    next
      case False
      have "moves_own (H_format fd req) ?p (H_resolve fd req [] []) (tick ?p)"
        using own e by (simp add: moves_own_def owned_def)
      then have "server_ok (s\<lparr>v_proxy := tick ?p, v_pc := M_free fd req\<rparr>)"
        by (intro main_move [OF ok]) (use M_create c e in \<open>simp_all add: eff_def\<close>)
      with False M_create c show ?thesis by (simp add: Let_def)
    qed
  next
    case M_detach
    then obtain c k where k: "?n = Suc k" "v_ctx s = Some (k, c)" using server_okD(5) [OF ok] by blast
    have "v_handlers s k \<noteq> H_start" using prompt M_detach k by (simp add: overtakes_def)
    then have nstart: "v_handlers s i \<noteq> H_start" for i using server_okD(3) [OF ok, of i] k by auto
    let ?s = "s\<lparr>v_ctx := None, v_pc := M_accept\<rparr>"
    have none: "v_handlers s i = H_none \<longleftrightarrow> ?n \<le> i" for i by (rule server_okD(2) [OF ok])
    have "eff ?s = eff s"
      using none [of k] nstart k M_detach by (auto simp: eff_def fun_eq_iff split: prod.split)
    then have "server_ok ?s" using server_okD(1) [OF ok] none nstart by (simp add: server_ok_def)
    with M_detach show ?thesis by simp
  qed
qed

lemma handler_keeps:
  assumes os: "os_ok os" and ok: "server_ok s"
  shows "(\<exists>e. handler_step os i (v_handlers s i) s = Inl e \<and> server_fails e) \<or>
    (\<exists>s'. handler_step os i (v_handlers s i) s = Inr s' \<and> server_ok s')"
proof -
  let ?h = "v_handlers s i"
  note own = server_okD(1) [OF ok] and none = server_okD(2) [OF ok, of i]
  consider "?h = H_start" | "?h = H_none" | "?h \<noteq> H_start" "?h \<noteq> H_none" by blast
  then show ?thesis
  proof cases
    case 1
    with server_okD(3) [OF ok, of i] have pc: "v_pc s = M_detach" "Suc i = v_count s" by blast+
    with server_okD(5) [OF ok] obtain fd req where ctx: "v_ctx s = Some (i, fd, req)" by auto
    let ?s = "s\<lparr>v_handlers := (v_handlers s)(i := H_format fd req)\<rparr>"
    have "eff ?s = eff s" using 1 ctx by (auto simp: eff_def)
    then have "server_ok ?s" using ok pc ctx 1 unfolding server_ok_def by auto
    with 1 ctx show ?thesis by (simp add: handler_step_def)
  next
    case 2
    with ok show ?thesis by (simp add: handler_step_def fun_upd_idem)
  next
    case 3
    then have e: "eff s i = ?h" using none by (auto simp: eff_def)
    have "has_info ?h \<Longrightarrow> 0 < p_infos (v_proxy s)" using owns_info [OF own, of i] e by simp
    from client_step_ok [OF os owns_okD(1) [OF own, of i, unfolded e] this 3(2,1)]
    have step: "step_ok ?h (v_proxy s) (client_step os ?h (v_proxy s))" .
    show ?thesis
    proof (cases "client_step os ?h (v_proxy s)")
      case (Inl f)
      with step 3 show ?thesis by (simp add: handler_step_def step_ok_def)
    next
      case (Inr r)
      obtain h' p' where r: "r = (h', p')" by force
      with step Inr have move: "moves_own ?h (v_proxy s) h' p'" "h' \<noteq> H_none" "h' \<noteq> H_start"
        by (simp_all add: step_ok_def)
      let ?s = "s\<lparr>v_proxy := p', v_handlers := (v_handlers s)(i := h')\<rparr>"
      have "eff ?s = (eff s)(i := h')" using 3 move none by (auto simp: eff_def)
      moreover have "owns_ok {0, 1, 2, v_socket s} ((eff s)(i := h')) p'"
        using own by (rule owns_move) (simp add: e move(1))
      ultimately have "server_ok ?s" using ok 3 move(2,3) none unfolding server_ok_def
        by (auto split: mpc.splits)
      with 3 Inr r show ?thesis by (simp add: handler_step_def)
    qed
  qed
qed


lemma prompt_keeps:
  assumes "os_ok os" and "server_ok s"
  shows "(\<exists>e. prompt_step os s ev = Inl e \<and> server_fails e) \<or>
    (\<exists>s'. prompt_step os s ev = Inr s' \<and> server_ok s')"
proof (cases ev)
  case None
  then show ?thesis using main_keeps [OF assms] assms(2) by (auto simp: prompt_step_def server_step_def)
next
  case (Some i)
  then show ?thesis using handler_keeps [OF assms, of i]
    by (auto simp: prompt_step_def server_step_def overtakes_def)
qed

lemma server_start_ok: "os_ok os \<Longrightarrow> server_start os port = Inr s \<Longrightarrow> server_ok s"
proof -
  assume os: "os_ok os" and start: "server_start os port = Inr s"
  from start obtain n p where p: "create_server_socket os n empty_proxy = (v_socket s, p)" "v_socket s \<noteq> - 1"
      "s = \<lparr>v_proxy = p, v_socket = v_socket s, v_pc = M_accept, v_ctx = None, v_count = 0, v_handlers = (\<lambda>_. H_none)\<rparr>"
    by (auto simp: server_start_def split: option.splits prod.splits if_splits)
  have "p_open p = {v_socket s, 0, 1, 2} \<and> p_infos p = 0"
    using p(1,2) by (auto simp: create_server_socket_def Let_def empty_proxy_def split: if_splits)
  then show "server_ok s"
    by (subst p(3), subst p(3)) (auto simp: server_ok_def owns_ok_def owned_def eff_def)
qed

interpretation prompt_server: invariant_of "prompt_step os" "\<lambda>s. os_ok os \<and> server_ok s" "\<lambda>s. os_ok os \<and> server_ok s"
  for os
proof
  fix s e t
  assume "os_ok os \<and> server_ok s" "prompt_step os s e = Inr t"
  with prompt_keeps [of os s e] show "os_ok os \<and> server_ok t" by auto
qed

text \<open>
  Property C4. As long as \<open>main\<close> never overtakes the thread it has just started, and wherever
  the handlers are: the descriptors and blocks that the handlers hold are open and allocated, no
  two handlers share any, and none of them is the server's socket, which stays open; every
  address list that exists is held by a handler. And the proxy fails only by a request or a
  host that overruns its buffer or by a request that is not a valid format.
\<close>

theorem prompt_server_owns:
  assumes "os_ok os" and "server_start os port = Inr s0" and "reach (prompt_step os) s0 s"
  shows "(\<forall>i j. i \<noteq> j \<longrightarrow> fds_of (v_handlers s i) \<inter> fds_of (v_handlers s j) = {} \<and>
      blocks_of (v_handlers s i) \<inter> blocks_of (v_handlers s j) = {}) \<and>
    (\<forall>i. fds_of (v_handlers s i) \<subseteq> p_open (v_proxy s) - {0, 1, 2, v_socket s} \<and>
      blocks_of (v_handlers s i) \<subseteq> dom (p_blocks (v_proxy s))) \<and>
    {0, 1, 2, v_socket s} \<subseteq> p_open (v_proxy s) \<and>
    finite {i. has_info (v_handlers s i)} \<and> p_infos (v_proxy s) = card {i. has_info (v_handlers s i)} \<and>
    (\<forall>ev e. prompt_step os s ev = Inl e \<longrightarrow> e = OutOfBounds \<or> e = Uninitialised)"
proof -
  have ok: "server_ok s"
    using prompt_server.reach_good [OF assms(3)] server_start_ok [OF assms(1,2)] assms(1) by blast
  note own = owns_okD [OF server_okD(1) [OF ok]]
  have sub: "fds_of (v_handlers s i) \<subseteq> fds_of (eff s i)" "blocks_of (v_handlers s i) \<subseteq> blocks_of (eff s i)" for i
    using server_okD(2) [OF ok, of i] by (auto simp: eff_def)
  have "\<not> has_info (holds pc)" for pc by (cases pc) auto
  then have info: "has_info (eff s i) = has_info (v_handlers s i)" for i
    using server_okD(2) [OF ok, of i] by (auto simp: eff_def split: option.split prod.split)
  have "fds_of (v_handlers s i) \<subseteq> p_open (v_proxy s) - {0, 1, 2, v_socket s} \<and>
      blocks_of (v_handlers s i) \<subseteq> dom (p_blocks (v_proxy s))" for i
    using own(1,2) [of i] sub [of i] unfolding owned_def by blast
  moreover have "fds_of (v_handlers s i) \<inter> fds_of (v_handlers s j) = {} \<and>
      blocks_of (v_handlers s i) \<inter> blocks_of (v_handlers s j) = {}" if "i \<noteq> j" for i j
    using own(4,5) [OF that] sub [of i] sub [of j] by blast
  moreover have "e = OutOfBounds \<or> e = Uninitialised" if "prompt_step os s ev = Inl e" for ev e
    using prompt_keeps [OF assms(1) ok, of ev] that by (auto simp: server_fails_def)
  ultimately show ?thesis using own(3,6,7) unfolding info by blast
qed

section \<open>Isolation\<close>

lemma client_step_sends:
  "client_step os h p = Inr (h', p') \<Longrightarrow> \<exists>ws. p_sent p' = p_sent p @ ws \<and> fst ` set ws \<subseteq> fds_of h"
  by (cases h)
    (auto simp: bindr_Inr_iff Let_def write_fd_def calloc_block_def free_block_def tick_def info_freed_def
      opened_def close_fd_def split: if_splits option.splits prod.splits)

lemma main_step_sends: "main_step os pc s = Inr s' \<Longrightarrow> p_sent (v_proxy s') = p_sent (v_proxy s)"
  by (cases pc)
    (auto simp: bindr_Inr_iff Let_def read_request_def calloc_block_def free_block_def tick_def
      opened_def close_fd_def split: if_splits option.splits prod.splits)

lemma main_step_blocks:
  assumes "os_ok os" and "main_step os pc s = Inr s'" and "p_blocks (v_proxy s) a \<noteq> None" and "a \<notin> blocks_of (holds pc)"
  shows "p_blocks (v_proxy s') a = p_blocks (v_proxy s) a"
proof (cases pc)
  case (M_calloc fd)
  have "os_calloc os (p_calls (v_proxy s)) (p_blocks (v_proxy s)) = Some a \<Longrightarrow> p_blocks (v_proxy s) a = None"
    using assms(1) unfolding os_ok_def by blast
  with assms(3) have "os_calloc os (p_calls (v_proxy s)) (p_blocks (v_proxy s)) \<noteq> Some a" by auto
  with assms(2) M_calloc show ?thesis by (auto simp: calloc_block_def Let_def split: option.splits)
next
  case (M_recv fd req)
  with assms(2,4) show ?thesis
    by (cases req) (auto simp: bindr_Inr_iff read_request_def split: if_splits option.splits)
next
  case (M_free fd req)
  with assms(2,4) show ?thesis
    by (cases req) (auto simp: bindr_Inr_iff free_block_def split: if_splits option.splits)
qed (use assms(2) in \<open>auto simp: Let_def split: if_splits option.splits\<close>)

lemma main_step_handlers:
  "main_step os pc s = Inr s' \<Longrightarrow> i \<noteq> v_count s \<Longrightarrow> v_handlers s' i = v_handlers s i"
  by (cases pc) (auto simp: bindr_Inr_iff Let_def split: if_splits option.splits prod.splits)

text \<open>
  \<open>untouched i s s'\<close>: the step from \<open>s\<close> to \<open>s'\<close> leaves the handler \<open>i\<close>, its blocks and its clients alone.
\<close>

definition untouched :: "nat \<Rightarrow> server \<Rightarrow> server \<Rightarrow> bool" where
  "untouched i s s' \<longleftrightarrow> v_handlers s' i = v_handlers s i \<and>
     (\<forall>a. a \<in> blocks_of (v_handlers s i) \<longrightarrow> p_blocks (v_proxy s') a = p_blocks (v_proxy s) a) \<and>
     (\<exists>ws. p_sent (v_proxy s') = p_sent (v_proxy s) @ ws \<and> fst ` set ws \<inter> fds_of (v_handlers s i) = {})"

lemma untouched_same: "v_handlers s' i = v_handlers s i \<Longrightarrow> v_proxy s' = v_proxy s \<Longrightarrow> untouched i s s'"
  by (simp add: untouched_def)

lemma eff_sub:
  "server_ok s \<Longrightarrow> fds_of (v_handlers s j) \<subseteq> fds_of (eff s j)"
  "server_ok s \<Longrightarrow> blocks_of (v_handlers s j) \<subseteq> blocks_of (eff s j)"
  using server_okD(2) [of s j] by (auto simp: eff_def)

lemma blocks_live:
  "server_ok s \<Longrightarrow> a \<in> blocks_of (v_handlers s i) \<Longrightarrow> p_blocks (v_proxy s) a \<noteq> None"
  using owns_okD(1) [OF server_okD(1), of s i] eff_sub(2) [of s i] unfolding owned_def by blast

lemma fds_open: "server_ok s \<Longrightarrow> fds_of (v_handlers s i) \<subseteq> p_open (v_proxy s)"
  using owns_okD(1) [OF server_okD(1), of s i] eff_sub(1) [of s i] unfolding owned_def by blast

lemma main_leaves:
  assumes "os_ok os" and ok: "server_ok s" and "v_handlers s i \<noteq> H_none" and step: "main_step os (v_pc s) s = Inr s'"
  shows "untouched i s s'"
proof -
  have count: "i \<noteq> v_count s" using server_okD(2) [OF ok, of i] assms(3) by auto
  have "blocks_of (holds (v_pc s)) \<subseteq> blocks_of (eff s (v_count s))" by (auto simp: eff_def)
  then have "a \<notin> blocks_of (holds (v_pc s))" if "a \<in> blocks_of (v_handlers s i)" for a
    using owns_okD(5) [OF server_okD(1) [OF ok] count] eff_sub(2) [OF ok, of i] that by blast
  then have "a \<in> blocks_of (v_handlers s i) \<longrightarrow> p_blocks (v_proxy s') a = p_blocks (v_proxy s) a" for a
    using main_step_blocks [OF assms(1) step] blocks_live [OF ok] by blast
  with main_step_handlers [OF step count] main_step_sends [OF step] show ?thesis by (auto simp: untouched_def)
qed

lemma handler_leaves:
  assumes "os_ok os" and ok: "server_ok s" and j: "i \<noteq> j" and step: "handler_step os j (v_handlers s j) s = Inr s'"
  shows "untouched i s s'"
proof (cases "v_handlers s j = H_start \<or> v_handlers s j = H_none")
  case True
  with step j show ?thesis
    by (auto simp: handler_step_def split: option.splits prod.splits if_splits intro!: untouched_same)
next
  case False
  with step obtain h p where c: "client_step os (v_handlers s j) (v_proxy s) = Inr (h, p)"
      "s' = s\<lparr>v_proxy := p, v_handlers := (v_handlers s)(j := h)\<rparr>"
    by (auto simp: handler_step_def bindr_Inr_iff)
  note own = owns_okD [OF server_okD(1) [OF ok]]
  have e: "eff s j = v_handlers s j" using False server_okD(2) [OF ok, of j] by (auto simp: eff_def)
  have "has_info (v_handlers s j) \<Longrightarrow> 0 < p_infos (v_proxy s)"
    using owns_info [OF server_okD(1) [OF ok], of j] e by simp
  from client_step_ok [OF assms(1) own(1) [of j, unfolded e] this] False c(1)
  have move: "moves_own (v_handlers s j) (v_proxy s) h p" by (simp add: step_ok_def)
  have "a \<notin> blocks_of (v_handlers s j)" if "a \<in> blocks_of (v_handlers s i)" for a
    using own(5) [OF j] eff_sub(2) [OF ok, of i] that unfolding e by blast
  then have "a \<in> blocks_of (v_handlers s i) \<longrightarrow> p_blocks p a = p_blocks (v_proxy s) a" for a
    using move blocks_live [OF ok] unfolding moves_own_def by blast
  moreover obtain ws where "p_sent p = p_sent (v_proxy s) @ ws" "fst ` set ws \<subseteq> fds_of (v_handlers s j)"
    using client_step_sends [OF c(1)] by blast
  moreover have "fds_of (v_handlers s j) \<inter> fds_of (v_handlers s i) = {}"
    using own(4) [OF j] eff_sub(1) [OF ok, of i] unfolding e by blast
  ultimately show ?thesis using c(2) j by (auto simp: untouched_def)
qed

text \<open>
  Property C5. As long as \<open>main\<close> never overtakes the thread it has just started, a handler is
  isolated from all others and from \<open>main\<close>: whatever step they make, it stays where it is,
  its descriptors stay open, its blocks keep their contents, and nothing is written to its client
  or to its remote server.
\<close>

theorem handlers_isolated:
  assumes "os_ok os" and "server_start os port = Inr s0" and "reach (prompt_step os) s0 s"
    and "prompt_step os s ev = Inr s'" and "ev \<noteq> Some i" and "v_handlers s i \<noteq> H_none"
  shows "v_handlers s' i = v_handlers s i \<and> fds_of (v_handlers s i) \<subseteq> p_open (v_proxy s') \<and>
    (\<forall>a. a \<in> blocks_of (v_handlers s i) \<longrightarrow> p_blocks (v_proxy s') a = p_blocks (v_proxy s) a) \<and>
    (\<exists>ws. p_sent (v_proxy s') = p_sent (v_proxy s) @ ws \<and> fst ` set ws \<inter> fds_of (v_handlers s i) = {})"
proof -
  have ok: "server_ok s"
    using prompt_server.reach_good [OF assms(3)] server_start_ok [OF assms(1,2)] assms(1) by blast
  have ok': "server_ok s'" using prompt_keeps [OF assms(1) ok, of ev] assms(4) by auto
  have "untouched i s s'"
  proof (cases "prompt_step os s ev = Inr s")
    case True
    with assms(4) show ?thesis by (auto intro: untouched_same)
  next
    case moved: False
    show ?thesis
    proof (cases ev)
      case None
      with assms(4) moved have "main_step os (v_pc s) s = Inr s'"
        by (auto simp: prompt_step_def server_step_def split: if_splits)
      then show ?thesis by (rule main_leaves [OF assms(1) ok assms(6)])
    next
      case (Some j)
      with assms(4) have "handler_step os j (v_handlers s j) s = Inr s'"
        by (simp add: prompt_step_def overtakes_def server_step_def)
      with Some assms(5) show ?thesis by (intro handler_leaves [OF assms(1) ok]) auto
    qed
  qed
  with fds_open [OF ok', of i] show ?thesis by (simp add: untouched_def)
qed

section \<open>A run\<close>

definition demo_server :: server where
  "demo_server =
     \<lparr>v_proxy = \<lparr>p_calls = 3, p_open = {4, 0, 1, 2}, p_infos = 0, p_blocks = Map.empty, p_sent = []\<rparr>,
      v_socket = 4, v_pc = M_accept, v_ctx = None, v_count = 0, v_handlers = (\<lambda>_. H_none)\<rparr>"

lemma demo_server_start: "server_start (demo_os request answer) (Some 8080) = Inr demo_server"
  by (simp add: server_start_def create_server_socket_def demo_os_def empty_proxy_def opened_def tick_def
      demo_server_def Let_def)

lemmas server_evals = server_step_def prompt_step_def overtakes_def demo_server_def demo_os_def Let_def
  tick_def opened_def calloc_block_def read_request_def free_block_def close_fd_def

lemma demo_accepts:
  assumes "request \<noteq> []" and "length request < BUFFER_SIZE"
  shows "\<exists>s. run (server_step (demo_os request answer)) demo_server [None, None, None, None] = Inr s \<and>
      run (prompt_step (demo_os request answer)) demo_server [None, None, None, None] = Inr s \<and>
      v_pc s = M_detach \<and> v_ctx s = Some (0, 3, Some 4) \<and> v_count s = 1 \<and> v_handlers s 0 = H_start \<and>
      p_open (v_proxy s) = {3, 4, 0, 1, 2} \<and> p_blocks (v_proxy s) 4 = Some request"
  using assms by (simp add: server_evals)

lemma prompt_server_owns_witness:
  "\<exists>s. reach (prompt_step (demo_os demo_request [])) demo_server s \<and>
     v_handlers s 0 = H_socket 3 (Some 4) demo_request \<and> fds_of (v_handlers s 0) = {3} \<and>
     {3} \<subseteq> p_open (v_proxy s) \<and> 0 < p_infos (v_proxy s)"
proof -
  let ?os = "demo_os demo_request []"
  have "demo_request \<noteq> []" by (simp add: demo_request_def)
  from demo_accepts [OF this demo_length] obtain s where s:
    "run (prompt_step ?os) demo_server [None, None, None, None] = Inr s" "v_ctx s = Some (0, 3, Some 4)"
    "v_handlers s 0 = H_start" "p_blocks (v_proxy s) 4 = Some demo_request" by blast
  have req: "cstr demo_request = demo_request" by (simp add: cstr_def demo_request_def)
  have status: "os_getaddrinfo ?os n h = 0" for n h by (simp add: demo_os_def)
  let ?t = "s\<lparr>v_handlers := (v_handlers s)(0 := H_socket 3 (Some 4) demo_request),
      v_proxy := (tick (v_proxy s))\<lparr>p_infos := Suc (p_infos (v_proxy s))\<rparr>\<rparr>"
  have "run (prompt_step ?os) s [Some 0, Some 0, Some 0] = Inr ?t"
    using s(2,3,4) demo_find_host demo_printf demo_length
    by (simp add: prompt_step_def overtakes_def server_step_def handler_step_def req status Let_def)
  with s(1) have "run (prompt_step ?os) demo_server ([None, None, None, None] @ [Some 0, Some 0, Some 0]) = Inr ?t"
    by (simp only: run_append bindr.simps)
  then have r: "reach (prompt_step ?os) demo_server ?t" by (rule run_reach)
  have own: "fds_of (v_handlers ?t i) \<subseteq> p_open (v_proxy ?t)" for i
    using prompt_server_owns [OF demo_os_ok demo_server_start r] by blast
  have "v_handlers ?t 0 = H_socket 3 (Some 4) demo_request" "0 < p_infos (v_proxy ?t)" by simp_all
  moreover from own [of 0] this(1) have "{3} \<subseteq> p_open (v_proxy ?t)" by (simp only: fds_of.simps)
  moreover from calculation(1) have "fds_of (v_handlers ?t 0) = {3}" by (simp only: fds_of.simps)
  ultimately show ?thesis using r by blast
qed

text \<open>\<open>main\<close> goes on to accept while the first handler has its request.\<close>

lemma handlers_isolated_witness:
  "\<exists>s s'. v_handlers s 0 = H_format 3 (Some 4) \<and> prompt_step (demo_os demo_request []) s None = Inr s' \<and>
     v_pc s = M_detach \<and> v_pc s' = M_accept \<and> v_handlers s' 0 = H_format 3 (Some 4) \<and>
     p_blocks (v_proxy s') 4 = Some demo_request"
proof -
  let ?os = "demo_os demo_request []"
  have "demo_request \<noteq> []" by (simp add: demo_request_def)
  from demo_accepts [OF this demo_length] obtain s where s:
    "run (prompt_step ?os) demo_server [None, None, None, None] = Inr s" "v_ctx s = Some (0, 3, Some 4)"
    "v_handlers s 0 = H_start" "p_blocks (v_proxy s) 4 = Some demo_request" "v_pc s = M_detach" "v_count s = 1" by blast
  let ?t = "s\<lparr>v_handlers := (v_handlers s)(0 := H_format 3 (Some 4))\<rparr>"
  let ?u = "?t\<lparr>v_ctx := None, v_pc := M_accept\<rparr>"
  have "run (prompt_step ?os) s [Some 0] = Inr ?t"
    using s(2,3) by (simp add: prompt_step_def overtakes_def server_step_def handler_step_def)
  with s(1) have "run (prompt_step ?os) demo_server ([None, None, None, None] @ [Some 0]) = Inr ?t"
    by (simp only: run_append bindr.simps)
  then have r: "reach (prompt_step ?os) demo_server ?t" by (rule run_reach)
  have u: "prompt_step ?os ?t None = Inr ?u"
    using s(5,6) by (simp add: prompt_step_def overtakes_def server_step_def)
  have h: "v_handlers ?t 0 = H_format 3 (Some 4)" by simp
  from handlers_isolated [OF demo_os_ok demo_server_start r u, of 0]
  have "v_handlers ?u 0 = v_handlers ?t 0" "4 \<in> blocks_of (v_handlers ?t 0) \<longrightarrow> p_blocks (v_proxy ?u) 4 = p_blocks (v_proxy ?t) 4"
    unfolding h by (simp, metis hpc.distinct(3) option.distinct(1))
  with h u s(4,5) show ?thesis by (intro exI [of _ ?t] exI [of _ ?u]) simp
qed

text \<open>
  Property C38. Three ways in which the proxy fails on an operating system that does nothing unusual:
  \<open>main\<close> goes on before the new thread has read \<open>ctx\<close>, which no longer exists then; a client
  sends \<open>BUFFER_SIZE\<close> bytes at once; a client sends a percent sign, which the handler uses as a
  format.
\<close>

theorem server_failures:
  "server_start (demo_os request answer) (Some 8080) = Inr demo_server \<and>
   (\<exists>s. run (server_step (demo_os demo_request [])) demo_server [None, None, None, None, None] = Inr s \<and>
      server_step (demo_os demo_request []) s (Some 0) = Inl UseAfterFree) \<and>
   run (server_step (demo_os (replicate 4096 (CHR ''a'')) [])) demo_server [None, None, None] = Inl OutOfBounds \<and>
   (\<exists>s. run (server_step (demo_os ''GET http://a.b/%20'' [])) demo_server [None, None, None, None, Some 0] = Inr s \<and>
      server_step (demo_os ''GET http://a.b/%20'' []) s (Some 0) = Inl Uninitialised)"
proof (intro conjI)
  show "server_start (demo_os request answer) (Some 8080) = Inr demo_server" by (rule demo_server_start)
  have "demo_request \<noteq> []" by (simp add: demo_request_def)
  from demo_accepts [OF this demo_length, of "[]"] show
    "\<exists>s. run (server_step (demo_os demo_request [])) demo_server [None, None, None, None, None] = Inr s \<and>
      server_step (demo_os demo_request []) s (Some 0) = Inl UseAfterFree"
    by (auto simp: server_step_def handler_step_def outcome_simps)
  show "run (server_step (demo_os (replicate 4096 (CHR ''a'')) [])) demo_server [None, None, None] = Inl OutOfBounds"
    by (simp add: server_evals BUFFER_SIZE_def)
  let ?r = "''GET http://a.b/%20''"
  have bad: "printf_plain (cstr ?r) = Inl Uninitialised" by (simp add: cstr_def)
  have "length ?r < BUFFER_SIZE" "?r \<noteq> []" by (simp_all add: BUFFER_SIZE_def)
  from demo_accepts [OF this(2,1), of "[]"] obtain s where s:
    "run (server_step (demo_os ?r [])) demo_server [None, None, None, None] = Inr s" "v_ctx s = Some (0, 3, Some 4)"
    "v_handlers s 0 = H_start" "p_blocks (v_proxy s) 4 = Some ?r" by blast
  let ?t = "s\<lparr>v_handlers := (v_handlers s)(0 := H_format 3 (Some 4))\<rparr>"
  have "run (server_step (demo_os ?r [])) s [Some 0] = Inr ?t"
    using s(2,3) by (simp add: server_step_def handler_step_def)
  with s(1) have "run (server_step (demo_os ?r [])) demo_server ([None, None, None, None] @ [Some 0]) = Inr ?t"
    by (simp only: run_append bindr.simps)
  moreover have "server_step (demo_os ?r []) ?t (Some 0) = Inl Uninitialised"
    using s(4) bad by (simp add: server_step_def handler_step_def)
  ultimately show
    "\<exists>s. run (server_step (demo_os ?r [])) demo_server [None, None, None, None, Some 0] = Inr s \<and>
      server_step (demo_os ?r []) s (Some 0) = Inl Uninitialised"
    by (intro exI [of _ ?t]) simp
qed

end
