(* ===== verification/MyThread.thy ===== *)
theory MyThread
  imports Storage
begin

text \<open>
  \<^verbatim>\<open>lab1/6\<close>: threads built on \<open>clone\<close> (\<^verbatim>\<open>mythread.c\<close>, \<^verbatim>\<open>mythread.h\<close>) and the program that uses them
  (\<^verbatim>\<open>6.c\<close>). First the memory: the stack of a thread is a mapped file whose first page stays
  inaccessible and whose end holds the structure of the thread. Then the protocol between a
  thread, its creator and \<open>mythread_join\<close>, as interleaved steps.
\<close>

section \<open>Stacks\<close>

definition PAGE :: nat where
  "PAGE = 4096"

definition STACK_SIZE :: nat where
  "STACK_SIZE = 3 * PAGE"

text \<open>
  The structure: an \<open>int\<close>, three pointers and three \<open>int\<close>s, 48 bytes with padding on x86-64. The
  return value is None while it is NULL.
\<close>

record ('a, 'r) mythread_struct =
  t_id :: int
  t_arg :: 'a
  t_routine :: "'a \<Rightarrow> 'r"
  t_retval :: "'r option"
  t_joinable :: int
  t_joined :: int
  t_finished :: int

definition struct_size :: nat where
  "struct_size = 48"

text \<open>
  The process: the static counter \<open>mythread_id\<close>, the open descriptors, the bytes that may be
  written, and the thread structures in memory.
\<close>

record ('a, 'r) process =
  m_thread_id :: int
  m_fds :: "int set"
  m_writable :: "addr set"
  m_structs :: "addr \<Rightarrow> ('a, 'r) mythread_struct option"

text \<open>The results of the system calls of one \<open>mythread_create\<close>.\<close>

record my_os =
  o_open :: "string \<Rightarrow> int"
  o_truncate :: int
  o_resize :: int
  o_mmap :: "addr option"
  o_mprotect :: int

definition stack_file :: "int \<Rightarrow> string" where
  "stack_file mytid = ''stack-'' @ decimal (nat mytid)"

definition create_stack :: "my_os \<Rightarrow> int \<Rightarrow> ('a, 'r) process \<Rightarrow> addr option \<times> ('a, 'r) process" where
  "create_stack os mytid m =
     (let stack_fd = o_open os (stack_file mytid) in
      if stack_fd = - 1 then (None, m)
      else
        let m = m\<lparr>m_fds := insert stack_fd (m_fds m)\<rparr>; closed = m\<lparr>m_fds := m_fds m - {stack_fd}\<rparr> in
        if o_truncate os = - 1 then (None, closed)
        else if o_resize os = - 1 then (None, closed)
        else (o_mmap os, closed))"

text \<open>A store to bytes that may not be written ends the process.\<close>

definition write_bytes :: "addr \<Rightarrow> nat \<Rightarrow> ('a, 'r) process \<Rightarrow> fault + unit" where
  "write_bytes a n m = (if {a ..< a + n} \<subseteq> m_writable m then Inr () else Inl OutOfBounds)"

text \<open>
  The part of \<open>mythread_create\<close> that prepares the mapping: the result of \<open>mprotect\<close> is not
  tested; the fill pattern and the structure are then written.
\<close>

definition place_thread ::
  "my_os \<Rightarrow> int \<Rightarrow> int \<Rightarrow> ('a \<Rightarrow> 'r) \<Rightarrow> 'a \<Rightarrow> addr \<Rightarrow> ('a, 'r) process \<Rightarrow> fault + addr option \<times> ('a, 'r) process" where
  "place_thread os mythread_id is_joinable start_routine arg child_stack m =
     (let m = (if o_mprotect os = 0
               then m\<lparr>m_writable := m_writable m \<union> {child_stack + PAGE ..< child_stack + STACK_SIZE}\<rparr>
               else m);
          thread = child_stack + STACK_SIZE - struct_size in
      bindr (write_bytes (child_stack + PAGE) (STACK_SIZE - PAGE) m) (\<lambda>_.
      bindr (write_bytes thread struct_size m) (\<lambda>_.
      Inr (Some thread,
           m\<lparr>m_structs := (m_structs m)(thread \<mapsto>
                \<lparr>t_id = mythread_id, t_arg = arg, t_routine = start_routine, t_retval = None,
                 t_joinable = is_joinable, t_joined = 0, t_finished = 0\<rparr>)\<rparr>))))"

text \<open>\<open>mythread_create\<close> up to \<open>clone\<close>. The result None is the return value -1.\<close>

definition create_thread ::
  "my_os \<Rightarrow> int \<Rightarrow> ('a \<Rightarrow> 'r) \<Rightarrow> 'a \<Rightarrow> ('a, 'r) process \<Rightarrow> fault + addr option \<times> ('a, 'r) process" where
  "create_thread os is_joinable start_routine arg m =
     bindr (c_int (m_thread_id m + 1)) (\<lambda>mythread_id.
     case create_stack os mythread_id (m\<lparr>m_thread_id := mythread_id\<rparr>) of
       (None, m) \<Rightarrow> Inr (None, m)
     | (Some child_stack, m) \<Rightarrow> place_thread os mythread_id is_joinable start_routine arg child_stack m)"

lemmas layout_defs = PAGE_def STACK_SIZE_def struct_size_def

lemma create_stack_keeps:
  assumes "o_open os (stack_file mytid) \<notin> m_fds m"
  shows "create_stack os mytid m =
    (if o_open os (stack_file mytid) = - 1 \<or> o_truncate os = - 1 \<or> o_resize os = - 1 then None else o_mmap os, m)"
proof -
  have "m\<lparr>m_fds := m_fds m - {o_open os (stack_file mytid)}\<rparr> = m" using assms by simp
  then show ?thesis by (simp add: create_stack_def Let_def insert_Diff_if)
qed

lemma create_thread_unfold:
  assumes "o_open os (stack_file (m_thread_id m + 1)) \<notin> m_fds m" and "INT_MIN \<le> m_thread_id m" and "m_thread_id m < INT_MAX"
  shows "create_thread os is_joinable start_routine arg m =
    (let m = m\<lparr>m_thread_id := m_thread_id m + 1\<rparr> in
     case (if o_open os (stack_file (m_thread_id m)) = - 1 \<or> o_truncate os = - 1 \<or> o_resize os = - 1
           then None else o_mmap os) of
       None \<Rightarrow> Inr (None, m)
     | Some b \<Rightarrow> place_thread os (m_thread_id m) is_joinable start_routine arg b m)"
proof -
  let ?m = "m\<lparr>m_thread_id := m_thread_id m + 1\<rparr>"
  have "c_int (m_thread_id m + 1) = Inr (m_thread_id m + 1)" using assms by (simp add: c_int_ok)
  moreover note create_stack_keeps [of os "m_thread_id m + 1" ?m]
  ultimately show ?thesis using assms(1) by (simp add: create_thread_def Let_def split: option.split)
qed

lemma place_not_null: "place_thread os i j f x b m \<noteq> Inr (None, m')"
  by (auto simp: place_thread_def outcome_simps Let_def)

lemma place_ok:
  assumes "o_mprotect os = 0"
  shows "place_thread os i j f x b m =
    Inr (Some (b + 12240),
      m\<lparr>m_writable := m_writable m \<union> {b + PAGE ..< b + STACK_SIZE},
        m_structs := (m_structs m)(b + 12240 \<mapsto>
          \<lparr>t_id = i, t_arg = x, t_routine = f, t_retval = None, t_joinable = j, t_joined = 0, t_finished = 0\<rparr>)\<rparr>)"
proof -
  let ?m = "m\<lparr>m_writable := m_writable m \<union> {b + PAGE ..< b + STACK_SIZE}\<rparr>"
  have "write_bytes (b + PAGE) (STACK_SIZE - PAGE) ?m = Inr ()" "write_bytes (b + STACK_SIZE - struct_size) struct_size ?m = Inr ()"
    by (auto simp: write_bytes_def layout_defs)
  moreover have "b + STACK_SIZE - struct_size = b + 12240" by (simp add: layout_defs)
  ultimately show ?thesis using assms by (simp add: place_thread_def Let_def)
qed

lemma place_fails: "place_thread os i j f x b m = Inl e \<Longrightarrow> o_mprotect os \<noteq> 0"
  using place_ok [of os i j f x b m] by auto

text \<open>
  Property C27. When the system calls succeed on a new, page-aligned mapping, \<open>mythread_create\<close>
  leaves no descriptor open, makes exactly the part of the mapping above its first page
  writable, and puts the initialised structure at its end: inside the writable part, with the
  stack of the thread (which grows down from the structure) between the guard page and the
  structure, and aligned to 16 bytes. Whatever fails, no descriptor stays open and no structure
  is written.
\<close>

theorem mythread_create_layout:
  assumes fd: "o_open os (stack_file (m_thread_id m + 1)) \<notin> m_fds m"
    and id: "INT_MIN \<le> m_thread_id m" "m_thread_id m < INT_MAX"
  shows "(\<forall>b. o_open os (stack_file (m_thread_id m + 1)) \<noteq> - 1 \<and> o_truncate os \<noteq> - 1 \<and> o_resize os \<noteq> - 1 \<and>
      o_mmap os = Some b \<and> b mod PAGE = 0 \<and> o_mprotect os = 0 \<and> {b ..< b + STACK_SIZE} \<inter> m_writable m = {} \<longrightarrow>
      (\<exists>m'. create_thread os is_joinable start_routine arg m = Inr (Some (b + 12240), m') \<and>
        m_fds m' = m_fds m \<and>
        m_writable m' \<inter> {b ..< b + STACK_SIZE} = {b + PAGE ..< b + STACK_SIZE} \<and>
        b + PAGE < b + 12240 \<and> b + 12240 + struct_size = b + STACK_SIZE \<and> (b + 12240) mod 16 = 0 \<and>
        m_structs m' (b + 12240) = Some \<lparr>t_id = m_thread_id m + 1, t_arg = arg, t_routine = start_routine,
          t_retval = None, t_joinable = is_joinable, t_joined = 0, t_finished = 0\<rparr>)) \<and>
    (\<forall>m'. create_thread os is_joinable start_routine arg m = Inr (None, m') \<longrightarrow>
      m_fds m' = m_fds m \<and> m_structs m' = m_structs m) \<and>
    (\<forall>e. create_thread os is_joinable start_routine arg m = Inl e \<longrightarrow> o_mprotect os \<noteq> 0)"
proof (intro conjI allI impI)
  note unfold = create_thread_unfold [OF fd id, of is_joinable start_routine arg]
  {
    fix b
    assume s: "o_open os (stack_file (m_thread_id m + 1)) \<noteq> - 1 \<and> o_truncate os \<noteq> - 1 \<and> o_resize os \<noteq> - 1 \<and>
        o_mmap os = Some b \<and> b mod PAGE = 0 \<and> o_mprotect os = 0 \<and> {b ..< b + STACK_SIZE} \<inter> m_writable m = {}"
    then have "4096 dvd b" by (simp add: PAGE_def mod_eq_0_iff_dvd)
    then have "16 dvd b" using dvd_trans [of 16 4096 b] by simp
    then have "16 dvd b + 12240" by (rule dvd_add) simp
    then have "(b + 12240) mod 16 = 0" by (simp only: mod_eq_0_iff_dvd)
    moreover have "(m_writable m \<union> {b + PAGE ..< b + STACK_SIZE}) \<inter> {b ..< b + STACK_SIZE} = {b + PAGE ..< b + STACK_SIZE}"
      using s by auto
    moreover have "create_thread os is_joinable start_routine arg m =
        place_thread os (m_thread_id m + 1) is_joinable start_routine arg b (m\<lparr>m_thread_id := m_thread_id m + 1\<rparr>)"
      unfolding unfold using s by simp
    ultimately show "\<exists>m'. create_thread os is_joinable start_routine arg m = Inr (Some (b + 12240), m') \<and>
          m_fds m' = m_fds m \<and>
          m_writable m' \<inter> {b ..< b + STACK_SIZE} = {b + PAGE ..< b + STACK_SIZE} \<and>
          b + PAGE < b + 12240 \<and> b + 12240 + struct_size = b + STACK_SIZE \<and> (b + 12240) mod 16 = 0 \<and>
          m_structs m' (b + 12240) = Some \<lparr>t_id = m_thread_id m + 1, t_arg = arg, t_routine = start_routine,
            t_retval = None, t_joinable = is_joinable, t_joined = 0, t_finished = 0\<rparr>"
      using s by (simp add: place_ok) (simp add: layout_defs)
  next
    fix m'
    assume "create_thread os is_joinable start_routine arg m = Inr (None, m')"
    then have "m' = m\<lparr>m_thread_id := m_thread_id m + 1\<rparr>"
      unfolding unfold Let_def by (simp add: place_not_null split: option.splits if_splits)
    then show "m_fds m' = m_fds m" "m_structs m' = m_structs m" by simp_all
  next
    fix e
    assume "create_thread os is_joinable start_routine arg m = Inl e"
    then show "o_mprotect os \<noteq> 0"
      unfolding unfold Let_def by (auto split: option.splits if_splits dest: place_fails)
  }
qed

lemma mythread_create_layout_witness:
  "\<exists>m'. create_thread \<lparr>o_open = (\<lambda>_. 3), o_truncate = 0, o_resize = 0, o_mmap = Some 8192, o_mprotect = 0\<rparr>
      1 Suc 41 \<lparr>m_thread_id = 0, m_fds = {0, 1, 2}, m_writable = {}, m_structs = Map.empty\<rparr> = Inr (Some 20432, m') \<and>
    m_fds m' = {0, 1, 2}"
  using mythread_create_layout [of "\<lparr>o_open = (\<lambda>_. 3), o_truncate = 0, o_resize = 0, o_mmap = Some 8192, o_mprotect = 0\<rparr>"
      "\<lparr>m_thread_id = 0, m_fds = {0, 1, 2}, m_writable = {}, m_structs = Map.empty\<rparr>" 1 Suc 41]
  by (simp add: c_limits PAGE_def) blast

section \<open>Creating and joining\<close>

text \<open>
  Where the creator is, from \<open>clone\<close> in \<open>mythread_create\<close> to the end of a \<open>mythread_join\<close> of the
  same thread, and where the thread is in \<open>thread_startup\<close>.
\<close>

datatype cpc = C_clone | C_wait | C_store | J_wait | J_read | J_set | J_done

datatype 'r tpc = T_absent | T_run | T_ret 'r | T_fin | T_test | T_spin | T_exit

text \<open>
  \<open>y_retval\<close> is the variable that \<open>mythread_join\<close> writes, None while it is not initialised.
\<close>

record ('a, 'r) joining =
  y_thread :: "('a, 'r) mythread_struct"
  y_main :: cpc
  y_child :: "'r tpc"
  y_retval :: "'r option option"

text \<open>
  The result of \<open>clone\<close> is not tested. A thread that is not joinable is waited for with
  \<open>waitpid\<close> at once; if \<open>clone\<close> failed there is no child, and \<open>waitpid\<close> returns an error.
\<close>

fun creator_step :: "bool \<Rightarrow> cpc \<Rightarrow> ('a, 'r) joining \<Rightarrow> ('a, 'r) joining" where
  "creator_step clone_ok C_clone s =
     s\<lparr>y_child := if clone_ok then T_run else T_absent,
       y_main := if t_joinable (y_thread s) = 0 then C_wait else C_store\<rparr>"
| "creator_step clone_ok C_wait s =
     (if y_child s = T_exit \<or> y_child s = T_absent then s\<lparr>y_main := C_store\<rparr> else s)"
| "creator_step clone_ok C_store s = s\<lparr>y_main := J_wait\<rparr>"
| "creator_step clone_ok J_wait s = (if t_finished (y_thread s) \<noteq> 0 then s\<lparr>y_main := J_read\<rparr> else s)"
| "creator_step clone_ok J_read s = s\<lparr>y_retval := Some (t_retval (y_thread s)), y_main := J_set\<rparr>"
| "creator_step clone_ok J_set s = s\<lparr>y_thread := (y_thread s)\<lparr>t_joined := 1\<rparr>, y_main := J_done\<rparr>"
| "creator_step clone_ok J_done s = s"

fun startup_step :: "'r tpc \<Rightarrow> ('a, 'r) joining \<Rightarrow> ('a, 'r) joining" where
  "startup_step T_absent s = s"
| "startup_step T_run s = s\<lparr>y_child := T_ret (t_routine (y_thread s) (t_arg (y_thread s)))\<rparr>"
| "startup_step (T_ret r) s = s\<lparr>y_thread := (y_thread s)\<lparr>t_retval := Some r\<rparr>, y_child := T_fin\<rparr>"
| "startup_step T_fin s = s\<lparr>y_thread := (y_thread s)\<lparr>t_finished := 1\<rparr>, y_child := T_test\<rparr>"
| "startup_step T_test s = s\<lparr>y_child := if t_joinable (y_thread s) \<noteq> 0 then T_spin else T_exit\<rparr>"
| "startup_step T_spin s = (if t_joined (y_thread s) \<noteq> 0 then s\<lparr>y_child := T_exit\<rparr> else s)"
| "startup_step T_exit s = s"

datatype actor = Creator | Child

definition join_step :: "bool \<Rightarrow> ('a, 'r) joining \<Rightarrow> actor \<Rightarrow> fault + ('a, 'r) joining" where
  "join_step clone_ok s e =
     Inr (case e of Creator \<Rightarrow> creator_step clone_ok (y_main s) s | Child \<Rightarrow> startup_step (y_child s) s)"

definition join_start :: "int \<Rightarrow> int \<Rightarrow> ('a \<Rightarrow> 'r) \<Rightarrow> 'a \<Rightarrow> ('a, 'r) joining" where
  "join_start mythread_id is_joinable start_routine arg =
     \<lparr>y_thread = \<lparr>t_id = mythread_id, t_arg = arg, t_routine = start_routine, t_retval = None,
        t_joinable = is_joinable, t_joined = 0, t_finished = 0\<rparr>,
      y_main = C_clone, y_child = T_absent, y_retval = None\<rparr>"

text \<open>What holds in every reachable state.\<close>

fun child_ok :: "bool \<Rightarrow> ('a, 'r) mythread_struct \<Rightarrow> cpc \<Rightarrow> 'r tpc \<Rightarrow> bool" where
  "child_ok clone_ok th c T_absent = (t_finished th = 0 \<and> (c = C_clone \<or> \<not> clone_ok))"
| "child_ok clone_ok th c T_run = (clone_ok \<and> c \<noteq> C_clone \<and> t_finished th = 0)"
| "child_ok clone_ok th c (T_ret r) = (clone_ok \<and> c \<noteq> C_clone \<and> t_finished th = 0 \<and> r = t_routine th (t_arg th))"
| "child_ok clone_ok th c T_fin = (clone_ok \<and> c \<noteq> C_clone \<and> t_finished th = 0 \<and> t_retval th = Some (t_routine th (t_arg th)))"
| "child_ok clone_ok th c T_test = (clone_ok \<and> c \<noteq> C_clone \<and> t_finished th = 1 \<and> t_retval th = Some (t_routine th (t_arg th)))"
| "child_ok clone_ok th c T_spin = (clone_ok \<and> c \<noteq> C_clone \<and> t_finished th = 1 \<and> t_joinable th \<noteq> 0 \<and>
     t_retval th = Some (t_routine th (t_arg th)))"
| "child_ok clone_ok th c T_exit = (clone_ok \<and> c \<noteq> C_clone \<and> t_finished th = 1 \<and>
     (t_joinable th \<noteq> 0 \<longrightarrow> t_joined th = 1) \<and> t_retval th = Some (t_routine th (t_arg th)))"

fun creator_ok :: "('a, 'r) joining \<Rightarrow> cpc \<Rightarrow> bool" where
  "creator_ok s C_clone = (t_joined (y_thread s) = 0 \<and> y_child s = T_absent)"
| "creator_ok s C_wait = (t_joined (y_thread s) = 0 \<and> t_joinable (y_thread s) = 0)"
| "creator_ok s C_store = (t_joined (y_thread s) = 0)"
| "creator_ok s J_wait = (t_joined (y_thread s) = 0)"
| "creator_ok s J_read = (t_joined (y_thread s) = 0 \<and> t_finished (y_thread s) = 1)"
| "creator_ok s J_set = (t_joined (y_thread s) = 0 \<and> t_finished (y_thread s) = 1 \<and> y_retval s = Some (t_retval (y_thread s)))"
| "creator_ok s J_done = (t_joined (y_thread s) = 1 \<and> t_finished (y_thread s) = 1 \<and> y_retval s = Some (t_retval (y_thread s)))"

definition join_ok :: "bool \<Rightarrow> ('a, 'r) joining \<Rightarrow> bool" where
  "join_ok clone_ok s \<longleftrightarrow> child_ok clone_ok (y_thread s) (y_main s) (y_child s) \<and> creator_ok s (y_main s) \<and>
     (clone_ok \<and> t_joinable (y_thread s) = 0 \<and> y_main s \<notin> {C_clone, C_wait} \<longrightarrow> y_child s = T_exit)"

lemma join_start_ok: "join_ok clone_ok (join_start i j f x)"
  by (simp add: join_ok_def join_start_def)

lemma creator_keeps: "join_ok clone_ok s \<Longrightarrow> join_ok clone_ok (creator_step clone_ok (y_main s) s)"
  by (cases "y_main s"; cases "y_child s") (auto simp: join_ok_def)

lemma startup_keeps: "join_ok clone_ok s \<Longrightarrow> join_ok clone_ok (startup_step (y_child s) s)"
  by (cases "y_child s"; cases "y_main s") (auto simp: join_ok_def)

interpretation joining: invariant_of "join_step clone_ok" "join_ok clone_ok" "join_ok clone_ok" for clone_ok
proof
  fix s :: "('a, 'r) joining" and e t
  assume "join_ok clone_ok s" "join_step clone_ok s e = Inr t"
  then show "join_ok clone_ok t" by (cases e) (auto simp: join_step_def creator_keeps startup_keeps)
qed

lemma start_same:
  "reach (join_step clone_ok) (join_start i j f x) s \<Longrightarrow>
     t_joinable (y_thread s) = j \<and> t_routine (y_thread s) = f \<and> t_arg (y_thread s) = x"
proof (induction rule: reach.induct)
  case (step s e t)
  then show ?case
    by (cases e; cases "y_main s"; cases "y_child s") (auto simp: join_step_def split: if_splits)
qed (simp add: join_start_def)

text \<open>
  Property C19. In every interleaving of a thread with its creator: once \<open>mythread_join\<close> has
  returned, its variable holds the result of the start routine; a joinable thread does not end
  before it is joined; and \<open>mythread_create\<close> of a thread that is not joinable returns only after
  the thread has ended.
\<close>

theorem join_protocol:
  assumes "reach (join_step True) (join_start mythread_id is_joinable start_routine arg) s"
  shows "(y_main s = J_done \<longrightarrow> y_retval s = Some (Some (start_routine arg))) \<and>
    (is_joinable \<noteq> 0 \<and> y_child s = T_exit \<longrightarrow> t_joined (y_thread s) = 1) \<and>
    (is_joinable = 0 \<and> y_main s \<notin> {C_clone, C_wait} \<longrightarrow> y_child s = T_exit)"
proof -
  have ok: "join_ok True s" by (rule joining.reach_good [OF assms join_start_ok])
  note same = start_same [OF assms]
  have "y_main s = J_done \<longrightarrow> y_retval s = Some (Some (start_routine arg))"
    using ok same by (cases "y_child s") (auto simp: join_ok_def)
  moreover have "is_joinable \<noteq> 0 \<and> y_child s = T_exit \<longrightarrow> t_joined (y_thread s) = 1"
    using ok same by (auto simp: join_ok_def)
  moreover have "is_joinable = 0 \<and> y_main s \<notin> {C_clone, C_wait} \<longrightarrow> y_child s = T_exit"
    using ok same by (auto simp: join_ok_def)
  ultimately show ?thesis by blast
qed

definition full_join :: "actor list" where
  "full_join = replicate 2 Creator @ replicate 4 Child @ replicate 3 Creator @ [Child]"

lemma full_join_run:
  "\<exists>s. run (join_step True) (join_start 1 1 Suc 41) full_join = Inr s \<and> y_main s = J_done \<and> y_child s = T_exit"
  by (simp add: full_join_def join_step_def join_start_def numeral_eq_Suc)

lemma join_protocol_witness:
  "\<exists>s. run (join_step True) (join_start 1 1 Suc 41) full_join = Inr s \<and> y_retval s = Some (Some 42)"
proof -
  obtain s where s: "run (join_step True) (join_start 1 1 Suc 41) full_join = Inr s" "y_main s = J_done"
    using full_join_run by blast
  with join_protocol [OF run_reach [OF s(1)]] show ?thesis by auto
qed

text \<open>The steps that are left: every step that changes something makes it smaller.\<close>

fun creator_left :: "cpc \<Rightarrow> nat" where
  "creator_left C_clone = 12" | "creator_left C_wait = 5" | "creator_left C_store = 4" | "creator_left J_wait = 3"
| "creator_left J_read = 2" | "creator_left J_set = 1" | "creator_left J_done = 0"

fun child_left :: "'r tpc \<Rightarrow> nat" where
  "child_left T_absent = 0" | "child_left T_run = 5" | "child_left (T_ret r) = 4" | "child_left T_fin = 3"
| "child_left T_test = 2" | "child_left T_spin = 1" | "child_left T_exit = 0"

text \<open>An execution of steps each of which changes the state: turns of a waiting loop are left out.\<close>

fun moves :: "bool \<Rightarrow> ('a, 'r) joining \<Rightarrow> actor list \<Rightarrow> bool" where
  "moves clone_ok s [] = True"
| "moves clone_ok s (e # es) =
     (case join_step clone_ok s e of Inl _ \<Rightarrow> False | Inr t \<Rightarrow> t \<noteq> s \<and> moves clone_ok t es)"

lemma move_decreases:
  assumes "join_step clone_ok s e = Inr t" and "t \<noteq> s"
  shows "creator_left (y_main t) + child_left (y_child t) < creator_left (y_main s) + child_left (y_child s) \<or>
    (y_main s = C_clone \<and> y_child s \<noteq> T_absent)"
  using assms by (cases e; cases "y_main s"; cases "y_child s") (auto simp: join_step_def split: if_splits)

lemma moves_bounded:
  "moves clone_ok s es \<Longrightarrow> join_ok clone_ok s \<Longrightarrow>
     length es \<le> creator_left (y_main s) + child_left (y_child s)"
proof (induction es arbitrary: s)
  case (Cons e es)
  then obtain t where t: "join_step clone_ok s e = Inr t" "t \<noteq> s" "moves clone_ok t es"
    by (auto split: sum.splits)
  have "join_ok clone_ok t" using joining.good_step [OF Cons.prems(2) t(1)] .
  from Cons.IH [OF t(3) this] move_decreases [OF t(1,2)] Cons.prems(2) show ?case
    by (auto simp: join_ok_def)
qed simp

lemma join_not_stuck:
  assumes "join_ok True s" and "join_step True s Creator = Inr s" and "join_step True s Child = Inr s"
  shows "y_main s = J_done \<and> y_child s = T_exit"
proof -
  have "creator_step True (y_main s) s = s" "startup_step (y_child s) s = s"
    using assms by (simp_all add: join_step_def)
  from arg_cong [where f = y_main, OF this(1)] arg_cong [where f = y_child, OF this(2)] assms(1) show ?thesis
    by (cases "y_main s"; cases "y_child s") (auto simp: join_ok_def split: if_splits)
qed

text \<open>
  Property C26. Creation, thread and join together end after at most 12 steps, turns of the
  waiting loops left out, and never get stuck before both have ended. But if \<open>clone\<close> fails, which
  \<open>mythread_create\<close> does not notice, \<open>mythread_join\<close> waits for ever.
\<close>

theorem join_terminates:
  assumes "moves True (join_start mythread_id is_joinable start_routine arg) es"
    and "run (join_step True) (join_start mythread_id is_joinable start_routine arg) es = Inr s"
  shows "length es \<le> 12 \<and>
    (join_step True s Creator = Inr s \<and> join_step True s Child = Inr s \<longrightarrow> y_main s = J_done \<and> y_child s = T_exit) \<and>
    (\<forall>s'. reach (join_step False) (join_start mythread_id is_joinable start_routine arg) s' \<longrightarrow>
      y_main s' \<notin> {J_read, J_set, J_done})"
proof (intro conjI allI impI)
  let ?s0 = "join_start mythread_id is_joinable start_routine arg"
  show "length es \<le> 12" using moves_bounded [OF assms(1) join_start_ok] by (simp add: join_start_def)
  have ok: "join_ok True s" by (rule joining.run_good [OF assms(2) join_start_ok])
  {
    assume "join_step True s Creator = Inr s \<and> join_step True s Child = Inr s"
    with join_not_stuck [OF ok] show "y_main s = J_done" "y_child s = T_exit" by auto
  next
    fix s'
    assume "reach (join_step False) ?s0 s'"
    then have "join_ok False s'" by (rule joining.reach_good [OF _ join_start_ok])
    then show "y_main s' \<notin> {J_read, J_set, J_done}" by (cases "y_child s'") (auto simp: join_ok_def)
  }
qed

lemma join_terminates_witness:
  "\<exists>s. run (join_step True) (join_start 1 1 Suc 41) full_join = Inr s \<and> length full_join \<le> 12"
proof -
  have "moves True (join_start 1 1 Suc 41) full_join"
    by (simp add: full_join_def join_step_def join_start_def numeral_eq_Suc)
  moreover obtain s where s: "run (join_step True) (join_start 1 1 Suc 41) full_join = Inr s"
    using full_join_run by blast
  ultimately show ?thesis using join_terminates [of 1 1 Suc 41 full_join s] by auto
qed

section \<open>The program\<close>

text \<open>
  \<open>mythread\<close> and \<open>main\<close> of \<^verbatim>\<open>6.c\<close>: what they print, and the result. The call of \<open>mythread_join\<close> is
  commented out, so \<open>retval\<close> is never written. The opening quotation mark of the printed line is
  the character U+2018, three bytes in the source file, the closing one an apostrophe.
\<close>

definition mythread :: "string \<Rightarrow> string list \<times> string" where
  "mythread str =
     (replicate 4 (''hello from my thread '' @ [CHR 0xE2, CHR 0x80, CHR 0x98] @ str @ [CHR 0x27, CHR 0x0A]),
      ''bay'')"

definition lab6_main :: "my_os \<Rightarrow> (string, string list \<times> string) process \<Rightarrow> fault + int" where
  "lab6_main os m =
     bindr (create_thread os 0 mythread ''hello from main'' m) (\<lambda>(mytid, m).
     let err = (if mytid = None then - 1 else 0); retval = (None :: string option) in
     if err \<noteq> (0 :: int) then Inr (- 1)
     else case retval of None \<Rightarrow> Inl Uninitialised | Some r \<Rightarrow> Inr 0)"

lemma lab6_main_uninitialised:
  "create_thread os 0 mythread ''hello from main'' m = Inr (Some a, m') \<Longrightarrow> lab6_main os m = Inl Uninitialised"
  by (simp add: lab6_main_def)

end
