(* ===== verification/Lab1.thy ===== *)
theory Lab1
  imports Storage
begin

text \<open>
  The demonstrations of \<^verbatim>\<open>lab1\<close>: small programs that create, join, detach and cancel threads. The
  results of the library calls are parameters; a program gives its exit status and its output,
  and, where it uses the heap, what is left there. \<^verbatim>\<open>4/c.c\<close> (cancellation with a cleanup handler)
  and \<^verbatim>\<open>3/b.c\<close> (memory handed to a detached thread) are machines whose steps interleave.
\<close>

section \<open>Creating and joining\<close>

text \<open>The results of the library calls that most of the programs make.\<close>

record calls =
  r_attr_init :: int
  r_setdetach :: int
  r_create :: int
  r_join :: int
  r_cancel :: int

text \<open>
  Identifiers are parameters: of the process, its parent, and of a thread the one of the
  kernel and the one of the thread library. An error message ends where the text of \<open>strerror\<close> begins.
\<close>

record ids =
  i_pid :: nat
  i_ppid :: nat
  i_gettid :: nat
  i_self :: nat

definition hello :: "string \<Rightarrow> ids \<Rightarrow> string" where
  "hello who ids =
     who @ ''['' @ decimal (i_pid ids) @ '' '' @ decimal (i_ppid ids) @ '' '' @ decimal (i_gettid ids) @
     '']: Hello from '' @ who @ ''!''"

text \<open>\<^verbatim>\<open>1/thread.c\<close>: the new thread may or may not get to print before \<open>main\<close> has slept.\<close>

definition thread_main :: "calls \<Rightarrow> ids \<Rightarrow> ids option \<Rightarrow> int \<times> string list" where
  "thread_main r ids thread =
     (if r_create r \<noteq> 0 then (- 1, [hello ''main'' ids, ''main: pthread_create() failed: ''])
      else (0, hello ''main'' ids # (case thread of None \<Rightarrow> [] | Some t \<Rightarrow> [hello ''mythread'' t])))"

text \<open>
  \<^verbatim>\<open>1/b.c\<close>: a thread prints its identifiers and the addresses of four variables (\<open>addresses\<close>, as \<open>%p\<close>
  prints them) and compares its identifiers with the one that \<open>main\<close> keeps in \<open>tid[i]\<close>. It reads that
  through a pointer; it reads None when the element is not written yet.
\<close>

definition b_ids :: "string \<Rightarrow> ids \<Rightarrow> string" where
  "b_ids who ids =
     who @ ''[PID: '' @ decimal (i_pid ids) @ '', PPID: '' @ decimal (i_ppid ids) @
     '', TID(p_s): '' @ decimal (i_self ids)"

definition b_mythread :: "ids \<Rightarrow> string list \<Rightarrow> nat option \<Rightarrow> fault + string list" where
  "b_mythread ids addresses arg =
     (case arg of
        None \<Rightarrow> Inl Uninitialised
      | Some tid \<Rightarrow>
          Inr ((b_ids ''mythread'' ids @ '', TID(gettid): '' @ decimal (i_gettid ids) @ '']:'') #
            map2 (@) [''Local Variable Address: '', ''Static Local Variable Address: '',
                      ''Constant Local Variable Address: '', ''Global Variable Address: ''] addresses @
            [if i_self ids = tid then ''pthread_self mythread: Thread IDs match!''
               else ''pthread_self mythread: Thread IDs do not match.'',
             if i_gettid ids = tid then ''gettid mythread: Thread IDs match!''
               else ''gettid mythread: Thread IDs do not match.'']))"

definition NUM_THREADS :: nat where
  "NUM_THREADS = 5"

text \<open>
  \<open>main\<close> and its threads. \<open>pthread_create\<close> writes \<open>tid[i]\<close> after the thread has begun to exist
  (\<open>C_store\<close>); a join waits for the end of its thread.
\<close>

datatype bpc = C_create nat | C_store nat | C_join nat | C_exit int

record bprog =
  b_pc :: bpc
  b_tid :: "nat \<Rightarrow> nat option"
  b_created :: nat
  b_done :: "nat \<Rightarrow> bool"
  b_out :: "string list"

definition b_start :: "ids \<Rightarrow> bprog" where
  "b_start ids =
     \<lparr>b_pc = C_create 0, b_tid = (\<lambda>_. None), b_created = 0, b_done = (\<lambda>_. False),
      b_out = [b_ids ''main'' ids @ '']: Hello from main!'']\<rparr>"

fun b_main :: "(nat \<Rightarrow> int) \<Rightarrow> (nat \<Rightarrow> int) \<Rightarrow> (nat \<Rightarrow> ids) \<Rightarrow> bpc \<Rightarrow> bprog \<Rightarrow> bprog" where
  "b_main create_err join_err ids (C_create i) s =
     (if create_err i \<noteq> 0
      then s\<lparr>b_pc := C_exit (- 1), b_out := b_out s @ [''main: pthread_create() failed: '']\<rparr>
      else s\<lparr>b_created := Suc i, b_pc := C_store i\<rparr>)"
| "b_main create_err join_err ids (C_store i) s =
     s\<lparr>b_tid := (b_tid s)(i \<mapsto> i_self (ids i)),
       b_pc := (if Suc i < NUM_THREADS then C_create (Suc i) else C_join 0)\<rparr>"
| "b_main create_err join_err ids (C_join i) s =
     (if \<not> b_done s i then s
      else if join_err i \<noteq> 0
      then s\<lparr>b_pc := C_exit (- 1), b_out := b_out s @ [''main: pthread_join() failed: '']\<rparr>
      else s\<lparr>b_pc := (if Suc i < NUM_THREADS then C_join (Suc i) else C_exit 0)\<rparr>)"
| "b_main create_err join_err ids (C_exit r) s = s"

definition b_step ::
  "(nat \<Rightarrow> int) \<Rightarrow> (nat \<Rightarrow> int) \<Rightarrow> (nat \<Rightarrow> ids) \<Rightarrow> (nat \<Rightarrow> string list) \<Rightarrow> bprog \<Rightarrow> nat option \<Rightarrow> fault + bprog" where
  "b_step create_err join_err ids addresses s e =
     (case e of
        None \<Rightarrow> Inr (b_main create_err join_err ids (b_pc s) s)
      | Some i \<Rightarrow>
          if i < b_created s \<and> \<not> b_done s i \<and> (case b_pc s of C_exit r \<Rightarrow> False | _ \<Rightarrow> True) then
            bindr (b_mythread (ids i) (addresses i) (b_tid s i)) (\<lambda>out.
            Inr (s\<lparr>b_out := b_out s @ out, b_done := (b_done s)(i := True)\<rparr>))
          else Inr s)"

definition b_ok :: "(nat \<Rightarrow> ids) \<Rightarrow> bprog \<Rightarrow> bool" where
  "b_ok ids s \<longleftrightarrow>
     (\<forall>i < b_created s. b_tid s i = Some (i_self (ids i)) \<or> b_pc s = C_store i) \<and>
     (\<forall>i. b_pc s = C_create i \<longrightarrow> b_created s = i) \<and> (\<forall>i. b_pc s = C_store i \<longrightarrow> b_created s = Suc i) \<and>
     (\<forall>i. b_done s i \<longrightarrow> i < b_created s)"

lemma b_main_ok: "b_ok ids s \<Longrightarrow> b_ok ids (b_main c j ids (b_pc s) s)"
  by (cases "b_pc s") (auto simp: b_ok_def less_Suc_eq)

interpretation b_threads: invariant_of "b_step c j ids addresses" "\<lambda>s. \<exists>m. s = b_start m" "b_ok ids" for c j ids addresses
proof
  fix s :: bprog
  assume "\<exists>m. s = b_start m"
  then show "b_ok ids s" by (auto simp: b_ok_def b_start_def)
next
  fix s e t
  assume "b_ok ids s" "b_step c j ids addresses s e = Inr t"
  then show "b_ok ids t"
    using b_main_ok [of ids s c j]
    by (cases e) (auto simp: b_step_def b_ok_def bindr_Inr_iff split: if_splits)
qed

text \<open>
  A thread that runs after \<open>pthread_create\<close> has written its identifier finds that they match; one
  that runs before reads an element that is not initialised.
\<close>

lemma b_threads_match:
  assumes "reach (b_step c j ids addresses) (b_start m) s" and "i < b_created s"
  shows "b_mythread (ids i) (addresses i) (b_tid s i) = Inl Uninitialised \<longleftrightarrow> b_tid s i = None"
    and "b_pc s \<noteq> C_store i \<Longrightarrow> \<exists>out. b_mythread (ids i) (addresses i) (b_tid s i) = Inr out \<and>
      ''pthread_self mythread: Thread IDs match!'' \<in> set out"
proof -
  have "b_ok ids s" using b_threads.reach_good [OF assms(1)] by blast
  with assms(2) have "b_tid s i = Some (i_self (ids i)) \<or> b_pc s = C_store i" by (simp add: b_ok_def)
  then show "b_pc s \<noteq> C_store i \<Longrightarrow> \<exists>out. b_mythread (ids i) (addresses i) (b_tid s i) = Inr out \<and>
      ''pthread_self mythread: Thread IDs match!'' \<in> set out"
    by (auto simp: b_mythread_def)
  show "b_mythread (ids i) (addresses i) (b_tid s i) = Inl Uninitialised \<longleftrightarrow> b_tid s i = None"
    by (simp add: b_mythread_def split: option.split)
qed

text \<open>\<^verbatim>\<open>2/2.c\<close>\<close>

definition joined_main :: "calls \<Rightarrow> int \<times> string list" where
  "joined_main r =
     (if r_create r \<noteq> 0 then (- 1, [''Main thread: pthread_create() failed: ''])
      else if r_join r \<noteq> 0 then (- 1, [''Main thread: pthread_join() failed: ''])
      else (0, [''Child thread: Hello from child thread!'',
                ''Main thread: Child thread has been joined and completed.'']))"

text \<open>
  \<^verbatim>\<open>2/b.c\<close>: the thread allocates its result, without testing the result of \<open>malloc\<close>; \<open>main\<close>
  prints and frees it. The heap that is left is part of the result.
\<close>

definition b_thread :: "int allocator \<Rightarrow> int heap \<Rightarrow> fault + ptr \<times> int heap" where
  "b_thread alloc h =
     (case alloc 0 h of
        None \<Rightarrow> Inl NullDeref
      | Some (a, junk) \<Rightarrow> bindr (store (h(a \<mapsto> junk)) (Some a) (\<lambda>_. 42)) (\<lambda>h. Inr (Some a, h)))"

definition result_main :: "calls \<Rightarrow> int allocator \<Rightarrow> fault + int \<times> string list \<times> int heap" where
  "result_main r alloc =
     (if r_create r \<noteq> 0 then Inr (- 1, [''Main thread: pthread_create() failed: ''], Map.empty)
      else
        bindr (b_thread alloc Map.empty) (\<lambda>(thread_result, h).
        if r_join r \<noteq> 0 then Inr (- 1, [''Main thread: pthread_join() failed: ''], h)
        else
          bindr (deref h thread_result) (\<lambda>x.
          bindr (free h thread_result) (\<lambda>h. Inr (0, [''Main thread: Child thread returned '' @ decimal (nat x)], h)))))"

lemma decimal_42: "decimal 42 = ''42''"
  by code_simp

lemma result_main_frees:
  "r_create r = 0 \<Longrightarrow> r_join r = 0 \<Longrightarrow> alloc 0 Map.empty = Some (a, x) \<Longrightarrow>
     result_main r alloc = Inr (0, [''Main thread: Child thread returned 42''], Map.empty)"
  by (auto simp: result_main_def b_thread_def decimal_42)

text \<open>\<^verbatim>\<open>2/c.c\<close> returns a string constant, \<^verbatim>\<open>2/f.c\<close> does so in a detached thread.\<close>

definition string_thread :: string where
  "string_thread = ''hello world''"

definition string_main :: "calls \<Rightarrow> int \<times> string list" where
  "string_main r =
     (if r_create r \<noteq> 0 then (- 1, [''Main thread: pthread_create() failed: ''])
      else if r_join r \<noteq> 0 then (- 1, [''Main thread: pthread_join() failed: ''])
      else (0, [''Main thread: Child thread returned: '' @ string_thread]))"

definition detached_main :: "calls \<Rightarrow> int \<times> string list" where
  "detached_main r =
     (if r_attr_init r \<noteq> 0 then (- 1, [''Main thread: pthread_attr_init() failed: ''])
      else if r_setdetach r \<noteq> 0 then (- 1, [''Main thread: pthread_attr_setdetachstate() failed: ''])
      else if r_create r \<noteq> 0 then (- 1, [''Main thread: pthread_create() failed: ''])
      else (0, []))"

text \<open>
  \<^verbatim>\<open>2/d.c\<close>: one thread after the other until a call fails. The calls of each turn and the identifier of
  its thread are given; the result is the status and the output, if it ends within the given turns.
  The messages end before the number that \<open>%d\<close> makes of the text of \<open>strerror\<close>.
\<close>

definition failed :: "string \<Rightarrow> string" where
  "failed call = ''Main thread: '' @ call @ ''() failed: ''"

fun loop_main :: "(nat \<Rightarrow> calls) \<Rightarrow> (nat \<Rightarrow> nat) \<Rightarrow> nat \<Rightarrow> nat \<Rightarrow> string list \<Rightarrow> (int \<times> string list) option" where
  "loop_main r tid n 0 out = None"
| "loop_main r tid n (Suc turns) out =
     (if r_attr_init (r n) \<noteq> 0 then Some (- 1, out @ [failed ''pthread_attr_init''])
      else if r_setdetach (r n) \<noteq> 0 then Some (- 1, out @ [failed ''pthread_attr_setdetachstate''])
      else if r_create (r n) \<noteq> 0 then Some (- 1, out @ [failed ''pthread_create''])
      else
        let out = out @ [''Thread '' @ decimal (tid n) @ '': Hello from thread!''] in
        if r_join (r n) \<noteq> 0 then Some (- 1, out @ [failed ''pthread_join''])
        else loop_main r tid (Suc n) turns out)"

text \<open>It never returns 0: it ends only when a call fails.\<close>

lemma loop_main_status: "loop_main r tid n turns out = Some (x, out') \<Longrightarrow> x = - 1 \<and> (\<exists>k \<ge> n. k < n + turns \<and>
    (r_attr_init (r k) \<noteq> 0 \<or> r_setdetach (r k) \<noteq> 0 \<or> r_create (r k) \<noteq> 0 \<or> r_join (r k) \<noteq> 0))"
proof (induction turns arbitrary: n out)
  case (Suc turns)
  show ?case
  proof (cases "r_attr_init (r n) \<noteq> 0 \<or> r_setdetach (r n) \<noteq> 0 \<or> r_create (r n) \<noteq> 0 \<or> r_join (r n) \<noteq> 0")
    case True
    with Suc.prems show ?thesis by (auto simp: Let_def split: if_splits)
  next
    case False
    with Suc.prems Suc.IH [of "Suc n"] show ?thesis by (force simp: Let_def)
  qed
qed simp

text \<open>\<^verbatim>\<open>2/e.c\<close>: nobody frees the string of the detached thread.\<close>

definition e_thread :: "string allocator \<Rightarrow> string heap \<Rightarrow> fault + ptr \<times> string heap" where
  "e_thread alloc h =
     (case alloc 0 h of
        None \<Rightarrow> Inr (None, h)
      | Some (a, junk) \<Rightarrow>
          bindr (copy_string 12 ''hello world'') (\<lambda>v.
          bindr (store (h(a \<mapsto> junk)) (Some a) (\<lambda>_. v)) (\<lambda>h. Inr (Some a, h))))"

definition leak_main :: "calls \<Rightarrow> nat \<Rightarrow> string allocator \<Rightarrow> fault + int \<times> string list \<times> string heap" where
  "leak_main r tid alloc =
     (if r_create r \<noteq> 0 then Inr (- 1, [''Main thread: pthread_create() failed: ''], Map.empty)
      else
        bindr (e_thread alloc Map.empty) (\<lambda>(message, h).
        Inr (0, [''Main thread: Created thread with ID '' @ decimal tid], h)))"

lemma leak_main_leaks:
  "r_create r = 0 \<Longrightarrow> alloc 0 Map.empty = Some (a, x) \<Longrightarrow>
     \<exists>out. leak_main r tid alloc = Inr (0, out, [a \<mapsto> ''hello world''])"
  by (simp add: leak_main_def e_thread_def copy_string_def)

text \<open>\<^verbatim>\<open>3/a.c\<close>: the structure lives on the stack of \<open>main\<close>, which waits for the thread.\<close>

record my_struct =
  intValue :: int
  stringValue :: string

definition print_struct :: "my_struct \<Rightarrow> string" where
  "print_struct d = ''Thread: intValue = '' @ decimal (nat (intValue d)) @ '', stringValue = '' @ stringValue d"

definition my_data :: my_struct where
  "my_data = \<lparr>intValue = 42, stringValue = ''Hello, Thread!''\<rparr>"

definition struct_main :: "calls \<Rightarrow> int \<times> string list" where
  "struct_main r =
     (if r_create r \<noteq> 0 then (1, [''pthread_create''])
      else if r_join r \<noteq> 0 then (1, [print_struct my_data, ''pthread_join''])
      else (0, [print_struct my_data]))"

text \<open>
  \<^verbatim>\<open>4/a.c\<close> and \<^verbatim>\<open>4/b.c\<close>: a thread that runs until it is cancelled. It has made \<open>n\<close> turns by then; in
  \<^verbatim>\<open>4/b.c\<close> each turn increments an \<open>int\<close>, and no call slows the loop down.
\<close>

definition cancel_main :: "calls \<Rightarrow> string list \<Rightarrow> string \<Rightarrow> int \<times> string list" where
  "cancel_main r thread_out message =
     (if r_create r \<noteq> 0 then (1, [''pthread_create''])
      else if r_cancel r \<noteq> 0 then (1, thread_out @ [''pthread_cancel''])
      else if r_join r \<noteq> 0 then (1, thread_out @ [''pthread_join''])
      else (0, thread_out @ [message]))"

definition another_main :: "calls \<Rightarrow> nat \<Rightarrow> int \<times> string list" where
  "another_main r n =
     cancel_main r (replicate n ''Another one...'') ''Thread has been canceled and joined.''"

fun count_turns :: "nat \<Rightarrow> fault + int" where
  "count_turns 0 = Inr 0"
| "count_turns (Suc n) = bindr (count_turns n) (\<lambda>counter. c_int (counter + 1))"

definition counter_main :: "calls \<Rightarrow> nat \<Rightarrow> fault + int \<times> string list" where
  "counter_main r n =
     (if r_create r \<noteq> 0 then Inr (1, [''pthread_create''])
      else
        bindr (count_turns n) (\<lambda>counter.
        Inr (cancel_main r []
          (''Thread has been canceled and joined. Counter value: '' @ decimal (nat counter)))))"

lemma count_turns: "count_turns n = (if int n \<le> INT_MAX then Inr (int n) else Inl SignedOverflow)"
  by (induction n) (auto simp: c_limits c_int_def)

section \<open>Memory for a detached thread\<close>

text \<open>
  \<^verbatim>\<open>3/b.c\<close>: \<open>main\<close> allocates a structure, fills it, hands it to a detached thread and goes away with
  \<open>pthread_exit\<close>; the thread prints and frees it. If the thread cannot be created, \<open>main\<close>
  frees it. \<open>O_gone\<close> is the end of \<open>main\<close> with an exit status (None: \<open>pthread_exit\<close>).
\<close>

datatype opc = O_malloc | O_fill addr | O_create addr | O_destroy | O_gone "int option"

datatype dpc = D_absent | D_print addr | D_free addr | D_done

record handover =
  h_heap :: "my_struct heap"
  h_main :: opc
  h_thread :: dpc
  h_out :: "string list"

fun owner_step :: "my_struct allocator \<Rightarrow> int \<Rightarrow> opc \<Rightarrow> handover \<Rightarrow> fault + handover" where
  "owner_step alloc create O_malloc s =
     (case alloc 0 (h_heap s) of
        None \<Rightarrow> Inr (s\<lparr>h_main := O_gone (Some 1)\<rparr>)
      | Some (a, junk) \<Rightarrow> Inr (s\<lparr>h_heap := (h_heap s)(a \<mapsto> junk), h_main := O_fill a\<rparr>))"
| "owner_step alloc create (O_fill a) s =
     bindr (store (h_heap s) (Some a) (\<lambda>_. my_data)) (\<lambda>h. Inr (s\<lparr>h_heap := h, h_main := O_create a\<rparr>))"
| "owner_step alloc create (O_create a) s =
     (if create \<noteq> 0 then
        bindr (free (h_heap s) (Some a)) (\<lambda>h. Inr (s\<lparr>h_heap := h, h_main := O_gone (Some 1)\<rparr>))
      else Inr (s\<lparr>h_thread := D_print a, h_main := O_destroy\<rparr>))"
| "owner_step alloc create O_destroy s = Inr (s\<lparr>h_main := O_gone None\<rparr>)"
| "owner_step alloc create (O_gone x) s = Inr s"

fun detached_step :: "dpc \<Rightarrow> handover \<Rightarrow> fault + handover" where
  "detached_step (D_print a) s =
     bindr (deref (h_heap s) (Some a)) (\<lambda>d. Inr (s\<lparr>h_out := h_out s @ [print_struct d], h_thread := D_free a\<rparr>))"
| "detached_step (D_free a) s =
     bindr (free (h_heap s) (Some a)) (\<lambda>h. Inr (s\<lparr>h_heap := h, h_thread := D_done\<rparr>))"
| "detached_step _ s = Inr s"

text \<open>The event \<open>True\<close> is a step of \<open>main\<close>, \<open>False\<close> one of the thread.\<close>

definition handover_step :: "my_struct allocator \<Rightarrow> int \<Rightarrow> handover \<Rightarrow> bool \<Rightarrow> fault + handover" where
  "handover_step alloc create s e =
     (if e then owner_step alloc create (h_main s) s else detached_step (h_thread s) s)"

definition handover_start :: handover where
  "handover_start = \<lparr>h_heap = Map.empty, h_main = O_malloc, h_thread = D_absent, h_out = []\<rparr>"

fun handover_ok :: "opc \<Rightarrow> dpc \<Rightarrow> my_struct heap \<Rightarrow> string list \<Rightarrow> bool" where
  "handover_ok O_malloc t h out = (t = D_absent \<and> h = Map.empty \<and> out = [])"
| "handover_ok (O_fill a) t h out = (t = D_absent \<and> dom h = {a} \<and> out = [])"
| "handover_ok (O_create a) t h out = (t = D_absent \<and> h = [a \<mapsto> my_data] \<and> out = [])"
| "handover_ok (O_gone (Some x)) t h out = (t = D_absent \<and> h = Map.empty \<and> out = [])"
| "handover_ok _ t h out =
     (case t of
        D_absent \<Rightarrow> False
      | D_print a \<Rightarrow> h = [a \<mapsto> my_data] \<and> out = []
      | D_free a \<Rightarrow> h = [a \<mapsto> my_data] \<and> out = [print_struct my_data]
      | D_done \<Rightarrow> h = Map.empty \<and> out = [print_struct my_data])"

definition handover_inv :: "handover \<Rightarrow> bool" where
  "handover_inv s \<longleftrightarrow> handover_ok (h_main s) (h_thread s) (h_heap s) (h_out s)"

lemma owner_keeps: "handover_inv s \<Longrightarrow> \<exists>t. owner_step alloc create (h_main s) s = Inr t \<and> handover_inv t"
proof (cases "h_main s")
  case (O_fill a)
  assume "handover_inv s"
  with O_fill have "dom (h_heap s) = {a}" "h_thread s = D_absent" "h_out s = []" by (simp_all add: handover_inv_def)
  then obtain x where "h_heap s = [a \<mapsto> x]" by (auto simp: dom_eq_singleton_conv)
  with O_fill \<open>h_thread s = D_absent\<close> \<open>h_out s = []\<close> show ?thesis by (simp add: handover_inv_def)
qed (auto simp: handover_inv_def split: option.split dpc.splits)

lemma detached_keeps: "handover_inv s \<Longrightarrow> \<exists>t. detached_step (h_thread s) s = Inr t \<and> handover_inv t"
  by (cases "h_thread s"; cases "h_main s" rule: opc.exhaust)
    (auto simp: handover_inv_def elim!: handover_ok.elims split: dpc.splits)

lemma handover_keeps: "handover_inv s \<Longrightarrow> \<exists>t. handover_step alloc create s e = Inr t \<and> handover_inv t"
  by (auto simp: handover_step_def owner_keeps detached_keeps)

interpretation handover: invariant_of "handover_step alloc create" "\<lambda>s. s = handover_start" handover_inv
  for alloc create
proof
  show "s = handover_start \<Longrightarrow> handover_inv s" for s by (simp add: handover_inv_def handover_start_def)
  show "handover_inv s \<Longrightarrow> handover_step alloc create s e = Inr t \<Longrightarrow> handover_inv t" for s e t
    using handover_keeps [of s alloc create e] by auto
qed

section \<open>Cancellation\<close>

text \<open>
  \<^verbatim>\<open>4/c.c\<close>: the thread prints a string of its own until it is cancelled; a cleanup handler frees it.
  A request to cancel acts at the next cancellation point: \<open>sleep\<close> and \<open>pthread_testcancel\<close>
  always are one, \<open>printf\<close> may be one. Then, or at \<open>pthread_exit\<close>, the handler runs and the
  thread ends.
\<close>

datatype lpc = L_push | L_malloc | L_test | L_enable | L_print | L_sleep | L_testcancel | L_ended

record cleanup =
  k_message :: ptr
  k_heap :: "string heap"
  k_pc :: lpc
  k_cancel :: bool
  k_out :: "string list"

definition cleanup_handler :: "cleanup \<Rightarrow> fault + cleanup" where
  "cleanup_handler s =
     (if k_message s \<noteq> None then
        bindr (free (k_heap s) (k_message s)) (\<lambda>h. Inr (s\<lparr>k_heap := h, k_message := None\<rparr>))
      else Inr s)"

definition ends :: "cleanup \<Rightarrow> fault + cleanup" where
  "ends s = bindr (cleanup_handler s) (\<lambda>s. Inr (s\<lparr>k_pc := L_ended\<rparr>))"

fun looping_step :: "string allocator \<Rightarrow> bool \<Rightarrow> lpc \<Rightarrow> cleanup \<Rightarrow> fault + cleanup" where
  "looping_step alloc acts L_push s = Inr (s\<lparr>k_pc := L_malloc\<rparr>)"
| "looping_step alloc acts L_malloc s =
     (case alloc 0 (k_heap s) of
        None \<Rightarrow> Inr (s\<lparr>k_message := None, k_pc := L_test\<rparr>)
      | Some (a, junk) \<Rightarrow> Inr (s\<lparr>k_heap := (k_heap s)(a \<mapsto> junk), k_message := Some a, k_pc := L_test\<rparr>))"
| "looping_step alloc acts L_test s =
     (if k_message s = None then ends s
      else
        bindr (copy_string 12 ''hello world'') (\<lambda>v.
        bindr (store (k_heap s) (k_message s) (\<lambda>_. v)) (\<lambda>h. Inr (s\<lparr>k_heap := h, k_pc := L_enable\<rparr>))))"
| "looping_step alloc acts L_enable s = Inr (s\<lparr>k_pc := L_print\<rparr>)"
| "looping_step alloc acts L_print s =
     (if k_cancel s \<and> acts then ends s
      else bindr (deref (k_heap s) (k_message s)) (\<lambda>v. Inr (s\<lparr>k_out := k_out s @ [v], k_pc := L_sleep\<rparr>)))"
| "looping_step alloc acts L_sleep s = (if k_cancel s then ends s else Inr (s\<lparr>k_pc := L_testcancel\<rparr>))"
| "looping_step alloc acts L_testcancel s = (if k_cancel s then ends s else Inr (s\<lparr>k_pc := L_print\<rparr>))"
| "looping_step alloc acts L_ended s = Inr s"

text \<open>The event \<open>None\<close> is the \<open>pthread_cancel\<close> of \<open>main\<close>, \<open>Some acts\<close> a step of the thread.\<close>

definition cleanup_step :: "string allocator \<Rightarrow> cleanup \<Rightarrow> bool option \<Rightarrow> fault + cleanup" where
  "cleanup_step alloc s e =
     (case e of None \<Rightarrow> Inr (s\<lparr>k_cancel := True\<rparr>) | Some acts \<Rightarrow> looping_step alloc acts (k_pc s) s)"

definition cleanup_start :: cleanup where
  "cleanup_start = \<lparr>k_message = None, k_heap = Map.empty, k_pc = L_push, k_cancel = False, k_out = []\<rparr>"

definition cleanup_ok :: "cleanup \<Rightarrow> bool" where
  "cleanup_ok s \<longleftrightarrow> dom (k_heap s) = set_option (k_message s) \<and>
     (k_pc s \<in> {L_push, L_malloc, L_ended} \<longrightarrow> k_message s = None) \<and>
     (k_pc s \<in> {L_enable, L_print, L_sleep, L_testcancel} \<longrightarrow>
        (\<exists>a. k_message s = Some a \<and> k_heap s a = Some ''hello world''))"

lemma ends_ok:
  assumes "cleanup_ok s"
  shows "\<exists>t. ends s = Inr t \<and> cleanup_ok t \<and> k_pc t = L_ended \<and> k_cancel t = k_cancel s"
proof (cases "k_message s")
  case None
  with assms show ?thesis by (auto simp: ends_def cleanup_handler_def cleanup_ok_def)
next
  case (Some a)
  with assms obtain v where "k_heap s a = Some v" "dom (k_heap s) = {a}" by (auto simp: cleanup_ok_def)
  with Some show ?thesis by (auto simp: ends_def cleanup_handler_def cleanup_ok_def)
qed

text \<open>The steps the thread still has to do once it is cancelled.\<close>

fun steps_left :: "lpc \<Rightarrow> nat" where
  "steps_left L_push = 6" | "steps_left L_malloc = 5" | "steps_left L_test = 4" | "steps_left L_enable = 3"
| "steps_left L_print = 2" | "steps_left L_sleep = 1" | "steps_left L_testcancel = 1" | "steps_left L_ended = 0"

lemma looping_keeps:
  assumes ok: "cleanup_ok s"
  shows "\<exists>t. looping_step alloc acts (k_pc s) s = Inr t \<and> cleanup_ok t \<and>
    (k_cancel s \<longrightarrow> k_cancel t \<and> (k_pc s = L_ended \<or> steps_left (k_pc t) < steps_left (k_pc s)))"
proof -
  obtain e where e: "ends s = Inr e" "cleanup_ok e" "k_pc e = L_ended" "k_cancel e = k_cancel s"
    using ends_ok [OF ok] by blast
  show ?thesis
  proof (cases "k_pc s")
    case L_malloc
    with ok have "k_message s = None" "k_heap s = Map.empty" by (auto simp: cleanup_ok_def)
    with L_malloc show ?thesis by (auto simp: cleanup_ok_def split: option.split)
  next
    case L_test
    show ?thesis
    proof (cases "k_message s")
      case None
      with L_test e show ?thesis by simp
    next
      case (Some a)
      with ok obtain v where "k_heap s a = Some v" "dom (k_heap s) = {a}" by (auto simp: cleanup_ok_def)
      with Some L_test show ?thesis by (auto simp: cleanup_ok_def copy_string_def)
    qed
  next
    case L_print
    with ok obtain a where "k_message s = Some a" "k_heap s a = Some ''hello world''" by (auto simp: cleanup_ok_def)
    then have go: "bindr (deref (k_heap s) (k_message s)) (\<lambda>v. Inr (s\<lparr>k_out := k_out s @ [v], k_pc := L_sleep\<rparr>)) =
        Inr (s\<lparr>k_out := k_out s @ [''hello world''], k_pc := L_sleep\<rparr>)" by simp
    have "cleanup_ok (s\<lparr>k_out := k_out s @ [''hello world''], k_pc := L_sleep\<rparr>)"
      using ok L_print unfolding cleanup_ok_def by simp
    with L_print e go show ?thesis by (cases "k_cancel s \<and> acts") auto
  next
    case L_sleep
    have "cleanup_ok (s\<lparr>k_pc := L_testcancel\<rparr>)" using ok L_sleep unfolding cleanup_ok_def by simp
    with L_sleep e show ?thesis by (cases "k_cancel s") auto
  next
    case L_testcancel
    have "cleanup_ok (s\<lparr>k_pc := L_print\<rparr>)" using ok L_testcancel unfolding cleanup_ok_def by simp
    with L_testcancel e show ?thesis by (cases "k_cancel s") auto
  qed (use ok in \<open>simp_all add: cleanup_ok_def\<close>)
qed

lemma cleanup_keeps: "cleanup_ok s \<Longrightarrow> \<exists>t. cleanup_step alloc s e = Inr t \<and> cleanup_ok t"
proof (cases e)
  case None
  assume "cleanup_ok s"
  then have "cleanup_ok (s\<lparr>k_cancel := True\<rparr>)" unfolding cleanup_ok_def by simp
  with None show ?thesis by (simp add: cleanup_step_def)
next
  case (Some acts)
  assume "cleanup_ok s"
  from looping_keeps [OF this, of alloc acts] Some show ?thesis by (auto simp: cleanup_step_def)
qed

interpretation cleanup: invariant_of "cleanup_step alloc" "\<lambda>s. s = cleanup_start" cleanup_ok
  for alloc
proof
  show "s = cleanup_start \<Longrightarrow> cleanup_ok s" for s by (simp add: cleanup_ok_def cleanup_start_def)
  show "cleanup_ok s \<Longrightarrow> cleanup_step alloc s e = Inr t \<Longrightarrow> cleanup_ok t" for s e t
    using cleanup_keeps [of s alloc e] by auto
qed

lemma cancelled_ends:
  "cleanup_ok s \<Longrightarrow> k_cancel s \<Longrightarrow> steps_left (k_pc s) \<le> length es \<Longrightarrow>
     \<exists>t. run (cleanup_step alloc) s (map Some es) = Inr t \<and> k_pc t = L_ended"
proof (induction es arbitrary: s)
  case Nil
  then show ?case by (cases "k_pc s") auto
next
  case (Cons acts es)
  obtain t where t: "looping_step alloc acts (k_pc s) s = Inr t" "cleanup_ok t" "k_cancel t"
      "k_pc s = L_ended \<or> steps_left (k_pc t) < steps_left (k_pc s)"
    using looping_keeps [OF Cons.prems(1), of alloc acts] Cons.prems(2) by blast
  have "steps_left (k_pc t) \<le> length es"
  proof (cases "k_pc s = L_ended")
    case True
    with t(1) show ?thesis by (simp add: True)
  next
    case False
    with t(4) Cons.prems(3) show ?thesis by simp
  qed
  from Cons.IH [OF t(2,3) this] t(1) show ?case by (simp add: cleanup_step_def)
qed

text \<open>
  \<open>main\<close> of \<^verbatim>\<open>4/c.c\<close>: it creates the thread, cancels it, waits for its end and says so. The error
  messages end before the text of \<open>perror\<close>. An event is as above, with \<open>None\<close> a step of \<open>main\<close>.
\<close>

datatype kpc = K_create | K_cancel | K_join | K_exit int

record canceller =
  k_main :: kpc
  k_thread :: cleanup
  k_lines :: "string list"

fun cancelling_main :: "calls \<Rightarrow> kpc \<Rightarrow> canceller \<Rightarrow> canceller" where
  "cancelling_main r K_create s =
     (if r_create r \<noteq> 0 then s\<lparr>k_main := K_exit 1, k_lines := k_lines s @ [''pthread_create'']\<rparr>
      else s\<lparr>k_main := K_cancel\<rparr>)"
| "cancelling_main r K_cancel s =
     (if r_cancel r \<noteq> 0 then s\<lparr>k_main := K_exit 1, k_lines := k_lines s @ [''pthread_cancel'']\<rparr>
      else s\<lparr>k_thread := (k_thread s)\<lparr>k_cancel := True\<rparr>, k_main := K_join\<rparr>)"
| "cancelling_main r K_join s =
     (if k_pc (k_thread s) \<noteq> L_ended then s
      else if r_join r \<noteq> 0 then s\<lparr>k_main := K_exit 1, k_lines := k_lines s @ [''pthread_join'']\<rparr>
      else s\<lparr>k_main := K_exit 0, k_lines := k_lines s @ [''Thread has been canceled and joined.'']\<rparr>)"
| "cancelling_main r (K_exit c) s = s"

definition canceller_step :: "string allocator \<Rightarrow> calls \<Rightarrow> canceller \<Rightarrow> bool option \<Rightarrow> fault + canceller" where
  "canceller_step alloc r s e =
     (case e of
        None \<Rightarrow> Inr (cancelling_main r (k_main s) s)
      | Some acts \<Rightarrow>
          if k_main s = K_cancel \<or> k_main s = K_join then
            bindr (looping_step alloc acts (k_pc (k_thread s)) (k_thread s)) (\<lambda>t. Inr (s\<lparr>k_thread := t\<rparr>))
          else Inr s)"

definition canceller_start :: canceller where
  "canceller_start = \<lparr>k_main = K_create, k_thread = cleanup_start, k_lines = []\<rparr>"

definition canceller_ok :: "canceller \<Rightarrow> bool" where
  "canceller_ok s \<longleftrightarrow> cleanup_ok (k_thread s) \<and>
     (case k_main s of
        K_create \<Rightarrow> k_thread s = cleanup_start \<and> k_lines s = []
      | K_cancel \<Rightarrow> k_lines s = []
      | K_join \<Rightarrow> k_cancel (k_thread s) \<and> k_lines s = []
      | K_exit c \<Rightarrow>
          c = 0 \<and> k_pc (k_thread s) = L_ended \<and> k_lines s = [''Thread has been canceled and joined.''] \<or>
          c = 1 \<and> k_lines s \<in> {[''pthread_create''], [''pthread_cancel''], [''pthread_join'']})"

lemma canceller_keeps: "canceller_ok s \<Longrightarrow> \<exists>t. canceller_step alloc r s e = Inr t \<and> canceller_ok t"
proof (cases e)
  case None
  assume ok: "canceller_ok s"
  then have "cleanup_ok ((k_thread s)\<lparr>k_cancel := True\<rparr>)" unfolding canceller_ok_def cleanup_ok_def by simp
  with ok None show ?thesis
    by (cases "k_main s") (auto simp: canceller_step_def canceller_ok_def)
next
  case (Some acts)
  assume ok: "canceller_ok s"
  then have "cleanup_ok (k_thread s)" by (simp add: canceller_ok_def)
  from looping_keeps [OF this, of alloc acts] ok Some show ?thesis
    by (cases "k_main s") (auto simp: canceller_step_def canceller_ok_def)
qed

interpretation canceller: invariant_of "canceller_step alloc r" "\<lambda>s. s = canceller_start" canceller_ok
  for alloc r
proof
  show "s = canceller_start \<Longrightarrow> canceller_ok s" for s
    by (simp add: canceller_ok_def canceller_start_def cleanup_ok_def cleanup_start_def)
  show "canceller_ok s \<Longrightarrow> canceller_step alloc r s e = Inr t \<Longrightarrow> canceller_ok t" for s e t
    using canceller_keeps [of s alloc r e] by auto
qed

text \<open>
  Property C25. In every interleaving of \<^verbatim>\<open>3/b.c\<close> and of \<^verbatim>\<open>4/c.c\<close> no step fails, so nothing is used after
  it is freed or freed twice. When \<open>main\<close> of \<^verbatim>\<open>3/b.c\<close> is gone and no thread is running, the structure
  is freed, and the thread, if it was created, has printed it. When the thread of \<^verbatim>\<open>4/c.c\<close> has
  ended its string is freed, and once it is cancelled it ends within six steps; so when \<open>main\<close> of
  \<^verbatim>\<open>4/c.c\<close> returns 0 it has printed its line and nothing is left allocated.
\<close>

theorem lab1_memory:
  assumes "reach (handover_step alloc create) handover_start s"
    and "reach (cleanup_step alloc') cleanup_start k"
    and "reach (canceller_step alloc' r) canceller_start p"
  shows "(\<exists>t. handover_step alloc create s e = Inr t) \<and>
    (h_main s = O_gone x \<and> h_thread s \<in> {D_absent, D_done} \<longrightarrow>
      h_heap s = Map.empty \<and> h_out s = (if h_thread s = D_done then [print_struct my_data] else [])) \<and>
    (\<exists>t. cleanup_step alloc' k c = Inr t) \<and>
    (k_pc k = L_ended \<longrightarrow> k_heap k = Map.empty \<and> k_message k = None) \<and>
    (k_cancel k \<and> length es = 6 \<longrightarrow>
      (\<exists>t. run (cleanup_step alloc') k (map Some es) = Inr t \<and> k_pc t = L_ended)) \<and>
    (\<exists>t. canceller_step alloc' r p c = Inr t) \<and>
    (k_main p = K_exit 0 \<longrightarrow>
      k_heap (k_thread p) = Map.empty \<and> k_lines p = [''Thread has been canceled and joined.''])"
proof (intro conjI)
  have h: "handover_inv s" by (rule handover.reach_good [OF assms(1) refl])
  have k: "cleanup_ok k" by (rule cleanup.reach_good [OF assms(2) refl])
  show "\<exists>t. handover_step alloc create s e = Inr t" using handover_keeps [OF h] by blast
  show "h_main s = O_gone x \<and> h_thread s \<in> {D_absent, D_done} \<longrightarrow>
      h_heap s = Map.empty \<and> h_out s = (if h_thread s = D_done then [print_struct my_data] else [])"
    using h by (cases x) (auto simp: handover_inv_def)
  show "\<exists>t. cleanup_step alloc' k c = Inr t" using cleanup_keeps [OF k] by blast
  show "k_pc k = L_ended \<longrightarrow> k_heap k = Map.empty \<and> k_message k = None"
    using k by (auto simp: cleanup_ok_def)
  have "steps_left (k_pc k) \<le> 6" by (cases "k_pc k") auto
  with cancelled_ends [OF k, of es alloc'] show "k_cancel k \<and> length es = 6 \<longrightarrow>
      (\<exists>t. run (cleanup_step alloc') k (map Some es) = Inr t \<and> k_pc t = L_ended)" by auto
  have p: "canceller_ok p" by (rule canceller.reach_good [OF assms(3) refl])
  then show "\<exists>t. canceller_step alloc' r p c = Inr t" using canceller_keeps by blast
  show "k_main p = K_exit 0 \<longrightarrow>
      k_heap (k_thread p) = Map.empty \<and> k_lines p = [''Thread has been canceled and joined.'']"
    using p by (auto simp: canceller_ok_def cleanup_ok_def)
qed

lemma lab1_memory_witness:
  "\<exists>k p. run (cleanup_step (bump_alloc ''junk'')) cleanup_start [Some True, Some True, None] = Inr k \<and>
     (\<exists>t. run (cleanup_step (bump_alloc ''junk'')) k (map Some (replicate 6 False)) = Inr t \<and> k_pc t = L_ended) \<and>
     run (canceller_step (bump_alloc ''junk'') \<lparr>r_attr_init = 0, r_setdetach = 0, r_create = 0, r_join = 0, r_cancel = 0\<rparr>)
       canceller_start ([None] @ replicate 5 (Some False) @ [None, Some False, None]) = Inr p \<and>
     k_main p = K_exit 0 \<and> k_out (k_thread p) = [''hello world''] \<and> k_heap (k_thread p) = Map.empty"
proof -
  let ?r = "\<lparr>r_attr_init = 0, r_setdetach = 0, r_create = 0, r_join = 0, r_cancel = 0\<rparr>"
  have "\<exists>k. run (cleanup_step (bump_alloc ''junk'')) cleanup_start [Some True, Some True, None] = Inr k \<and> k_cancel k"
    by (simp add: cleanup_step_def cleanup_start_def bump_alloc_def)
  then obtain k where k: "run (cleanup_step (bump_alloc ''junk'')) cleanup_start [Some True, Some True, None] = Inr k"
      "k_cancel k" by blast
  have "\<exists>p. run (canceller_step (bump_alloc ''junk'') ?r) canceller_start
      ([None] @ replicate 5 (Some False) @ [None, Some False, None]) = Inr p \<and>
      k_main p = K_exit 0 \<and> k_out (k_thread p) = [''hello world'']"
    by (simp add: canceller_step_def canceller_start_def cleanup_start_def bump_alloc_def copy_string_def
        ends_def cleanup_handler_def eval_nat_numeral cong: bindr_weak_cong)
  then obtain p where p: "run (canceller_step (bump_alloc ''junk'') ?r) canceller_start
      ([None] @ replicate 5 (Some False) @ [None, Some False, None]) = Inr p"
      "k_main p = K_exit 0" "k_out (k_thread p) = [''hello world'']" by blast
  have "length (replicate 6 False) = 6" by simp
  with lab1_memory [OF reach.start run_reach [OF k(1)] run_reach [OF p(1)], of "bump_alloc my_data" 0] k p
  show ?thesis by blast
qed

end
