(* ===== verification/Signals.thy ===== *)
theory Signals
  imports Prelude
begin

text \<open>
  \<^verbatim>\<open>lab1/5.c\<close>: thread 2 installs a handler for SIGINT and spins, thread 3 waits for SIGQUIT with
  \<open>sigwait\<close>, \<open>main\<close> blocks all signals and joins both. A signal that is sent to the process stays
  pending until the kernel delivers it to some thread that does not block it, or until
  \<open>sigwait\<close> accepts it; delivered without a handler it ends the process.
\<close>

section \<open>The program\<close>

datatype signal = SIGINT | SIGQUIT

datatype who = Main | Thread2 | Thread3

datatype gpc = G_create2 | G_create3 | G_fill | G_block | G_join2 | G_join3 | G_exit int

datatype pc2 = A_none | A_action | A_spin | A_done

datatype pc3 = B_none | B_empty | B_add | B_wait | B_quit | B_done

text \<open>The results of the library calls.\<close>

record sigcalls =
  k_create2 :: int
  k_create3 :: int
  k_fillset :: int
  k_sigmask :: int
  k_join2 :: int
  k_join3 :: int
  k_sigaction :: int
  k_emptyset :: int
  k_addset :: int
  k_sigwait :: int

text \<open>
  \<open>sig_action\<close> is the handler of a signal, as the line it writes, \<open>sig_mask\<close> what a thread blocks,
  \<open>sig_sent\<close> counts the signals that were sent, \<open>sig_killed\<close> is the signal that ended the process, and
  \<open>sig_out\<close> collects the lines written by the threads.
\<close>

record sigs =
  sig_main :: gpc
  sig_2 :: pc2
  sig_3 :: pc3
  sig_action :: "signal \<Rightarrow> string option"
  sig_mask :: "who \<Rightarrow> signal \<Rightarrow> bool"
  sig_pending :: "signal \<Rightarrow> bool"
  sig_sent :: "signal \<Rightarrow> nat"
  sig_killed :: "signal option"
  sig_out :: "string list"

definition sigint_handler :: string where
  "sigint_handler = ''Int''"

definition sigquit_handler :: string where
  "sigquit_handler = ''Quit''"

definition says :: "string \<Rightarrow> sigs \<Rightarrow> sigs" where
  "says line s = s\<lparr>sig_out := sig_out s @ [line]\<rparr>"

fun thread2_function :: "sigcalls \<Rightarrow> pc2 \<Rightarrow> sigs \<Rightarrow> sigs" where
  "thread2_function K A_action s =
     (if k_sigaction K = - 1 then (says ''Main thread: sigaction() for SIGINT failed'' s)\<lparr>sig_2 := A_done\<rparr>
      else s\<lparr>sig_action := (sig_action s)(SIGINT \<mapsto> sigint_handler), sig_2 := A_spin\<rparr>)"
| "thread2_function K _ s = s"

text \<open>At \<open>B_wait\<close> the call of \<open>sigwait\<close> has begun; it fails at once or accepts a signal later.\<close>

fun thread3_function :: "sigcalls \<Rightarrow> pc3 \<Rightarrow> sigs \<Rightarrow> sigs" where
  "thread3_function K B_empty s =
     (if k_emptyset K = - 1 then (says ''Main thread: sigemptyset() failed'' s)\<lparr>sig_3 := B_done\<rparr>
      else s\<lparr>sig_3 := B_add\<rparr>)"
| "thread3_function K B_add s =
     (if k_addset K = - 1 then (says ''Main thread: sigaddset() for SIGQUIT failed'' s)\<lparr>sig_3 := B_done\<rparr>
      else s\<lparr>sig_3 := B_wait\<rparr>)"
| "thread3_function K B_wait s =
     (if k_sigwait K \<noteq> 0 then (says ''Main thread: sigwait() failed'' s)\<lparr>sig_3 := B_done\<rparr>
      else if sig_pending s SIGQUIT then s\<lparr>sig_pending := (sig_pending s)(SIGQUIT := False), sig_3 := B_quit\<rparr>
      else s)"
| "thread3_function K B_quit s = (says sigquit_handler s)\<lparr>sig_3 := B_done\<rparr>"
| "thread3_function K _ s = s"

text \<open>A new thread starts with the mask of its creator; a join waits for the end of its thread.\<close>

fun main_function :: "sigcalls \<Rightarrow> gpc \<Rightarrow> sigs \<Rightarrow> sigs" where
  "main_function K G_create2 s =
     (if k_create2 K \<noteq> 0
      then (says ''Main thread: pthread_create() for Thread 2 failed'' s)\<lparr>sig_main := G_exit (- 1)\<rparr>
      else s\<lparr>sig_2 := A_action, sig_mask := (sig_mask s)(Thread2 := sig_mask s Main), sig_main := G_create3\<rparr>)"
| "main_function K G_create3 s =
     (if k_create3 K \<noteq> 0
      then (says ''Main thread: pthread_create() for Thread 3 failed'' s)\<lparr>sig_main := G_exit (- 1)\<rparr>
      else s\<lparr>sig_3 := B_empty, sig_mask := (sig_mask s)(Thread3 := sig_mask s Main), sig_main := G_fill\<rparr>)"
| "main_function K G_fill s =
     (if k_fillset K = - 1 then (says ''Main thread: sigfillset() failed'' s)\<lparr>sig_main := G_exit (- 1)\<rparr>
      else s\<lparr>sig_main := G_block\<rparr>)"
| "main_function K G_block s =
     (if k_sigmask K = - 1 then (says ''Main thread: pthread_sigmask() failed'' s)\<lparr>sig_main := G_exit (- 1)\<rparr>
      else s\<lparr>sig_mask := (if k_sigmask K = 0 then (sig_mask s)(Main := (\<lambda>_. True)) else sig_mask s), sig_main := G_join2\<rparr>)"
| "main_function K G_join2 s =
     (if k_join2 K \<noteq> 0
      then (says ''Main thread: pthread_join() for Thread 2 failed'' s)\<lparr>sig_main := G_exit (- 1)\<rparr>
      else if sig_2 s = A_done then s\<lparr>sig_main := G_join3\<rparr> else s)"
| "main_function K G_join3 s =
     (if k_join3 K \<noteq> 0
      then (says ''Main thread: pthread_join() for Thread 3 failed'' s)\<lparr>sig_main := G_exit (- 1)\<rparr>
      else if sig_3 s = B_done then s\<lparr>sig_main := G_exit 0\<rparr> else s)"
| "main_function K (G_exit r) s = s\<lparr>sig_main := G_exit r\<rparr>"

section \<open>Signals\<close>

definition sends :: "signal \<Rightarrow> sigs \<Rightarrow> sigs" where
  "sends sig s = s\<lparr>sig_pending := (sig_pending s)(sig := True), sig_sent := (sig_sent s)(sig := Suc (sig_sent s sig))\<rparr>"

fun alive :: "sigs \<Rightarrow> who \<Rightarrow> bool" where
  "alive s Main = True"
| "alive s Thread2 = (sig_2 s \<noteq> A_none \<and> sig_2 s \<noteq> A_done)"
| "alive s Thread3 = (sig_3 s \<noteq> B_none \<and> sig_3 s \<noteq> B_done)"

definition deliver :: "signal \<Rightarrow> who \<Rightarrow> sigs \<Rightarrow> sigs" where
  "deliver sig t s =
     (if sig_pending s sig \<and> alive s t \<and> \<not> sig_mask s t sig then
        (let s = s\<lparr>sig_pending := (sig_pending s)(sig := False)\<rparr> in
         case sig_action s sig of
           None \<Rightarrow> s\<lparr>sig_killed := Some sig\<rparr>
         | Some line \<Rightarrow> says line s)
      else s)"

datatype sevent = Go who | Send signal | Deliver signal who

text \<open>Nothing happens any more in a process that has ended.\<close>

definition ended :: "sigs \<Rightarrow> bool" where
  "ended s \<longleftrightarrow> sig_killed s \<noteq> None \<or> (case sig_main s of G_exit r \<Rightarrow> True | _ \<Rightarrow> False)"

fun signals_step :: "sigcalls \<Rightarrow> sigs \<Rightarrow> sevent \<Rightarrow> fault + sigs" where
  "signals_step K s (Go Main) = Inr (if ended s then s else main_function K (sig_main s) s)"
| "signals_step K s (Go Thread2) = Inr (if ended s then s else thread2_function K (sig_2 s) s)"
| "signals_step K s (Go Thread3) = Inr (if ended s then s else thread3_function K (sig_3 s) s)"
| "signals_step K s (Send sig) = Inr (if ended s then s else sends sig s)"
| "signals_step K s (Deliver sig t) = Inr (if ended s then s else deliver sig t s)"

text \<open>At the start no signal is blocked, handled or pending, and \<open>main\<close> has printed its greeting.\<close>

definition signals_start :: sigs where
  "signals_start =
     \<lparr>sig_main = G_create2, sig_2 = A_none, sig_3 = B_none, sig_action = (\<lambda>_. None), sig_mask = (\<lambda>_ _. False),
      sig_pending = (\<lambda>_. False), sig_sent = (\<lambda>_. 0), sig_killed = None, sig_out = [''Main thread: Hello from main!'']\<rparr>"

section \<open>The invariant\<close>

definition actions_ok :: "sigcalls \<Rightarrow> sigs \<Rightarrow> bool" where
  "actions_ok K s \<longleftrightarrow> sig_action s SIGQUIT = None \<and>
     sig_action s SIGINT = (if sig_2 s = A_spin then Some sigint_handler else None) \<and>
     (sig_killed s = Some SIGINT \<longrightarrow> sig_2 s \<noteq> A_spin) \<and> (sig_2 s = A_done \<longrightarrow> k_sigaction K = - 1)"

definition masks_ok :: "sigcalls \<Rightarrow> sigs \<Rightarrow> bool" where
  "masks_ok K s \<longleftrightarrow> (\<forall>sig. \<not> sig_mask s Thread2 sig \<and> \<not> sig_mask s Thread3 sig) \<and>
     (sig_main s = G_join2 \<or> sig_main s = G_join3 \<longrightarrow> k_sigmask K = 0 \<longrightarrow> (\<forall>sig. sig_mask s Main sig)) \<and>
     (sig_main s = G_create2 \<or> sig_main s = G_create3 \<or> sig_main s = G_fill \<or> sig_main s = G_block \<longrightarrow>
       (\<forall>sig. \<not> sig_mask s Main sig))"

definition joins_ok :: "sigs \<Rightarrow> bool" where
  "joins_ok s \<longleftrightarrow> (sig_main s = G_join3 \<longrightarrow> sig_2 s = A_done) \<and>
     (sig_main s = G_exit 0 \<longrightarrow> sig_2 s = A_done \<and> sig_3 s = B_done) \<and>
     (sig_main s = G_create2 \<longrightarrow> sig_2 s = A_none) \<and>
     (sig_main s = G_create2 \<or> sig_main s = G_create3 \<longrightarrow> sig_3 s = B_none)"

definition answers_ok :: "sigs \<Rightarrow> bool" where
  "answers_ok s \<longleftrightarrow>
     count_list (sig_out s) sigint_handler + of_bool (sig_pending s SIGINT) \<le> sig_sent s SIGINT \<and>
     count_list (sig_out s) sigquit_handler + of_bool (sig_pending s SIGQUIT) + of_bool (sig_3 s = B_quit) \<le> sig_sent s SIGQUIT \<and>
     count_list (sig_out s) sigquit_handler \<le> of_bool (sig_3 s = B_done)"

lemmas sig_defs = says_def sends_def deliver_def Let_def sigint_handler_def sigquit_handler_def

lemma main_keeps_signals:
  "masks_ok K s \<Longrightarrow> actions_ok K s \<Longrightarrow> joins_ok s \<Longrightarrow> masks_ok K (main_function K (sig_main s) s)"
  "actions_ok K s \<Longrightarrow> joins_ok s \<Longrightarrow> actions_ok K (main_function K (sig_main s) s)"
  "joins_ok s \<Longrightarrow> joins_ok (main_function K (sig_main s) s)"
  "answers_ok s \<Longrightarrow> joins_ok s \<Longrightarrow> answers_ok (main_function K (sig_main s) s)"
  by (cases "sig_main s"; auto simp: masks_ok_def actions_ok_def joins_ok_def answers_ok_def sig_defs)+

lemma thread2_keeps_signals:
  "masks_ok K s \<Longrightarrow> masks_ok K (thread2_function K (sig_2 s) s)"
  "actions_ok K s \<Longrightarrow> \<not> ended s \<Longrightarrow> actions_ok K (thread2_function K (sig_2 s) s)"
  "joins_ok s \<Longrightarrow> joins_ok (thread2_function K (sig_2 s) s)"
  "answers_ok s \<Longrightarrow> answers_ok (thread2_function K (sig_2 s) s)"
  by (cases "sig_2 s"; auto simp: masks_ok_def actions_ok_def joins_ok_def answers_ok_def ended_def sig_defs
      split: gpc.splits)+

lemma thread3_keeps_signals:
  "masks_ok K s \<Longrightarrow> masks_ok K (thread3_function K (sig_3 s) s)"
  "actions_ok K s \<Longrightarrow> actions_ok K (thread3_function K (sig_3 s) s)"
  "joins_ok s \<Longrightarrow> joins_ok (thread3_function K (sig_3 s) s)"
  "answers_ok s \<Longrightarrow> answers_ok (thread3_function K (sig_3 s) s)"
  by (cases "sig_3 s"; auto simp: masks_ok_def actions_ok_def joins_ok_def answers_ok_def sig_defs
      split: gpc.splits)+

lemma send_keeps:
  "masks_ok K (sends sig s) = masks_ok K s" "actions_ok K (sends sig s) = actions_ok K s"
  "joins_ok (sends sig s) = joins_ok s"
  by (simp_all add: masks_ok_def actions_ok_def joins_ok_def sends_def)

lemma send_answers: "answers_ok s \<Longrightarrow> answers_ok (sends sig s)"
  by (cases sig) (auto simp: answers_ok_def sends_def split: if_splits)

text \<open>A delivered signal ends the process or is answered; the threads stay where they are.\<close>

lemma deliver_cases:
  assumes "actions_ok K s"
  obtains "deliver sig t s = s"
    | "sig_pending s sig" "deliver sig t s = s\<lparr>sig_pending := (sig_pending s)(sig := False), sig_killed := Some sig\<rparr>"
      "sig = SIGINT \<Longrightarrow> sig_2 s \<noteq> A_spin"
    | "sig_pending s sig" "sig = SIGINT" "sig_2 s = A_spin"
      "deliver sig t s = s\<lparr>sig_pending := (sig_pending s)(SIGINT := False), sig_out := sig_out s @ [sigint_handler]\<rparr>"
proof (cases "sig_pending s sig \<and> alive s t \<and> \<not> sig_mask s t sig")
  case False
  then have "deliver sig t s = s" by (auto simp: deliver_def)
  then show thesis by (rule that(1))
next
  case pending: True
  show thesis
  proof (cases "sig_action s sig")
    case None
    have "sig = SIGINT \<Longrightarrow> sig_2 s \<noteq> A_spin" using None assms by (auto simp: actions_ok_def)
    moreover have "deliver sig t s = s\<lparr>sig_pending := (sig_pending s)(sig := False), sig_killed := Some sig\<rparr>"
      using pending None by (simp add: deliver_def)
    ultimately show thesis using pending that(2) by blast
  next
    case (Some line)
    then have "sig = SIGINT \<and> sig_2 s = A_spin \<and> line = sigint_handler"
      using assms by (cases sig) (auto simp: actions_ok_def split: if_splits)
    with pending Some show thesis by (intro that(3)) (simp_all add: deliver_def says_def)
  qed
qed

lemma deliver_keeps:
  assumes "actions_ok K s" and "\<not> ended s"
  shows "actions_ok K (deliver sig t s)" and "masks_ok K s \<Longrightarrow> masks_ok K (deliver sig t s)"
    and "joins_ok s \<Longrightarrow> joins_ok (deliver sig t s)"
proof -
  have alive: "sig_killed s = None" using assms(2) by (simp add: ended_def)
  have "actions_ok K (deliver sig t s) \<and> masks_ok K (deliver sig t s) = masks_ok K s \<and>
      joins_ok (deliver sig t s) = joins_ok s"
    by (rule deliver_cases [OF assms(1), of sig t])
      (use assms(1) alive in \<open>simp_all add: actions_ok_def masks_ok_def joins_ok_def\<close>)
  then show "actions_ok K (deliver sig t s)" "masks_ok K s \<Longrightarrow> masks_ok K (deliver sig t s)"
    "joins_ok s \<Longrightarrow> joins_ok (deliver sig t s)" by simp_all
qed

lemma deliver_answers:
  assumes "actions_ok K s" and "answers_ok s"
  shows "answers_ok (deliver sig t s)"
  by (rule deliver_cases [OF assms(1), of sig t])
    (use assms(2) in \<open>auto simp: answers_ok_def sigint_handler_def sigquit_handler_def split: if_splits\<close>)

definition signals_ok :: "sigcalls \<Rightarrow> sigs \<Rightarrow> bool" where
  "signals_ok K s \<longleftrightarrow> actions_ok K s \<and> masks_ok K s \<and> joins_ok s \<and> answers_ok s"

interpretation signals: invariant_of "signals_step K" "\<lambda>s. s = signals_start" "signals_ok K" for K
proof
  fix s :: sigs
  assume "s = signals_start"
  then show "signals_ok K s"
    by (simp add: signals_ok_def signals_start_def masks_ok_def actions_ok_def joins_ok_def answers_ok_def sig_defs)
next
  fix s e t
  assume ok: "signals_ok K s" and step: "signals_step K s e = Inr t"
  show "signals_ok K t"
  proof (cases "ended s")
    case True
    with step ok show ?thesis by (cases "(K, s, e)" rule: signals_step.cases) auto
  next
    case False
    with step ok show ?thesis
      using main_keeps_signals thread2_keeps_signals thread3_keeps_signals send_keeps send_answers deliver_keeps deliver_answers
      unfolding signals_ok_def by (cases "(K, s, e)" rule: signals_step.cases) auto
  qed
qed

section \<open>What the program promises\<close>

text \<open>
  A run in which every call succeeds: thread 2 has its handler, thread 3 waits for SIGQUIT, and
  \<open>main\<close> blocks all signals; then SIGINT and SIGQUIT are sent.
\<close>

definition all_succeed :: sigcalls where
  "all_succeed = \<lparr>k_create2 = 0, k_create3 = 0, k_fillset = 0, k_sigmask = 0, k_join2 = 0, k_join3 = 0,
     k_sigaction = 0, k_emptyset = 0, k_addset = 0, k_sigwait = 0\<rparr>"

definition all_started :: "sevent list" where
  "all_started = [Go Main, Go Main, Go Main, Go Main, Go Thread2, Go Thread3, Go Thread3,
     Send SIGINT, Deliver SIGINT Thread2, Send SIGQUIT]"

text \<open>Thread 3 does not block the signal it waits for, so SIGQUIT may also end the process.\<close>

lemma signals_run:
  "\<exists>s. run (signals_step all_succeed) signals_start all_started = Inr s \<and> sig_2 s = A_spin \<and> sig_3 s = B_wait \<and>
     sig_main s = G_join2 \<and> sig_killed s = None \<and> sig_pending s SIGQUIT \<and> sig_action s SIGQUIT = None \<and>
     \<not> sig_mask s Thread2 SIGQUIT \<and> \<not> sig_mask s Thread3 SIGQUIT \<and>
     sig_out s = [''Main thread: Hello from main!'', ''Int'']"
  by (simp add: all_started_def signals_start_def all_succeed_def ended_def sig_defs cong: bindr_weak_cong)

lemma signals_quit:
  assumes "sig_2 s = A_spin" "sig_3 s = B_wait" "sig_main s = G_join2" "sig_killed s = None" "sig_pending s SIGQUIT"
    and "sig_action s SIGQUIT = None" "\<not> sig_mask s Thread2 SIGQUIT" "\<not> sig_mask s Thread3 SIGQUIT"
  shows "t \<noteq> Main \<Longrightarrow> \<exists>s'. signals_step all_succeed s (Deliver SIGQUIT t) = Inr s' \<and> sig_killed s' = Some SIGQUIT"
    and "\<exists>s'. run (signals_step all_succeed) s [Go Thread3, Go Thread3] = Inr s' \<and> sig_killed s' = None \<and>
      sig_out s' = sig_out s @ [''Quit'']"
proof -
  have "\<not> ended s" using assms(3,4) by (simp add: ended_def)
  then show "t \<noteq> Main \<Longrightarrow> \<exists>s'. signals_step all_succeed s (Deliver SIGQUIT t) = Inr s' \<and> sig_killed s' = Some SIGQUIT"
    using assms by (cases t) (simp_all add: deliver_def)
  from assms show "\<exists>s'. run (signals_step all_succeed) s [Go Thread3, Go Thread3] = Inr s' \<and> sig_killed s' = None \<and>
      sig_out s' = sig_out s @ [''Quit'']"
    by (simp add: ended_def all_succeed_def says_def sigquit_handler_def)
qed

text \<open>
  Property C40. Once thread 2 has installed its handler, SIGINT no longer ends the process; a
  thread writes a line \<open>Int\<close> only for a SIGINT that was sent, and \<open>Quit\<close> at most once and only for a
  SIGQUIT that was sent; when \<open>main\<close> has blocked all signals, it is given none; and the process
  returns 0 only if the handler could not be installed, since \<open>main\<close> waits for a thread that
  never ends. But with every call successful, a SIGQUIT that arrives while thread 3 waits for it in
  \<open>sigwait\<close> may still end the process, since no thread but \<open>main\<close> blocks it.
\<close>

theorem signals_answered:
  assumes "reach (signals_step K) signals_start s"
  shows "(sig_2 s = A_spin \<longrightarrow> sig_killed s \<noteq> Some SIGINT \<and> sig_killed (deliver SIGINT t s) = sig_killed s) \<and>
    count_list (sig_out s) ''Int'' \<le> sig_sent s SIGINT \<and>
    count_list (sig_out s) ''Quit'' \<le> min 1 (sig_sent s SIGQUIT) \<and>
    (sig_main s = G_join2 \<and> k_sigmask K = 0 \<longrightarrow> deliver sig Main s = s) \<and>
    (sig_main s = G_exit 0 \<longrightarrow> k_sigaction K = - 1) \<and>
    (\<exists>s t. reach (signals_step all_succeed) signals_start s \<and> sig_main s = G_join2 \<and> sig_3 s = B_wait \<and>
      signals_step all_succeed s (Deliver SIGQUIT Thread3) = Inr t \<and> sig_killed t = Some SIGQUIT)"
proof -
  have "signals_ok K s" by (rule signals.reach_good [OF assms refl])
  then have ok: "actions_ok K s" "masks_ok K s" "joins_ok s" "answers_ok s" by (simp_all add: signals_ok_def)
  have "sig_2 s = A_spin \<longrightarrow> sig_killed s \<noteq> Some SIGINT \<and> sig_killed (deliver SIGINT t s) = sig_killed s"
    by (rule deliver_cases [OF ok(1), of SIGINT t]) (use ok(1) in \<open>auto simp: actions_ok_def\<close>)
  moreover have "count_list (sig_out s) ''Int'' \<le> sig_sent s SIGINT" "count_list (sig_out s) ''Quit'' \<le> sig_sent s SIGQUIT"
      "count_list (sig_out s) ''Quit'' \<le> 1"
    using ok(4) by (simp_all add: answers_ok_def sigint_handler_def sigquit_handler_def of_bool_def split: if_splits)
  moreover have "sig_main s = G_join2 \<and> k_sigmask K = 0 \<longrightarrow> deliver sig Main s = s"
    using ok(2) by (auto simp: masks_ok_def deliver_def)
  moreover have "sig_main s = G_exit 0 \<longrightarrow> k_sigaction K = - 1"
    using ok(1,3) by (simp add: actions_ok_def joins_ok_def)
  moreover obtain s' where s': "run (signals_step all_succeed) signals_start all_started = Inr s'" "sig_2 s' = A_spin"
      "sig_3 s' = B_wait" "sig_main s' = G_join2" "sig_killed s' = None" "sig_pending s' SIGQUIT"
      "sig_action s' SIGQUIT = None" "\<not> sig_mask s' Thread2 SIGQUIT" "\<not> sig_mask s' Thread3 SIGQUIT"
    using signals_run by blast
  with signals_quit(1) [OF s'(2-9), of Thread3] run_reach [OF s'(1)] have
    "\<exists>s t. reach (signals_step all_succeed) signals_start s \<and> sig_main s = G_join2 \<and> sig_3 s = B_wait \<and>
      signals_step all_succeed s (Deliver SIGQUIT Thread3) = Inr t \<and> sig_killed t = Some SIGQUIT" by blast
  ultimately show ?thesis by simp
qed

lemma signals_answered_witness:
  "\<exists>s. reach (signals_step all_succeed) signals_start s \<and> sig_2 s = A_spin \<and> sig_killed s \<noteq> Some SIGINT \<and>
     deliver SIGINT Main s = s"
proof -
  obtain s where s: "run (signals_step all_succeed) signals_start all_started = Inr s" "sig_2 s = A_spin" "sig_main s = G_join2"
    using signals_run by blast
  have "k_sigmask all_succeed = 0" by (simp add: all_succeed_def)
  with signals_answered [OF run_reach [OF s(1)], of Main SIGINT] s run_reach [OF s(1)] show ?thesis by blast
qed

end
