(* ===== verification/Spec2Isabelle.thy ===== *)
theory Spec2Isabelle
  imports QueueCalls QueueVariants Lab4Locks StorageRuns StorageWalk ProxyServer
    MyThread Lab1 Signals
begin

text \<open>
  A model of the programs of this repository, exercises in threads and synchronisation written
  in C, with the theorems that make them correct and the ones that show where they are not.

  \<^bold>\<open>The programs and the theories.\<close>

  \<^item> \<open>Prelude\<close>: what all share. A C statement gives a value or a \<open>fault\<close> (undefined behaviour, a
    failed assertion, \<open>abort\<close>, \<open>exit\<close>). An \<open>int\<close> or \<open>long\<close> is a mathematical integer whose every
    arithmetic result passes the check of its width (\<open>c_int\<close>, \<open>c_long\<close>): signed overflow is a fault.
    Pointers are \<open>None\<close> or an address, a heap is a map from addresses to objects, \<open>chain\<close> is the
    list predicate. An execution of a concurrent program is a list of events for its step function
    (\<open>run\<close>, \<open>reach\<close>); the locale \<open>invariant_of\<close> is the invariance principle.

  \<^item> \<open>QueueCore\<close> (\<^verbatim>\<open>lab2/1/queue.c\<close>, \<^verbatim>\<open>queue.h\<close>): the bounded queue, its operations run by one
    thread. \<open>wfq\<close> ties the structure to a list; the operations refine \<open>spec_add\<close> and \<open>spec_get\<close>.
    \<open>QueueCalls\<close>: sequences of calls, and the round trip of values through the queue.

  \<^item> \<open>QueueSteps\<close>: the bodies of \<open>queue_add\<close> and \<open>queue_get\<close> again, one access to shared memory per
    step, as they stand in every variant under \<^verbatim>\<open>lab2/1\<close> and \<^verbatim>\<open>lab2/2\<close>; run without interruption they
    are the functions of \<open>QueueCore\<close>.

  \<^item> \<open>Threads\<close> (the \<^verbatim>\<open>queue-threads.c\<close> of all variants): the reader and the writer over a record of
    functions that brackets the operations. The locale \<open>sync_protocol\<close> states what such a protocol
    promises (at most one thread inside, and an invariant of its own), \<open>queue_threads\<close> what the
    two threads then have: the values arrive once each and in order, every step refines an
    abstract queue, and only overflow and a failed \<open>malloc\<close> are left as faults.

  \<^item> \<open>SpinQueue\<close> (\<^verbatim>\<open>lab2/2/a-spinlock\<close>), \<open>FutexQueue\<close> (\<^verbatim>\<open>e-mutex\<close>), \<open>CondQueue\<close> (\<^verbatim>\<open>f-cond_var\<close>) and
    \<open>SemQueue\<close> (\<^verbatim>\<open>g-semaphore\<close>): one protocol each, interpreted in these locales; mutual exclusion,
    no lost wake-up, no deadlock; and the operations run by one thread (\<open>f_queue_add\<close> and \<open>f_queue_get\<close>
    put the turn in place of the calls to the mutex and the condition variable, and \<open>lone_call\<close> shows
    that the machine of these calls gives the same). \<open>RaceQueue\<close> (\<^verbatim>\<open>lab2/1\<close>) is
    the program without a protocol, with runs that reach a use after free and a null dereference,
    and \<^verbatim>\<open>queue-example.c\<close>. \<open>QueueTypes\<close>: what holds with any protocol or none, the ranges of all
    variables and the possible faults.

  \<^item> \<open>QueuePrograms\<close>: the queue programs as a whole, \<open>prog_step\<close>. \<open>main\<close> creates the reader and the
    writer; each prints its identifiers, calls \<open>set_cpu\<close> and goes into its loop, which is the one of
    \<open>Threads\<close>; and the monitor thread of \<open>queue_init\<close> reads the fields of the structure one at a time, in any
    order and without a lock, and prints them. The output is the list \<open>u_out\<close> of lines, \<open>line_text\<close> their text. The two loops reach
    in the program the states they reach alone; the ranges hold for the monitor; its
    counters never go back. \<open>QueueVariants\<close>: the complete programs of \<^verbatim>\<open>lab2/2\<close>, with the
    size of the queue in the middle of an operation, and a run in which the monitor prints torn statistics.

  \<^item> \<open>Lab4Locks\<close> (\<^verbatim>\<open>lab2/4/4.c\<close>): the exchange spinlock and the futex mutex, on the same locales.

  \<^item> \<open>Storage\<close>, \<open>StorageThreads\<close>, \<open>StoragePrograms\<close> (\<^verbatim>\<open>lab2/3\<close>): the list of strings; the threads that
    compare and the threads that swap neighbours, with a lock in every node; and the three programs,
    whose locks (mutex, read-write lock, spinlock) interpret the locale \<open>node_lock\<close>. The
    invariant is stated on the \<open>view\<close> in which all swaps in progress are complete. \<open>StorageRuns\<close>: the
    complete programs, \<open>srun_step\<close>, with \<open>main\<close> that creates and joins the threads, whatever
    \<open>pthread_create\<close> returns, and the thread that prints the counters. \<open>StorageWalk\<close>: the null
    dereference of the unlocked walk, reached with any capacity from 3 on.

  \<^item> \<open>Monitors\<close>: what the two programs with a printing thread share. Such a thread loads fields one at
    a time, in any order and without a lock (\<open>load_field\<close>); of fields that nobody decreases it prints
    numbers that do not decrease (\<open>watching\<close>, \<open>watched\<close>).

  \<^item> \<open>Proxy\<close>, \<open>ProxyHandler\<close>, \<open>ProxyServer\<close> (\<^verbatim>\<open>proxy/main.c\<close>): the host in a request, the sockets, the
    relay and the handler as functions; the handler again as a machine that makes one system
    call per step (\<open>client_step\<close>), equivalent to the function; then \<open>main\<close>, also by system calls, and the
    handlers interleaved, with the lifetime of \<open>ctx\<close> explicit. The invariant says which descriptors, blocks and
    address lists each position owns (\<open>owned\<close>), and every step is shown to touch only its own
    (\<open>moves_own\<close>); so a handler is isolated from the others.

  \<^item> \<open>MyThread\<close> (\<^verbatim>\<open>lab1/6\<close>): the layout of a thread's stack and the protocol of creation and join.

  \<^item> \<open>Lab1\<close> (the small programs of \<^verbatim>\<open>lab1\<close>): functions of the results of the library calls and of the
    identifiers that are printed, and machines for the identifiers of \<^verbatim>\<open>1/b.c\<close>, for memory handed to a
    detached thread and for cancellation with a cleanup handler.

  \<^item> \<open>Signals\<close> (\<^verbatim>\<open>lab1/5.c\<close>): three threads, their signal masks, the handler and \<open>sigwait\<close>, and the
    delivery of pending signals to any thread that does not block them.

  \<^bold>\<open>Names.\<close> Definitions have the names of the source; a variant has a prefix for its directory
  (\<open>a_\<close>, \<open>e_\<close>, \<open>f_\<close>, \<open>g_\<close>, \<open>mutex_\<close>, \<open>rwlock_\<close>, \<open>spin_\<close>). A \<open>_step\<close> is the machine of a function whose
  steps can interleave; its program positions are a datatype, and the arguments of a position
  are the local variables that are alive there.

  \<^bold>\<open>The environment.\<close> Schedules are arbitrary lists of events: a theorem on reachable states holds for
  every schedule. \<open>malloc\<close> and \<open>calloc\<close> are parameters that return new blocks with arbitrary contents, or
  fail; where the code has to return, the hypothesis \<open>never_null\<close> says that there is memory. System
  calls are parameters with their documented behaviour (\<open>os_ok\<close>). Memory is sequentially
  consistent: the programs synchronise with C11 atomics in their default order, GCC builtins and
  POSIX calls, and outside of them the unlocked accesses of \<^verbatim>\<open>lab2/1\<close> and \<^verbatim>\<open>lab2/3\<close> are data races
  which the standard leaves undefined; what is proved about them is about an implementation
  that performs each access as written.

  \<^bold>\<open>Bounds and loops.\<close> A loop that need not end is a \<open>partial_function\<close> whose result None is
  not returning (\<open>spinlock_lock\<close>, \<open>mutex_lock\<close>, \<open>last_node\<close>, \<open>relay\<close>, ...), or is a machine; that the code
  returns is proved as such. \<open>loop_main\<close> of \<open>Lab1\<close> alone takes a number of turns, since it ends only
  when a library call fails. The storage is filled for every capacity up to \<open>10 ^ 9\<close>, the number that
  fits the buffer of ten characters; the program uses 1000.

  \<^bold>\<open>Not modelled.\<close> The texts of \<open>strerror\<close> and \<open>perror\<close>, and the log output of
  the proxy, except where a fault of \<open>printf\<close> itself matters; that a thread bound to a processor
  runs only there (a schedule is any list of events), \<open>sleep\<close> and
  \<open>sched_yield\<close>, which only delay. The headers of \<^verbatim>\<open>lab2/2\<close> declare the structures of \<^verbatim>\<open>lab2/1/queue.h\<close>, so
  the records of \<open>QueueCore\<close> stand for them. Of the signals only SIGINT and
  SIGQUIT are modelled, sent to the process and not to a thread; in particular a \<open>write\<close> of the proxy to a
  closed connection gives -1 in the model, where SIGPIPE would end the process.
\<close>

section \<open>The variants of the queue\<close>

text \<open>
  Property C7. Every step of the spinlock, futex, condition-variable and semaphore programs is a
  step of the same abstract queue: with the operation in progress completed, the memory holds
  the values it held before, or those with the writer's next number added, or those with the
  first removed.
\<close>

theorem variants_refine:
  assumes "alloc_fresh alloc"
  shows "(a_main er ew sok mok cerr tid = Inr sa \<longrightarrow> refines_queue alloc (a_threads_step alloc) sa) \<and>
    (e_main er ew xok mok cerr tid = Inr se \<longrightarrow> refines_queue alloc (e_threads_step alloc) se) \<and>
    (f_main er ew mok cerr tid = Inr sf \<longrightarrow> refines_queue alloc (f_threads_step alloc) sf) \<and>
    (g_main er ew mok cerr tid = Inr sg \<longrightarrow> refines_queue alloc (g_threads_step alloc) sg)"
  unfolding a_threads_step_def e_threads_step_def f_threads_step_def g_threads_step_def
  by (intro conjI impI a_threads.program_refines e_threads.program_refines f_threads.program_refines
      g_threads.program_refines assms)
    (erule a_main_inv e_main_inv f_main_inv g_main_inv)+

text \<open>The four programs start, and the step in which the writer, holding the spinlock, starts to add 0.\<close>

lemma variants_refine_witness:
  "\<exists>sa se sf sg s s' m m' xs ys. a_main 0 0 True True 0 7 = Inr sa \<and> e_main 0 0 True True 0 7 = Inr se \<and>
     f_main 0 0 True 0 7 = Inr sf \<and> g_main 0 0 True 0 7 = Inr sg \<and>
     refines_queue (bump_alloc wit_node) (e_threads_step (bump_alloc wit_node)) se \<and>
     refines_queue (bump_alloc wit_node) (f_threads_step (bump_alloc wit_node)) sf \<and>
     refines_queue (bump_alloc wit_node) (g_threads_step (bump_alloc wit_node)) sg \<and>
     a_threads_step (bump_alloc wit_node) s (Run Writer) = Inr s' \<and>
     settled_mem (bump_alloc wit_node) s = Inr m \<and> settled_mem (bump_alloc wit_node) s' = Inr m' \<and>
     wfq m xs \<and> wfq m' ys \<and> spec_step (q_max_count (m_q m)) (t_i s) xs ys"
proof -
  let ?al = "bump_alloc wit_node"
  obtain sa s s' m m' where a: "a_main 0 0 True True 0 7 = Inr sa"
      "run (a_threads_step ?al) sa [Run Writer, Sync Writer] = Inr s"
      "a_threads_step ?al s (Run Writer) = Inr s'"
      "settled_mem ?al s = Inr m" "settled_mem ?al s' = Inr m'"
    by (simp add: a_eval settled_mem_def settle_def add_run_unfold)
  obtain se where e: "e_main 0 0 True True 0 7 = Inr se" by (simp add: e_eval)
  obtain sf where f: "f_main 0 0 True 0 7 = Inr sf" by (simp add: f_eval)
  obtain sg where g: "g_main 0 0 True 0 7 = Inr sg" by (simp add: g_eval)
  note all = variants_refine [OF bump_alloc_fresh [of wit_node], of 0 0 True True 0 7 sa True se sf sg]
  from all a(1) have "refines_queue ?al (a_threads_step ?al) sa" by blast
  then obtain xs ys where "wfq m xs" "wfq m' ys" "spec_step (q_max_count (m_q m)) (t_i s) xs ys"
    using run_reach [OF a(2)] a(3-5) unfolding refines_queue_def by blast
  with all a e f g show ?thesis by blast
qed

end
